(* ===== verification/Prelude.thy ===== *)
theory Prelude
  imports Main "HOL-Library.Word" "HOL-Library.AList" "HOL-Library.Multiset"
begin

text \<open>
  Shared vocabulary of the BrunoCoin development: the machine types of the Go sources, the
  result type that carries run-time panics, Go maps as association lists with distinct keys,
  and the list, option and word facts that several components use.

  \<^item> \<open>u32\<close>, \<open>byte\<close>: Go's \<^verbatim>\<open>uint32\<close> and \<^verbatim>\<open>byte\<close>, with wrap-around arithmetic.
    Go's \<^verbatim>\<open>int\<close> is 64 bits wide and only counts objects held in memory here; it is \<open>int\<close>.
  \<^item> \<open>'a go\<close>: the outcome of a call that may panic (\<open>Inl\<close>) or return (\<open>Inr\<close>).
  \<^item> \<open>gomap\<close>: a Go map. The list holds every key once. Its order is not observable by
    the program: code that ranges over a map takes the iteration order as an argument.
  \<^item> \<open>go_simps\<close>, \<open>gomap_simps\<close>: the rewrite rules component proofs load; \<open>wire_defs\<close>:
    the definitions of the wire messages and their conversions; \<open>eval_simps\<close>: what evaluates
    the library functions on concrete arguments.
\<close>

named_theorems go_simps
named_theorems gomap_simps
named_theorems wire_defs
named_theorems eval_simps

type_synonym byte = "8 word"
type_synonym u32 = "32 word"

section \<open>Panics and results\<close>

datatype go_panic = NilDeref | IndexOutOfRange | TypeAssertion | DivideByZero | NilMapWrite | ChanClosed | ExplicitPanic

type_synonym 'a go = "go_panic + 'a"

definition go_bind :: "'a go \<Rightarrow> ('a \<Rightarrow> 'b go) \<Rightarrow> 'b go" where
  "go_bind m f = (case m of Inl e \<Rightarrow> Inl e | Inr a \<Rightarrow> f a)"

lemma go_bind_simps [simp, go_simps]:
  "go_bind (Inl e) f = Inl e"
  "go_bind (Inr a) f = f a"
  by (simp_all add: go_bind_def)

lemma go_bind_Inr_iff [go_simps]:
  "go_bind m f = Inr b \<longleftrightarrow> (\<exists>a. m = Inr a \<and> f a = Inr b)"
  by (cases m) simp_all

lemma go_bind_Inl_iff [go_simps]:
  "go_bind m f = Inl e \<longleftrightarrow> m = Inl e \<or> (\<exists>a. m = Inr a \<and> f a = Inl e)"
  by (cases m) simp_all

text \<open>Sequencing of calls over a slice: the first panic stops the loop.\<close>

fun go_map :: "('a \<Rightarrow> 'b go) \<Rightarrow> 'a list \<Rightarrow> 'b list go" where
  "go_map f [] = Inr []"
| "go_map f (x # xs) = go_bind (f x) (\<lambda>y. go_bind (go_map f xs) (\<lambda>ys. Inr (y # ys)))"

lemma go_map_Inr: "(\<And>x. x \<in> set xs \<Longrightarrow> f x = Inr (g x)) \<Longrightarrow> go_map f xs = Inr (map g xs)"
  by (induction xs) simp_all

lemma go_map_length: "go_map f xs = Inr ys \<Longrightarrow> length ys = length xs"
  by (induction xs arbitrary: ys) (auto simp: go_simps)

lemma go_map_panic: "x \<in> set xs \<Longrightarrow> f x = Inl e \<Longrightarrow> \<exists>e'. go_map f xs = Inl e'"
proof (induction xs)
  case (Cons y ys)
  show ?case
  proof (cases "x = y")
    case True
    with Cons.prems(2) show ?thesis by simp
  next
    case False
    with Cons have "\<exists>e'. go_map f ys = Inl e'" by simp
    then show ?thesis by (cases "f y") auto
  qed
qed simp

text \<open>A loop that threads a state through calls that may panic.\<close>

fun go_fold :: "('a \<Rightarrow> 's \<Rightarrow> 's go) \<Rightarrow> 'a list \<Rightarrow> 's \<Rightarrow> 's go" where
  "go_fold f [] s = Inr s"
| "go_fold f (x # xs) s = go_bind (f x s) (go_fold f xs)"

lemma go_fold_append: "go_fold f (xs @ ys) s = go_bind (go_fold f xs s) (go_fold f ys)"
  by (induction xs arbitrary: s) (auto simp: go_bind_def split: sum.splits)

lemma go_fold_inv:
  assumes "\<And>x s s'. P s \<Longrightarrow> f x s = Inr s' \<Longrightarrow> P s'" "P s" "go_fold f xs s = Inr s'"
  shows "P s'"
  using assms(2,3) by (induction xs arbitrary: s) (auto simp: go_simps intro: assms(1))

section \<open>Go maps\<close>

type_synonym ('k, 'v) gomap = "('k \<times> 'v) list"

abbreviation gget :: "('k, 'v) gomap \<Rightarrow> 'k \<Rightarrow> 'v option" where
  "gget m k \<equiv> map_of m k"

abbreviation gset :: "'k \<Rightarrow> 'v \<Rightarrow> ('k, 'v) gomap \<Rightarrow> ('k, 'v) gomap" where
  "gset k v m \<equiv> AList.update k v m"

abbreviation gdel :: "'k \<Rightarrow> ('k, 'v) gomap \<Rightarrow> ('k, 'v) gomap" where
  "gdel k m \<equiv> AList.delete k m"

definition gkeys :: "('k, 'v) gomap \<Rightarrow> 'k list" where
  "gkeys m = map fst m"

definition gm_ok :: "('k, 'v) gomap \<Rightarrow> bool" where
  "gm_ok m \<longleftrightarrow> distinct (gkeys m)"

text \<open>An iteration order of a map: each key once, in an order the run-time chooses.\<close>

definition range_order :: "('k, 'v) gomap \<Rightarrow> 'k list \<Rightarrow> bool" where
  "range_order m ks \<longleftrightarrow> mset ks = mset (gkeys m)"

lemma gget_gset [simp, gomap_simps]: "gget (gset k v m) k' = (if k' = k then Some v else gget m k')"
  by (simp add: update_conv')

lemma gget_gdel [simp, gomap_simps]: "gget (gdel k m) k' = (if k' = k then None else gget m k')"
  by (simp add: delete_conv')

lemma gm_ok_Nil [simp]: "gm_ok []"
  by (simp add: gm_ok_def gkeys_def)

lemma gm_ok_single [simp]: "gm_ok [(k, v)]"
  by (simp add: gm_ok_def gkeys_def)

lemma gm_ok_gset [simp, intro]: "gm_ok m \<Longrightarrow> gm_ok (gset k v m)"
  by (simp add: gm_ok_def gkeys_def distinct_update)

lemma gm_ok_gdel [simp, intro]: "gm_ok m \<Longrightarrow> gm_ok (gdel k m)"
  by (simp add: gm_ok_def gkeys_def distinct_delete)

lemma gkeys_gset: "set (gkeys (gset k v m)) = insert k (set (gkeys m))"
  by (simp add: gkeys_def dom_update)

lemma in_gkeys_iff: "k \<in> set (gkeys m) \<longleftrightarrow> (\<exists>v. gget m k = Some v)"
  by (metis gkeys_def domD domI dom_map_of_conv_image_fst image_set)

lemma gget_None_iff: "gget m k = None \<longleftrightarrow> k \<notin> set (gkeys m)"
  by (simp add: in_gkeys_iff)

lemma gm_ok_gget: "gm_ok m \<Longrightarrow> gget m k = Some v \<longleftrightarrow> (k, v) \<in> set m"
  by (auto simp: gm_ok_def gkeys_def map_of_is_SomeI dest: map_of_SomeD)

lemma gset_length: "gm_ok m \<Longrightarrow> length (gset k v m) = (if k \<in> set (gkeys m) then length m else Suc (length m))"
  by (induction m) (auto simp: gm_ok_def gkeys_def)

lemma mset_gkeys_gset: "k \<notin> set (gkeys m) \<Longrightarrow> mset (gkeys (gset k v m)) = add_mset k (mset (gkeys m))"
  by (induction m) (auto simp: gkeys_def)

lemma range_order_set: "range_order m ks \<Longrightarrow> set ks = set (gkeys m)"
  by (metis range_order_def set_mset_mset)

lemma range_order_distinct: "range_order m ks \<Longrightarrow> gm_ok m \<Longrightarrow> distinct ks"
  by (metis gm_ok_def range_order_def mset_eq_imp_distinct_iff)

lemma range_order_refl [simp]: "range_order m (gkeys m)"
  by (simp add: range_order_def)

section \<open>Lists\<close>

lemma list_update_swap_mset:
  assumes "i < length xs" "j < length xs"
  shows "mset (xs[i := xs ! j, j := xs ! i]) = mset xs"
  using assms by (simp add: mset_swap)

lemma drop_take_nth_Cons: "i < length xs \<Longrightarrow> drop i xs = xs ! i # drop (Suc i) xs"
  by (rule Cons_nth_drop_Suc [symmetric])

lemma sum_list_mset_eq: "mset xs = mset ys \<Longrightarrow> sum_list xs = (sum_list ys :: 'a::comm_monoid_add)"
  by (metis sum_mset_sum_list)

section \<open>Words\<close>

lemma unat_byte_less: "unat (b :: byte) < 256"
  using unsigned_less [where 'a = nat and w = b] by simp

lemma unat_u32_less: "unat (w :: u32) < 2 ^ 32"
  using unsigned_less [where 'a = nat and w = w] by simp

lemma unat_of_nat_u32: "n < 2 ^ 32 \<Longrightarrow> unat (word_of_nat n :: u32) = n"
  by (simp add: unat_of_nat)

lemma unat_byte_nibble: "unat (b :: byte) div 16 < 16"
  using unat_byte_less [of b] by (simp add: less_mult_imp_div_less)

lemma unat_sum_list_u32:
  fixes ws :: "u32 list"
  shows "unat (sum_list ws) = sum_list (map unat ws) mod 2 ^ 32"
proof (induction ws)
  case (Cons w ws)
  have "unat (w + sum_list ws) = (unat w + unat (sum_list ws)) mod 2 ^ 32"
    by (simp add: unat_word_ariths)
  also have "\<dots> = (unat w + sum_list (map unat ws)) mod 2 ^ 32"
    using Cons.IH by (simp add: mod_simps)
  finally show ?case by simp
qed simp

lemma unat_sum_list_exact:
  fixes ws :: "u32 list"
  assumes "sum_list (map unat ws) < 2 ^ 32"
  shows "unat (sum_list ws) = sum_list (map unat ws)"
  using assms by (simp add: unat_sum_list_u32)

lemma unat_diff_le: "(b :: u32) \<le> a \<Longrightarrow> unat (a - b) = unat a - unat b"
  by (simp add: unat_sub)

lemma foldl_add_sum_list:
  fixes f :: "'a \<Rightarrow> 'b::comm_monoid_add"
  shows "foldl (\<lambda>r v. r + f v) a xs = a + sum_list (map f xs)"
  by (induction xs arbitrary: a) (simp_all add: add.assoc)

end
