(* ===== verification/Proto.thy ===== *)
theory Proto
  imports Prelude
begin

text \<open>
  The wire messages of \<^verbatim>\<open>pkg/proto\<close>: the fields of the generated structs
  (\<^verbatim>\<open>advancedcoin.pb.go\<close>) and the constructors and size functions of
  \<^verbatim>\<open>constructors.go\<close>. The elements of a repeated message field are never nil after
  decoding; a singular message field that the sender left out is nil, so the header of a
  block and the block of a response are optional.

  \<^verbatim>\<open>unsafe.Sizeof\<close> measures the Go representation on a 64-bit platform: 4 bytes for a
  \<^verbatim>\<open>uint32\<close>, 16 for a string header, whatever the length of the string.
\<close>

record proto_TransactionInput =
  pti_TransactionHash :: string
  pti_OutputIndex :: u32
  pti_UnlockingScript :: string
  pti_Amount :: u32

record proto_TransactionOutput =
  pto_Amount :: u32
  pto_LockingScript :: string

record proto_Transaction =
  ptx_Version :: u32
  ptx_Inputs :: "proto_TransactionInput list"
  ptx_Outputs :: "proto_TransactionOutput list"
  ptx_LockTime :: u32

record proto_BlockHeader =
  pbh_Version :: u32
  pbh_PrevBlockHash :: string
  pbh_MerkleRoot :: string
  pbh_Timestamp :: u32
  pbh_DifficultyTarget :: string
  pbh_Nonce :: u32

record proto_Block =
  pb_Header :: "proto_BlockHeader option"
  pb_Transactions :: "proto_Transaction list"

record proto_VersionRequest =
  pvr_Version :: u32
  pvr_AddrYou :: string
  pvr_AddrMe :: string
  pvr_BestHeight :: u32

record proto_GetBlocksRequest =
  pgb_TopBlockHash :: string
  pgb_AddrMe :: string

record proto_GetBlocksResponse =
  pgr_BlockHashes :: "string list"

record proto_GetDataRequest =
  pgd_BlockHash :: string

record proto_GetDataResponse =
  pgd_Block :: "proto_Block option"

record proto_Address =
  pa_Addr :: string
  pa_LastSeen :: u32

record proto_Addresses =
  pas_Addrs :: "proto_Address list"

definition sizeof_uint32 :: u32 where "sizeof_uint32 = 4"
definition sizeof_string :: u32 where "sizeof_string = 16"

definition SzOfTx :: "proto_Transaction \<Rightarrow> u32" where
  "SzOfTx t =
     (let sz = foldl (\<lambda>sz txi. sz + sizeof_uint32 + sizeof_string + sizeof_string + sizeof_uint32) 0 (ptx_Inputs t);
          sz = foldl (\<lambda>sz txo. sz + sizeof_uint32 + sizeof_string) sz (ptx_Outputs t)
      in sz + sizeof_uint32 + sizeof_uint32)"

definition NewTx :: "u32 \<Rightarrow> proto_TransactionInput list \<Rightarrow> proto_TransactionOutput list \<Rightarrow> u32 \<Rightarrow> proto_Transaction" where
  "NewTx ver inpts outpts lckTime =
     \<lparr>ptx_Version = ver, ptx_Inputs = inpts, ptx_Outputs = outpts, ptx_LockTime = lckTime\<rparr>"

definition SzOfHdr :: "proto_BlockHeader option \<Rightarrow> u32" where
  "SzOfHdr h = sizeof_string + sizeof_uint32 + sizeof_string + sizeof_uint32 + sizeof_uint32"

definition SzOfBlk :: "proto_Block \<Rightarrow> u32" where
  "SzOfBlk b = foldl (\<lambda>sz t. sz + SzOfTx t) 0 (pb_Transactions b) + SzOfHdr (pb_Header b)"

definition NewTxInpt :: "string \<Rightarrow> u32 \<Rightarrow> string \<Rightarrow> u32 \<Rightarrow> proto_TransactionInput" where
  "NewTxInpt h i unlckScr amt =
     \<lparr>pti_TransactionHash = h, pti_OutputIndex = i, pti_UnlockingScript = unlckScr, pti_Amount = amt\<rparr>"

definition NewTxOutpt :: "u32 \<Rightarrow> string \<Rightarrow> proto_TransactionOutput" where
  "NewTxOutpt amt toPK = \<lparr>pto_Amount = amt, pto_LockingScript = toPK\<rparr>"

lemmas new_msg_defs [wire_defs] = NewTx_def NewTxInpt_def NewTxOutpt_def

lemma foldl_const_add:
  fixes c :: "'a::comm_semiring_1"
  shows "foldl (\<lambda>s x. s + c) a xs = a + of_nat (length xs) * c"
  by (induction xs arbitrary: a) (simp_all add: algebra_simps)

text \<open>The size of a transaction counts its inputs and outputs and nothing of their contents.\<close>

lemma SzOfTx_eq:
  "SzOfTx t = of_nat (40 * length (ptx_Inputs t) + 20 * length (ptx_Outputs t) + 8)"
  using foldl_const_add [of "sizeof_uint32 + sizeof_string + sizeof_string + sizeof_uint32" 0 "ptx_Inputs t"]
    foldl_const_add [of "sizeof_uint32 + sizeof_string" _ "ptx_Outputs t"]
  by (simp add: SzOfTx_def Let_def sizeof_uint32_def sizeof_string_def add.assoc mult.commute)

lemma unat_SzOfTx:
  assumes "40 * length (ptx_Inputs t) + 20 * length (ptx_Outputs t) + 8 < 2 ^ 32"
  shows "unat (SzOfTx t) = 40 * length (ptx_Inputs t) + 20 * length (ptx_Outputs t) + 8"
  unfolding SzOfTx_eq by (rule unat_of_nat_u32 [OF assms])

lemma SzOfBlk_eq: "SzOfBlk b = sum_list (map SzOfTx (pb_Transactions b)) + 44"
  by (simp add: SzOfBlk_def SzOfHdr_def foldl_add_sum_list sizeof_uint32_def sizeof_string_def)

end
