(* ===== verification/Go_Strings.thy ===== *)
theory Go_Strings
  imports Prelude
begin

text \<open>
  The parts of Go's standard library on strings and bytes that the program calls:
  decimal printing of unsigned integers (\<^verbatim>\<open>fmt.Sprintf("%v", n)\<close>), \<^verbatim>\<open>strconv.ParseUint\<close>
  with base 10 and 32 bits, \<^verbatim>\<open>strings.Split\<close> with a one-character separator,
  \<^verbatim>\<open>strings.Join\<close>, \<^verbatim>\<open>encoding/hex\<close> and \<^verbatim>\<open>bytes.Compare\<close>. A Go string is a
  sequence of bytes, here a list of \<open>char\<close>.

  The lemmas are the round trips and injectivity facts the components rest on: printing then
  parsing, encoding then decoding, splitting what was joined.
\<close>

section \<open>Strings and bytes\<close>

definition bytes_of_string :: "string \<Rightarrow> byte list" where
  "bytes_of_string s = map (\<lambda>c. word_of_nat (of_char c)) s"

lemma unat_of_char_byte: "unat (word_of_nat (of_char c) :: byte) = of_char c"
  by (simp add: unat_of_nat)

lemma inj_byte_of_char: "inj (\<lambda>c. word_of_nat (of_char c) :: byte)"
  by (rule injI) (metis unat_of_char_byte of_char_eq_iff)

lemma bytes_of_string_inj: "bytes_of_string s = bytes_of_string t \<longleftrightarrow> s = t"
  unfolding bytes_of_string_def using inj_byte_of_char by (simp add: inj_map_eq_map)

lemma length_bytes_of_string [simp]: "length (bytes_of_string s) = length s"
  by (simp add: bytes_of_string_def)

section \<open>Decimal numbers\<close>

definition digit_char :: "nat \<Rightarrow> char" where
  "digit_char d = char_of (48 + d)"

definition digit_val :: "char \<Rightarrow> nat option" where
  "digit_val c = (let n = of_char c in if 48 \<le> n \<and> n \<le> 57 then Some (n - 48) else None)"

fun show_nat :: "nat \<Rightarrow> string" where
  "show_nat n = (if n < 10 then [digit_char n] else show_nat (n div 10) @ [digit_char (n mod 10)])"

declare show_nat.simps [simp del]

definition show_u32 :: "u32 \<Rightarrow> string" where
  "show_u32 w = show_nat (unat w)"

lemma digit_val_char [simp]: "d < 10 \<Longrightarrow> digit_val (digit_char d) = Some d"
  by (simp add: digit_val_def digit_char_def)

lemma digit_char_range: "d < 10 \<Longrightarrow> of_char (digit_char d) \<in> {48..57::nat}"
  by (simp add: digit_char_def)

lemma digit_char_eval [eval_simps]:
  "digit_char 0 = CHR ''0''" "digit_char 1 = CHR ''1''" "digit_char (Suc 0) = CHR ''1''" "digit_char 2 = CHR ''2''"
  "digit_char 3 = CHR ''3''" "digit_char 4 = CHR ''4''" "digit_char 5 = CHR ''5''" "digit_char 6 = CHR ''6''"
  "digit_char 7 = CHR ''7''" "digit_char 8 = CHR ''8''" "digit_char 9 = CHR ''9''"
  by code_simp+

lemma show_nat_eval [eval_simps]:
  "n < 10 \<Longrightarrow> show_nat n = [digit_char n]"
  "10 \<le> n \<Longrightarrow> n < 100 \<Longrightarrow> show_nat n = [digit_char (n div 10), digit_char (n mod 10)]"
  by (simp_all add: show_nat.simps [of n] show_nat.simps [of "n div 10"] div_less_iff_less_mult)

lemma show_u32_eval [eval_simps]:
  "unat w < 10 \<Longrightarrow> show_u32 w = [digit_char (unat w)]"
  "10 \<le> unat w \<Longrightarrow> unat w < 100 \<Longrightarrow> show_u32 w = [digit_char (unat w div 10), digit_char (unat w mod 10)]"
  by (simp_all add: show_u32_def show_nat_eval)

lemma show_nat_ne [simp]: "show_nat n \<noteq> []"
  by (subst show_nat.simps) simp

lemma show_nat_digits: "c \<in> set (show_nat n) \<Longrightarrow> of_char c \<in> {48..57::nat}"
proof (induction n rule: show_nat.induct)
  case (1 n)
  show ?case
  proof (cases "n < 10")
    case True
    with "1.prems" have "c = digit_char n" by (simp add: show_nat.simps [of n])
    with digit_char_range [OF True] show ?thesis by simp
  next
    case False
    with "1.prems" have "c \<in> set (show_nat (n div 10)) \<or> c = digit_char (n mod 10)"
      by (auto simp: show_nat.simps [of n])
    with "1.IH" [OF False] show ?thesis using digit_char_range [of "n mod 10"] by auto
  qed
qed

lemma show_nat_no_char: "of_char c \<notin> {48..57::nat} \<Longrightarrow> c \<notin> set (show_nat n)"
  using show_nat_digits by blast

lemma show_u32_no_char: "of_char c \<notin> {48..57::nat} \<Longrightarrow> c \<notin> set (show_u32 w)"
  by (simp add: show_u32_def show_nat_no_char)

text \<open>\<^verbatim>\<open>strconv.ParseUint(s, 10, 32)\<close>: \<open>None\<close> is its error (syntax or range).\<close>

fun parse_uint_loop :: "nat \<Rightarrow> string \<Rightarrow> nat option" where
  "parse_uint_loop n [] = Some n"
| "parse_uint_loop n (c # cs) =
     (case digit_val c of
        None \<Rightarrow> None
      | Some d \<Rightarrow> (let n1 = n * 10 + d in if n1 > 2 ^ 32 - 1 then None else parse_uint_loop n1 cs))"

definition ParseUint32 :: "string \<Rightarrow> u32 option" where
  "ParseUint32 s = (if s = [] then None else map_option word_of_nat (parse_uint_loop 0 s))"

lemma parse_uint_loop_append:
  "parse_uint_loop n (xs @ ys) = Option.bind (parse_uint_loop n xs) (\<lambda>m. parse_uint_loop m ys)"
  by (induction xs arbitrary: n) (auto simp: Let_def split: option.splits)

lemma parse_uint_show: "n < 2 ^ 32 \<Longrightarrow> parse_uint_loop 0 (show_nat n) = Some n"
proof (induction n rule: show_nat.induct)
  case (1 n)
  show ?case
  proof (cases "n < 10")
    case True
    then show ?thesis by (simp add: show_nat.simps [of n])
  next
    case False
    with "1" have "parse_uint_loop 0 (show_nat (n div 10)) = Some (n div 10)"
      by (simp add: div_le_dividend le_less_trans)
    with False "1.prems" show ?thesis
      by (simp add: show_nat.simps [of n] parse_uint_loop_append)
  qed
qed

lemma ParseUint32_show [simp]: "ParseUint32 (show_u32 w) = Some w"
proof -
  from unat_u32_less [of w] show ?thesis by (simp add: ParseUint32_def show_u32_def parse_uint_show)
qed

lemma show_u32_inj [simp]: "show_u32 v = show_u32 w \<longleftrightarrow> v = w"
  by (metis ParseUint32_show option.inject)

section \<open>Split and join\<close>

fun strings_Split :: "char \<Rightarrow> string \<Rightarrow> string list" where
  "strings_Split sep [] = [[]]"
| "strings_Split sep (c # cs) =
     (if c = sep then [] # strings_Split sep cs
      else (case strings_Split sep cs of [] \<Rightarrow> [[c]] | w # ws \<Rightarrow> (c # w) # ws))"

fun strings_Join :: "string list \<Rightarrow> string \<Rightarrow> string" where
  "strings_Join [] sep = []"
| "strings_Join [x] sep = x"
| "strings_Join (x # y # xs) sep = x @ sep @ strings_Join (y # xs) sep"

lemma strings_Split_ne [simp]: "strings_Split sep s \<noteq> []"
  by (induction s) (auto split: list.splits)

lemma strings_Split_none: "sep \<notin> set s \<Longrightarrow> strings_Split sep s = [s]"
  by (induction s) auto

lemma strings_Split_append: "sep \<notin> set s \<Longrightarrow> strings_Split sep (s @ sep # t) = s # strings_Split sep t"
  by (induction s) auto

lemma strings_Split_Join:
  assumes "xs \<noteq> []" "\<forall>x \<in> set xs. sep \<notin> set x"
  shows "strings_Split sep (strings_Join xs [sep]) = xs"
  using assms
  by (induction xs "[sep]" rule: strings_Join.induct)
    (auto simp: strings_Split_none strings_Split_append)

text \<open>Two strings cut at the first occurrence of a separator.\<close>

lemma append_sep_inj:
  assumes "c \<notin> set a" "c \<notin> set b" "a @ c # x = b @ c # y"
  shows "a = b \<and> x = y"
  using assms
proof (induction a arbitrary: b)
  case Nil
  then show ?case by (cases b) auto
next
  case (Cons h t)
  then show ?case by (cases b) auto
qed

text \<open>Two strings cut at the last occurrence of a separator.\<close>

lemma append_last_sep_inj:
  assumes "c \<notin> set x" "c \<notin> set y" "a @ c # x = b @ c # y"
  shows "a = b \<and> x = y"
proof -
  have "rev x @ c # rev a = rev y @ c # rev b"
    using arg_cong [OF assms(3), of rev] by simp
  then show ?thesis using append_sep_inj [of c "rev x" "rev y" "rev a" "rev b"] assms(1,2) by simp
qed

section \<open>encoding/hex\<close>

definition hex_char :: "nat \<Rightarrow> char" where
  "hex_char n = (if n < 10 then char_of (48 + n) else char_of (87 + n))"

definition fromHexChar :: "char \<Rightarrow> nat option" where
  "fromHexChar c = (let n = of_char c in
     if 48 \<le> n \<and> n \<le> 57 then Some (n - 48)
     else if 97 \<le> n \<and> n \<le> 102 then Some (n - 87)
     else if 65 \<le> n \<and> n \<le> 70 then Some (n - 55) else None)"

definition hex_EncodeToString :: "byte list \<Rightarrow> string" where
  "hex_EncodeToString bs = concat (map (\<lambda>b. [hex_char (unat b div 16), hex_char (unat b mod 16)]) bs)"

datatype hex_error = InvalidByte char | ErrLength

text \<open>\<^verbatim>\<open>hex.DecodeString\<close> returns the bytes decoded so far together with its error.\<close>

fun hex_DecodeString :: "string \<Rightarrow> byte list \<times> hex_error option" where
  "hex_DecodeString [] = ([], None)"
| "hex_DecodeString [c] =
     (case fromHexChar c of None \<Rightarrow> ([], Some (InvalidByte c)) | Some _ \<Rightarrow> ([], Some ErrLength))"
| "hex_DecodeString (c # d # cs) =
     (case fromHexChar c of
        None \<Rightarrow> ([], Some (InvalidByte c))
      | Some a \<Rightarrow>
          (case fromHexChar d of
             None \<Rightarrow> ([], Some (InvalidByte d))
           | Some b \<Rightarrow> (case hex_DecodeString cs of
                (bs, err) \<Rightarrow> (word_of_nat (16 * a + b) # bs, err))))"

lemma fromHexChar_hex_char [simp]: "n < 16 \<Longrightarrow> fromHexChar (hex_char n) = Some n"
  by (auto simp: fromHexChar_def hex_char_def)

lemma word_of_nat_unat_split: "word_of_nat (16 * (unat b div 16) + unat b mod 16) = (b :: byte)"
  by simp

theorem hex_Decode_Encode [simp]: "hex_DecodeString (hex_EncodeToString bs) = (bs, None)"
proof (induction bs)
  case (Cons b bs)
  from Cons.IH unat_byte_nibble [of b] show ?case by (simp add: hex_EncodeToString_def word_of_nat_unat_split)
qed (simp add: hex_EncodeToString_def)

lemma hex_Encode_inj: "hex_EncodeToString a = hex_EncodeToString b \<longleftrightarrow> a = b"
  by (metis hex_Decode_Encode prod.inject)

lemma length_hex_Encode [simp]: "length (hex_EncodeToString bs) = 2 * length bs"
  by (induction bs) (simp_all add: hex_EncodeToString_def)

lemma hex_char_range: "n < 16 \<Longrightarrow> of_char (hex_char n) \<in> {48..57::nat} \<union> {97..102}"
  by (auto simp: hex_char_def)

lemma hex_Encode_chars:
  "c \<in> set (hex_EncodeToString bs) \<Longrightarrow> of_char c \<in> {48..57::nat} \<union> {97..102}"
proof (induction bs)
  case (Cons b bs)
  have lt: "unat b div 16 < 16" "unat b mod 16 < 16"
    using unat_byte_nibble [of b] by simp_all
  from Cons.prems have "c = hex_char (unat b div 16) \<or> c = hex_char (unat b mod 16)
      \<or> c \<in> set (hex_EncodeToString bs)"
    by (auto simp: hex_EncodeToString_def)
  then show ?case using Cons.IH hex_char_range [OF lt(1)] hex_char_range [OF lt(2)] by blast
qed (simp add: hex_EncodeToString_def)

lemma hex_Encode_no_char:
  "of_char c \<notin> {48..57::nat} \<union> {97..102} \<Longrightarrow> c \<notin> set (hex_EncodeToString bs)"
  using hex_Encode_chars by blast

section \<open>bytes.Compare\<close>

fun bytes_Compare :: "byte list \<Rightarrow> byte list \<Rightarrow> int" where
  "bytes_Compare [] [] = 0"
| "bytes_Compare [] (_ # _) = -1"
| "bytes_Compare (_ # _) [] = 1"
| "bytes_Compare (a # as) (b # bs) =
     (if a < b then -1 else if b < a then 1 else bytes_Compare as bs)"

text \<open>The big-endian value of a byte string.\<close>

definition be_val :: "byte list \<Rightarrow> nat" where
  "be_val bs = foldl (\<lambda>n b. n * 256 + unat b) 0 bs"

lemma be_val_foldl: "foldl (\<lambda>n b. n * 256 + unat (b :: byte)) a bs = a * 256 ^ length bs + be_val bs"
proof (induction bs arbitrary: a)
  case (Cons b bs)
  have "foldl (\<lambda>n b. n * 256 + unat b) a (b # bs) = (a * 256 + unat b) * 256 ^ length bs + be_val bs"
    using Cons.IH by simp
  moreover have "be_val (b # bs) = unat b * 256 ^ length bs + be_val bs"
    using Cons.IH [of "unat b"] by (simp add: be_val_def)
  ultimately show ?case by (simp add: algebra_simps)
qed (simp add: be_val_def)

lemma be_val_Cons: "be_val (b # bs) = unat b * 256 ^ length bs + be_val bs"
  using be_val_foldl [of "unat b" bs] by (simp add: be_val_def)

lemma be_val_less: "be_val bs < 256 ^ length bs"
proof (induction bs)
  case (Cons b bs)
  have "unat b + 1 \<le> 256" using unat_byte_less [of b] by simp
  then have "(unat b + 1) * 256 ^ length bs \<le> 256 * 256 ^ length bs" by (rule mult_le_mono1)
  then have "unat b * 256 ^ length bs + 256 ^ length bs \<le> 256 ^ length (b # bs)"
    by (simp add: add_mult_distrib)
  with Cons.IH show ?case by (simp only: be_val_Cons)
qed (simp add: be_val_def)

text \<open>On byte strings of one length the comparison is that of the numbers they denote.\<close>

lemma bytes_Compare_less:
  "length as = length bs \<Longrightarrow> bytes_Compare as bs = -1 \<longleftrightarrow> be_val as < be_val bs"
proof (induction as bs rule: bytes_Compare.induct)
  case (4 a as b bs)
  have lt: "be_val as < 256 ^ length bs" "be_val bs < 256 ^ length bs"
    using be_val_less [of as] be_val_less [of bs] "4.prems" by simp_all
  consider "a < b" | "b < a" | "a = b" by (meson neqE)
  then show ?case
  proof cases
    case 1
    then have "unat a + 1 \<le> unat b" by (simp add: word_less_nat_alt)
    then have "(unat a + 1) * 256 ^ length bs \<le> unat b * 256 ^ length bs" by (rule mult_le_mono1)
    with lt 1 "4.prems" show ?thesis by (simp add: be_val_Cons algebra_simps)
  next
    case 2
    then have "unat b + 1 \<le> unat a" by (simp add: word_less_nat_alt)
    then have "(unat b + 1) * 256 ^ length bs \<le> unat a * 256 ^ length bs" by (rule mult_le_mono1)
    with lt 2 "4.prems" show ?thesis by (simp add: be_val_Cons algebra_simps)
  next
    case 3
    with "4" show ?thesis by (simp add: be_val_Cons)
  qed
qed (simp_all add: be_val_def)

end
