(* ===== verification/Sha256.thy ===== *)
theory Sha256
  imports Prelude
begin

text \<open>
  \<^verbatim>\<open>crypto/sha256.Sum256\<close> of Go's standard library, the hash behind every identifier of the
  program, after FIPS 180-4: padding, message schedule and the 64-round compression of each
  512-bit block. The components take the hash function as an argument; this theory is the
  function the program runs them with.
\<close>

unbundle bit_operations_syntax

text \<open>
  The constants, as the standard derives them: the first 32 bits of the fractional parts of the cube roots
  of the first 64 primes, and of the square roots of the first eight. \<open>root_bits k n b 0\<close> is the integer
  part of the \<open>k\<close>-th root of \<open>n\<close>, if that has at most \<open>b\<close> bits.
\<close>

fun root_bits :: "nat \<Rightarrow> int \<Rightarrow> nat \<Rightarrow> int \<Rightarrow> int" where
  "root_bits k n 0 r = r"
| "root_bits k n (Suc b) r = root_bits k n b (if (r + 2 ^ b) ^ k \<le> n then r + 2 ^ b else r)"

definition frac_root :: "nat \<Rightarrow> int \<Rightarrow> u32" where
  "frac_root k p = word_of_int (root_bits k (p * 2 ^ (32 * k)) 35 0)"

definition sha_primes :: "int list" where
  "sha_primes =
    [2, 3, 5, 7, 11, 13, 17, 19, 23, 29, 31, 37, 41, 43, 47, 53,
     59, 61, 67, 71, 73, 79, 83, 89, 97, 101, 103, 107, 109, 113, 127, 131,
     137, 139, 149, 151, 157, 163, 167, 173, 179, 181, 191, 193, 197, 199, 211, 223,
     227, 229, 233, 239, 241, 251, 257, 263, 269, 271, 277, 281, 283, 293, 307, 311]"

definition sha_K :: "u32 list" where
  "sha_K = map (frac_root 3) sha_primes"

definition sha_H0 :: "u32 list" where
  "sha_H0 = map (frac_root 2) (take 8 sha_primes)"

definition rotr32 :: "nat \<Rightarrow> u32 \<Rightarrow> u32" where
  "rotr32 n w = drop_bit n w OR push_bit (32 - n) w"

definition sha_S0 :: "u32 \<Rightarrow> u32" where
  "sha_S0 x = rotr32 2 x XOR rotr32 13 x XOR rotr32 22 x"
definition sha_S1 :: "u32 \<Rightarrow> u32" where
  "sha_S1 x = rotr32 6 x XOR rotr32 11 x XOR rotr32 25 x"
definition sha_s0 :: "u32 \<Rightarrow> u32" where
  "sha_s0 x = rotr32 7 x XOR rotr32 18 x XOR drop_bit 3 x"
definition sha_s1 :: "u32 \<Rightarrow> u32" where
  "sha_s1 x = rotr32 17 x XOR rotr32 19 x XOR drop_bit 10 x"
definition sha_Ch :: "u32 \<Rightarrow> u32 \<Rightarrow> u32 \<Rightarrow> u32" where
  "sha_Ch x y z = (x AND y) XOR (NOT x AND z)"
definition sha_Maj :: "u32 \<Rightarrow> u32 \<Rightarrow> u32 \<Rightarrow> u32" where
  "sha_Maj x y z = (x AND y) XOR (x AND z) XOR (y AND z)"

fun be_word :: "byte list \<Rightarrow> u32" where
  "be_word bs = foldl (\<lambda>w b. push_bit 8 w OR ucast b) 0 bs"

definition word_be :: "u32 \<Rightarrow> byte list" where
  "word_be w = [ucast (drop_bit 24 w), ucast (drop_bit 16 w), ucast (drop_bit 8 w), ucast w]"

fun chunks :: "nat \<Rightarrow> nat \<Rightarrow> 'a list \<Rightarrow> 'a list list" where
  "chunks k 0 xs = []"
| "chunks k (Suc n) xs = take k xs # chunks k n (drop k xs)"

text \<open>The schedule, newest word first.\<close>

fun sha_schedule :: "nat \<Rightarrow> u32 list \<Rightarrow> u32 list" where
  "sha_schedule 0 ws = ws"
| "sha_schedule (Suc n) ws =
     sha_schedule n ((sha_s1 (ws ! 1) + ws ! 6 + sha_s0 (ws ! 14) + ws ! 15) # ws)"

fun sha_rounds :: "u32 list \<Rightarrow> u32 list \<Rightarrow>
    u32 \<Rightarrow> u32 \<Rightarrow> u32 \<Rightarrow> u32 \<Rightarrow> u32 \<Rightarrow> u32 \<Rightarrow> u32 \<Rightarrow> u32 \<Rightarrow> u32 list" where
  "sha_rounds (k # ks) (w # ws) a b c d e f g h =
     (let t1 = h + sha_S1 e + sha_Ch e f g + k + w; t2 = sha_S0 a + sha_Maj a b c
      in sha_rounds ks ws (t1 + t2) a b c (d + t1) e f g)"
| "sha_rounds _ _ a b c d e f g h = [a, b, c, d, e, f, g, h]"

definition sha_block :: "u32 list \<Rightarrow> byte list \<Rightarrow> u32 list" where
  "sha_block hs blk =
     (let ws = rev (sha_schedule 48 (rev (map be_word (chunks 4 16 blk))))
      in map2 (+) hs (sha_rounds sha_K ws (hs ! 0) (hs ! 1) (hs ! 2) (hs ! 3) (hs ! 4) (hs ! 5) (hs ! 6) (hs ! 7)))"

definition sha_pad :: "byte list \<Rightarrow> byte list" where
  "sha_pad m =
     (let n = length m; bits = 8 * n
      in m @ 0x80 # replicate ((119 - n mod 64) mod 64) 0
           @ map (\<lambda>i. ucast (drop_bit (8 * i) (word_of_nat bits :: 64 word))) [7, 6, 5, 4, 3, 2, 1, 0])"

definition sha256_Sum256 :: "byte list \<Rightarrow> byte list" where
  "sha256_Sum256 m =
     (let p = sha_pad m
      in concat (map word_be (foldl sha_block sha_H0 (chunks 64 (length p div 64) p))))"

lemma sha_H0_length [simp]: "length sha_H0 = 8"
  by (simp add: sha_H0_def sha_primes_def)

lemma root_bits_spec:
  "r ^ k \<le> n \<Longrightarrow> n < (r + 2 ^ b) ^ k \<Longrightarrow> root_bits k n b r ^ k \<le> n \<and> n < (root_bits k n b r + 1) ^ k"
  by (induction b arbitrary: r) (simp_all add: add.assoc mult_2 [symmetric])

lemma sha_rounds_length [simp]: "length (sha_rounds ks ws a b c d e f g h) = 8"
  by (induction ks ws a b c d e f g h rule: sha_rounds.induct) (simp_all add: Let_def)

lemma sha_block_length: "length hs = 8 \<Longrightarrow> length (sha_block hs blk) = 8"
  by (simp add: sha_block_def Let_def)

lemma sha_blocks_length: "length hs = 8 \<Longrightarrow> length (foldl sha_block hs blks) = 8"
  by (induction blks arbitrary: hs) (simp_all add: sha_block_length)

lemma sha256_length [simp]: "length (sha256_Sum256 m) = 32"
proof -
  have eight: "length (foldl sha_block sha_H0 bs) = 8" for bs
    by (simp add: sha_blocks_length)
  have "length (concat (map word_be ws)) = 4 * length ws" for ws
    by (induction ws) (simp_all add: word_be_def)
  with eight show ?thesis by (simp add: sha256_Sum256_def Let_def)
qed

text \<open>The example of the standard: the digest of the three letters abc.\<close>

lemma sha256_abc:
  "sha256_Sum256 [97, 98, 99] =
    [186, 120, 22, 191, 143, 1, 207, 234, 65, 65, 64, 222, 93, 174, 34, 35,
     176, 3, 97, 163, 150, 23, 122, 156, 180, 16, 255, 97, 242, 0, 21, 173]"
  by code_simp

end
