(* ===== verification/Utils.thy ===== *)
theory Utils
  imports Go_Strings Sha256
begin

text \<open>
  The package \<^verbatim>\<open>pkg/utils\<close>: hashing and keys (\<^verbatim>\<open>crypto.go\<close>), the string helpers and the
  difficulty target (\<^verbatim>\<open>general.go\<close>), the coloured names used in log lines (\<^verbatim>\<open>logging.go\<close>).

  The digest is an argument \<open>H\<close> of every function that hashes. The locale \<open>digest32\<close> is
  what the program relies on, that digests are 32 bytes long, and \<open>sha256_Sum256\<close> is shown
  to provide it. Elliptic-curve signatures and key encodings are a record of functions, \<open>ecdsa\<close>.
\<close>

section \<open>crypto.go\<close>

datatype 'pk pkix = PkixError | PkixNotEcdsa | PkixEcdsa 'pk

record ('pk, 'sk) ecdsa =
  ParsePKIXPublicKey :: "byte list \<Rightarrow> 'pk pkix"
  ParseECPrivateKey :: "byte list \<Rightarrow> 'sk option"
  MarshalPKIXPublicKey :: "'pk \<Rightarrow> byte list option"
  MarshalECPrivateKey :: "'sk \<Rightarrow> byte list option"
  PublicOf :: "'sk \<Rightarrow> 'pk"
  GenerateKey :: "nat \<Rightarrow> 'sk option"
  SignASN1 :: "nat \<Rightarrow> 'sk \<Rightarrow> byte list \<Rightarrow> byte list option"
  VerifyASN1 :: "'pk \<Rightarrow> byte list \<Rightarrow> byte list \<Rightarrow> bool"

text \<open>\<open>GenerateKey\<close> and \<open>SignASN1\<close> take the draw they make from \<^verbatim>\<open>rand.Reader\<close>; \<open>None\<close> is
  their error.\<close>

definition utils_Hash :: "(byte list \<Rightarrow> byte list) \<Rightarrow> byte list \<Rightarrow> string" where
  "utils_Hash H v = hex_EncodeToString (H v)"

text \<open>On an error the signature bytes are nil and encode to the empty string.\<close>

definition utils_Sign :: "('pk, 'sk) ecdsa \<Rightarrow> nat \<Rightarrow> 'sk \<Rightarrow> byte list \<Rightarrow> string \<times> bool" where
  "utils_Sign ec r sk h =
     (case SignASN1 ec r sk h of None \<Rightarrow> (hex_EncodeToString [], True) | Some sigB \<Rightarrow> (hex_EncodeToString sigB, False))"

text \<open>The type assertion \<^verbatim>\<open>pk.(*ecdsa.PublicKey)\<close> panics on a well-formed key of another kind.\<close>

definition Byt2PK :: "('pk, 'sk) ecdsa \<Rightarrow> byte list \<Rightarrow> 'pk option go" where
  "Byt2PK ec pkB =
     (case ParsePKIXPublicKey ec pkB of
        PkixError \<Rightarrow> Inr None
      | PkixNotEcdsa \<Rightarrow> Inl TypeAssertion
      | PkixEcdsa pk \<Rightarrow> Inr (Some pk))"

definition Byt2SK :: "('pk, 'sk) ecdsa \<Rightarrow> byte list \<Rightarrow> 'sk option" where
  "Byt2SK ec skB = ParseECPrivateKey ec skB"

section \<open>general.go\<close>

text \<open>The in-place reversal: iterations \<open>i\<close> to \<open>n div 2\<close> of the loop.\<close>

fun RevStrArr_loop :: "'a list \<Rightarrow> nat \<Rightarrow> nat \<Rightarrow> 'a list" where
  "RevStrArr_loop a i 0 = a"
| "RevStrArr_loop a i (Suc k) =
     (let last = length a - 1 in RevStrArr_loop (a[i := a ! (last - i), last - i := a ! i]) (Suc i) k)"

definition RevStrArr :: "'a list \<Rightarrow> 'a list" where
  "RevStrArr a = RevStrArr_loop a 0 (length a div 2)"

definition CalcPOWD :: "int \<Rightarrow> string" where
  "CalcPOWD powdNumZeros =
     (let z = (if powdNumZeros \<le> -1 \<or> powdNumZeros \<ge> 30 then 3 else powdNumZeros)
      in map (\<lambda>i. if int i \<noteq> z then CHR ''0'' else CHR ''1'') [0..<64])"

fun InSlice :: "string list \<Rightarrow> string \<Rightarrow> bool" where
  "InSlice [] val = False"
| "InSlice (v # a) val = (if v = val then True else InSlice a val)"

section \<open>logging.go\<close>

definition show_int :: "int \<Rightarrow> string" where
  "show_int i = (if i < 0 then CHR ''-'' # show_nat (nat (- i)) else show_nat (nat i))"

abbreviation esc :: char where
  "esc \<equiv> CHR 0x1B"

text \<open>
  \<^verbatim>\<open>strconv.ParseInt(s, base, 64)\<close> with its error dropped: 0 on a syntax error, the nearest
  64-bit value on a range error. The loop is that of \<^verbatim>\<open>ParseUint\<close>: it stops at the first
  invalid digit or at the first value that does not fit 64 bits.
\<close>

fun ParseUint_loop :: "(char \<Rightarrow> nat option) \<Rightarrow> int \<Rightarrow> int \<Rightarrow> string \<Rightarrow> int option" where
  "ParseUint_loop dv base n [] = Some n"
| "ParseUint_loop dv base n (c # cs) =
     (case dv c of
        None \<Rightarrow> None
      | Some d \<Rightarrow> (let n1 = n * base + int d in
           if n1 > 2 ^ 64 - 1 then Some (2 ^ 64 - 1) else ParseUint_loop dv base n1 cs))"

definition ParseInt :: "(char \<Rightarrow> nat option) \<Rightarrow> int \<Rightarrow> string \<Rightarrow> int" where
  "ParseInt dv base s =
     (let (neg, ds) = (case s of [] \<Rightarrow> (False, [])
                        | c # cs \<Rightarrow> if c = CHR ''-'' then (True, cs) else if c = CHR ''+'' then (False, cs) else (False, s))
      in case (if ds = [] then None else ParseUint_loop dv base 0 ds) of
           None \<Rightarrow> 0
         | Some n \<Rightarrow> if neg then (if n > 2 ^ 63 then - (2 ^ 63) else - n) else min n (2 ^ 63 - 1))"

definition FmtAddr :: "string \<Rightarrow> string go" where
  "FmtAddr addr =
     (if addr = [] then Inr []
      else let parts = strings_Split (CHR '':'') addr in
        if length parts \<le> 1 then Inl IndexOutOfRange
        else let port = ParseInt digit_val 10 (parts ! 1);
                 colors = map (\<lambda>k. esc # ''[4'' @ [k] @ ''m'') ''1234567'';
                 ix = (if port < 0 then - ((- port) mod 7) else port mod 7)
          in if ix < 0 then Inl IndexOutOfRange
             else Inr (colors ! nat ix @ [esc] @ ''[97m['' @ addr @ '']'' @ [esc] @ ''[0m''))"

text \<open>Go's \<^verbatim>\<open>%\<close> truncates towards zero, so the remainder takes the sign of the seed.\<close>

definition Colorize :: "string \<Rightarrow> int \<Rightarrow> string" where
  "Colorize s seed =
     (let r = (if seed < 0 then - ((- seed) mod (226 - 104)) else seed mod (226 - 104))
      in [esc] @ ''[38;5;'' @ show_int (r + 104) @ ''m'' @ s @ [esc] @ ''[0m'')"

text \<open>
  The loggers: where each writes, its prefix and its flags (\<^verbatim>\<open>log.Ltime\<close> is 2 and \<^verbatim>\<open>log.Lshortfile\<close> is 16). The arguments of a log line are computed
  wherever it goes.
\<close>

datatype log_dest = Discard | Stdout | Stderr

record Logger =
  log_dest :: log_dest
  log_prefix :: string
  log_flags :: nat

record Loggers =
  lg_Debug :: Logger
  lg_Out :: Logger
  lg_Err :: Logger

definition init_loggers :: Loggers where
  "init_loggers = \<lparr>lg_Debug = \<lparr>log_dest = Discard, log_prefix = ''DEBUG: '', log_flags = 0\<rparr>,
     lg_Out = \<lparr>log_dest = Stdout, log_prefix = ''INFO: '', log_flags = 2 + 16\<rparr>, lg_Err = \<lparr>log_dest = Stderr, log_prefix = ''ERROR: '', log_flags = 2 + 16\<rparr>\<rparr>"

definition SetDebug :: "bool \<Rightarrow> Loggers \<Rightarrow> Loggers" where
  "SetDebug enabled l = l\<lparr>lg_Debug := (lg_Debug l)\<lparr>log_dest := (if enabled then Stdout else Discard)\<rparr>\<rparr>"

section \<open>Digests\<close>

locale digest32 =
  fixes H :: "byte list \<Rightarrow> byte list"
  assumes digest_length: "length (H v) = 32"
begin

lemma Hash_length: "length (utils_Hash H v) = 64"
  by (simp add: utils_Hash_def digest_length)

lemma Hash_decodes: "hex_DecodeString (utils_Hash H v) = (H v, None)"
  by (simp add: utils_Hash_def)

lemma Hash_ne: "utils_Hash H v \<noteq> []"
  using Hash_length [of v] by auto

end

interpretation sha: digest32 sha256_Sum256
  by unfold_locales simp

lemma utils_Hash_inj: "utils_Hash H v = utils_Hash H w \<longleftrightarrow> H v = H w"
  by (simp add: utils_Hash_def hex_Encode_inj)

lemma utils_Hash_no_char: "of_char c \<notin> {48..57::nat} \<union> {97..102} \<Longrightarrow> c \<notin> set (utils_Hash H v)"
  by (simp add: utils_Hash_def hex_Encode_no_char)

lemma utils_Hash_decode [simp]: "hex_DecodeString (utils_Hash H v) = (H v, None)"
  by (simp add: utils_Hash_def)

section \<open>Properties\<close>

lemma RevStrArr_loop_nth:
  assumes "i + k \<le> length a div 2" "x < length a"
  shows "RevStrArr_loop a i k ! x =
    (if (i \<le> x \<and> x < i + k) \<or> (i \<le> length a - 1 - x \<and> length a - 1 - x < i + k)
     then a ! (length a - 1 - x) else a ! x)"
  using assms
proof (induction k arbitrary: a i)
  case (Suc k)
  let ?l = "length a - 1"
  let ?a = "a[i := a ! (?l - i), ?l - i := a ! i]"
  have len: "length ?a = length a" by simp
  have bnd: "i < length a" "?l - i < length a" "i < ?l - i" using Suc.prems by auto
  have far: "\<not> ?l - i < Suc (i + k)" using Suc.prems by linarith
  have nth: "?a ! y = (if y = ?l - i then a ! i else if y = i then a ! (?l - i) else a ! y)"
    if "y < length a" for y
    using bnd that by (simp add: nth_list_update)
  have "RevStrArr_loop ?a (Suc i) k ! x =
    (if (Suc i \<le> x \<and> x < Suc i + k) \<or> (Suc i \<le> ?l - x \<and> ?l - x < Suc i + k)
     then ?a ! (?l - x) else ?a ! x)"
    using Suc.IH [of "Suc i" ?a] Suc.prems len by simp
  also have "\<dots> = (if (i \<le> x \<and> x < i + Suc k) \<or> (i \<le> ?l - x \<and> ?l - x < i + Suc k)
     then a ! (?l - x) else a ! x)"
  proof -
    consider "x = i" | "x = ?l - i" | "x \<noteq> i" "x \<noteq> ?l - i" by blast
    then show ?thesis
    proof cases
      case 3
      then have "?l - x \<noteq> i" "?l - x \<noteq> ?l - i" using bnd Suc.prems by auto
      moreover have "?a ! x = a ! x" "?a ! (?l - x) = a ! (?l - x)"
        using 3 calculation nth [of x] nth [of "?l - x"] Suc.prems by auto
      ultimately show ?thesis using 3 by (simp add: Suc_le_eq less_le)
    qed (use bnd far nth [of x] in simp_all)
  qed
  finally show ?case by (simp add: Let_def)
qed auto

lemma RevStrArr_loop_length [simp]: "length (RevStrArr_loop a i k) = length a"
  by (induction k arbitrary: a i) (simp_all add: Let_def)

text \<open>The swap loop computes the reversal of the slice.\<close>

theorem RevStrArr_rev: "RevStrArr a = rev a"
proof (rule nth_equalityI)
  fix x assume "x < length (RevStrArr a)"
  then have x: "x < length a" by (simp add: RevStrArr_def)
  have "x = length a - 1 - x \<or> x < length a div 2 \<or> length a - 1 - x < length a div 2"
    using x by linarith
  with x show "RevStrArr a ! x = rev a ! x"
    by (auto simp: RevStrArr_def RevStrArr_loop_nth rev_nth)
qed (simp add: RevStrArr_def)

theorem InSlice_iff: "InSlice a v \<longleftrightarrow> v \<in> set a"
  by (induction a) auto

lemma CalcPOWD_length [simp]: "length (CalcPOWD z) = 64"
  by (simp add: CalcPOWD_def Let_def)

end
