(* ===== verification/Id.thy ===== *)
theory Id
  imports Utils
begin

text \<open>
  The package \<^verbatim>\<open>pkg/id\<close>: the key pair of a node (\<^verbatim>\<open>simpleid.go\<close>, \<^verbatim>\<open>id.go\<close>,
  \<^verbatim>\<open>config.go\<close>). Keys are pointers and may be nil, since \<open>LoadInSmplID\<close> drops the errors of
  the parsers it calls.
\<close>

record ('pk, 'sk) SimpleID =
  PrivateKey :: "'sk option"
  PrivateKeyBytes :: "byte list"
  PublicKey :: "'pk option"
  PublicKeyBytes :: "byte list"

datatype id_Config = IdConfig

definition id_DefaultConfig :: id_Config where
  "id_DefaultConfig = IdConfig"

definition LoadInSmplID :: "('pk, 'sk) ecdsa \<Rightarrow> string \<Rightarrow> string \<Rightarrow> ('pk, 'sk) SimpleID go" where
  "LoadInSmplID ec pubK privK =
     (let pkB = fst (hex_DecodeString pubK); skB = fst (hex_DecodeString privK)
      in go_bind (Byt2PK ec pkB) (\<lambda>pk.
           let pVk = Byt2SK ec skB
           in Inr \<lparr>PrivateKey = pVk, PrivateKeyBytes = pkB, PublicKey = pk, PublicKeyBytes = pkB\<rparr>))"

definition PrivateKeyToBytes :: "('pk, 'sk) ecdsa \<Rightarrow> 'sk \<Rightarrow> byte list option" where
  "PrivateKeyToBytes ec key = MarshalECPrivateKey ec key"

definition PublicKeyToBytes :: "('pk, 'sk) ecdsa \<Rightarrow> 'pk \<Rightarrow> byte list option" where
  "PublicKeyToBytes ec key = MarshalPKIXPublicKey ec key"

text \<open>\<open>None\<close> is the error result: no key could be generated or encoded.\<close>

definition CreateSimpleID :: "('pk, 'sk) ecdsa \<Rightarrow> nat \<Rightarrow> ('pk, 'sk) SimpleID option" where
  "CreateSimpleID ec r =
     (case GenerateKey ec r of
        None \<Rightarrow> None
      | Some privKey \<Rightarrow>
          (let privateKeyBytes = PrivateKeyToBytes ec privKey;
               publicKeyBytes = PublicKeyToBytes ec (PublicOf ec privKey)
           in case privateKeyBytes of
                None \<Rightarrow> None
              | Some skB \<Rightarrow>
                  (case publicKeyBytes of
                     None \<Rightarrow> None
                   | Some pkB \<Rightarrow>
                       Some \<lparr>PrivateKey = Some privKey, PrivateKeyBytes = skB,
                             PublicKey = Some (PublicOf ec privKey), PublicKeyBytes = pkB\<rparr>)))"

definition id_New :: "('pk, 'sk) ecdsa \<Rightarrow> nat \<Rightarrow> id_Config \<Rightarrow> ('pk, 'sk) SimpleID option" where
  "id_New ec r conf = CreateSimpleID ec r"

definition GetPrivateKey :: "('pk, 'sk) SimpleID \<Rightarrow> 'sk option" where
  "GetPrivateKey i = PrivateKey i"
definition GetPrivateKeyBytes :: "('pk, 'sk) SimpleID \<Rightarrow> byte list" where
  "GetPrivateKeyBytes i = PrivateKeyBytes i"
definition GetPublicKey :: "('pk, 'sk) SimpleID \<Rightarrow> 'pk option" where
  "GetPublicKey i = PublicKey i"
definition GetPublicKeyBytes :: "('pk, 'sk) SimpleID \<Rightarrow> byte list" where
  "GetPublicKeyBytes i = PublicKeyBytes i"

definition BytesToPublicKey :: "('pk, 'sk) ecdsa \<Rightarrow> byte list \<Rightarrow> 'pk option go" where
  "BytesToPublicKey ec bytes =
     (case ParsePKIXPublicKey ec bytes of
        PkixError \<Rightarrow> Inr None
      | PkixNotEcdsa \<Rightarrow> Inl TypeAssertion
      | PkixEcdsa pk \<Rightarrow> Inr (Some pk))"

definition BytesToPrivateKey :: "('pk, 'sk) ecdsa \<Rightarrow> byte list \<Rightarrow> 'sk option" where
  "BytesToPrivateKey ec bytes = ParseECPrivateKey ec bytes"

lemma BytesToPublicKey_eq: "BytesToPublicKey ec = Byt2PK ec"
  by (rule ext) (simp add: BytesToPublicKey_def Byt2PK_def)

text \<open>
  What the program relies on of the key encodings: parsing what was encoded gives the key back.
  The contract is that of \<^verbatim>\<open>crypto/x509\<close>.
\<close>

definition key_codec :: "('pk, 'sk) ecdsa \<Rightarrow> bool" where
  "key_codec ec \<longleftrightarrow>
     (\<forall>pk b. MarshalPKIXPublicKey ec pk = Some b \<longrightarrow> ParsePKIXPublicKey ec b = PkixEcdsa pk) \<and>
     (\<forall>sk b. MarshalECPrivateKey ec sk = Some b \<longrightarrow> ParseECPrivateKey ec b = Some sk)"

lemma CreateSimpleID_keys:
  assumes "key_codec ec" "CreateSimpleID ec r = Some i"
  shows "BytesToPublicKey ec (GetPublicKeyBytes i) = Inr (GetPublicKey i)"
    and "BytesToPrivateKey ec (GetPrivateKeyBytes i) = GetPrivateKey i"
    and "\<exists>sk. GetPrivateKey i = Some sk \<and> GetPublicKey i = Some (PublicOf ec sk)"
  using assms
  by (auto simp: CreateSimpleID_def key_codec_def PrivateKeyToBytes_def PublicKeyToBytes_def
      BytesToPublicKey_def BytesToPrivateKey_def GetPublicKeyBytes_def GetPrivateKeyBytes_def
      GetPublicKey_def GetPrivateKey_def split: option.splits)

end
