(* ===== verification/Tx.thy ===== *)
theory Tx
  imports Proto Id
begin

text \<open>
  The package \<^verbatim>\<open>pkg/block/tx\<close> with its subpackages \<^verbatim>\<open>txi\<close> and \<^verbatim>\<open>txo\<close>: transaction
  inputs, outputs and transactions, their wire form, amounts, sizes, hashes and locators, and
  the check of an unlocking script.

  Slices are lists; every transaction of the program comes out of \<open>Transaction_Deserialize\<close>,
  which allocates its slices, so the model has no nil slice inside a transaction.
\<close>

section \<open>Data\<close>

record TransactionInput =
  txi_TransactionHash :: string
  txi_OutputIndex :: u32
  txi_UnlockingScript :: string
  txi_Amount :: u32

record TransactionOutput =
  txo_Amount :: u32
  txo_LockingScript :: string
  txo_Liminal :: bool

record Transaction =
  tx_Version :: u32
  tx_Inputs :: "TransactionInput list"
  tx_Outputs :: "TransactionOutput list"
  tx_LockTime :: u32

abbreviation slash :: string where
  "slash \<equiv> ''/''"

section \<open>txi.go\<close>

definition TransactionInput_Serialize :: "TransactionInput \<Rightarrow> proto_TransactionInput" where
  "TransactionInput_Serialize txi =
     \<lparr>pti_TransactionHash = txi_TransactionHash txi, pti_OutputIndex = txi_OutputIndex txi,
      pti_UnlockingScript = txi_UnlockingScript txi, pti_Amount = txi_Amount txi\<rparr>"

definition TransactionInput_Deserialize :: "proto_TransactionInput \<Rightarrow> TransactionInput" where
  "TransactionInput_Deserialize inp =
     \<lparr>txi_TransactionHash = pti_TransactionHash inp, txi_OutputIndex = pti_OutputIndex inp,
      txi_UnlockingScript = pti_UnlockingScript inp, txi_Amount = pti_Amount inp\<rparr>"

definition TransactionInput_data :: "TransactionInput \<Rightarrow> string" where
  "TransactionInput_data txi =
     txi_TransactionHash txi @ slash @ show_u32 (txi_OutputIndex txi) @ slash
       @ txi_UnlockingScript txi @ slash @ show_u32 (txi_Amount txi)"

definition TransactionInput_Hash :: "(byte list \<Rightarrow> byte list) \<Rightarrow> TransactionInput \<Rightarrow> string" where
  "TransactionInput_Hash H txi = utils_Hash H (bytes_of_string (TransactionInput_data txi))"

section \<open>txo.go\<close>

definition TransactionOutput_Serialize :: "TransactionOutput \<Rightarrow> proto_TransactionOutput" where
  "TransactionOutput_Serialize o' =
     \<lparr>pto_Amount = txo_Amount o', pto_LockingScript = txo_LockingScript o'\<rparr>"

definition TransactionOutput_Deserialize :: "proto_TransactionOutput \<Rightarrow> TransactionOutput" where
  "TransactionOutput_Deserialize ptx =
     \<lparr>txo_Amount = pto_Amount ptx, txo_LockingScript = pto_LockingScript ptx, txo_Liminal = False\<rparr>"

definition TransactionOutput_data :: "TransactionOutput \<Rightarrow> string" where
  "TransactionOutput_data o' = show_u32 (txo_Amount o') @ slash @ txo_LockingScript o'"

definition TransactionOutput_Hash :: "(byte list \<Rightarrow> byte list) \<Rightarrow> TransactionOutput \<Rightarrow> string" where
  "TransactionOutput_Hash H o' = utils_Hash H (bytes_of_string (TransactionOutput_data o'))"

definition IsUnlckd ::
    "('pk, 'sk) ecdsa \<Rightarrow> (byte list \<Rightarrow> byte list) \<Rightarrow> TransactionOutput \<Rightarrow> string \<Rightarrow> bool go" where
  "IsUnlckd ec H o' sig =
     (case hex_DecodeString (txo_LockingScript o') of
        (_, Some _) \<Rightarrow> Inr False
      | (pkb, None) \<Rightarrow>
          go_bind (Byt2PK ec pkb) (\<lambda>pko. case pko of
            None \<Rightarrow> Inr False
          | Some pk \<Rightarrow>
              (case hex_DecodeString (TransactionOutput_Hash H o') of
                 (_, Some _) \<Rightarrow> Inr False
               | (h, None) \<Rightarrow>
                   (case hex_DecodeString sig of
                      (_, Some _) \<Rightarrow> Inr False
                    | (sigB, None) \<Rightarrow> Inr (VerifyASN1 ec pk h sigB)))))"

definition PrsTXOLoc :: "string \<Rightarrow> (string \<times> u32) go" where
  "PrsTXOLoc l =
     (let d = strings_Split (CHR ''-'') l
      in if length d \<le> 1 then Inl IndexOutOfRange
         else case ParseUint32 (d ! 1) of
                None \<Rightarrow> Inr ([], 0)
              | Some i \<Rightarrow> Inr (d ! 0, i))"

definition MkTXOLoc :: "string \<Rightarrow> u32 \<Rightarrow> string" where
  "MkTXOLoc h i = h @ ''-'' @ show_u32 i"

text \<open>
  The signature of the output's hash under the private key of the id, with the draw \<open>r\<close> from
  the random source. Both errors are reported as an empty signature without an error;
  signing with a nil key dereferences it.
\<close>

definition MkSig ::
    "('pk, 'sk) ecdsa \<Rightarrow> (byte list \<Rightarrow> byte list) \<Rightarrow> nat \<Rightarrow> TransactionOutput \<Rightarrow> ('pk, 'sk) SimpleID \<Rightarrow> string go" where
  "MkSig ec H r o' i =
     (case hex_DecodeString (TransactionOutput_Hash H o') of
        (_, Some _) \<Rightarrow> Inr []
      | (hB, None) \<Rightarrow>
          (case GetPrivateKey i of
             None \<Rightarrow> Inl NilDeref
           | Some sk \<Rightarrow> (case utils_Sign ec r sk hB of (sig, err) \<Rightarrow> if err then Inr [] else Inr sig)))"

section \<open>tx.go\<close>

definition Transaction_Deserialize :: "proto_Transaction \<Rightarrow> Transaction" where
  "Transaction_Deserialize ptx =
     \<lparr>tx_Version = ptx_Version ptx,
      tx_Inputs = map (\<lambda>i. \<lparr>txi_TransactionHash = pti_TransactionHash i, txi_OutputIndex = pti_OutputIndex i,
                           txi_UnlockingScript = pti_UnlockingScript i, txi_Amount = pti_Amount i\<rparr>) (ptx_Inputs ptx),
      tx_Outputs = map (\<lambda>o'. \<lparr>txo_Amount = pto_Amount o', txo_LockingScript = pto_LockingScript o',
                             txo_Liminal = False\<rparr>) (ptx_Outputs ptx),
      tx_LockTime = ptx_LockTime ptx\<rparr>"

definition Transaction_Serialize :: "Transaction \<Rightarrow> proto_Transaction" where
  "Transaction_Serialize t =
     \<lparr>ptx_Version = tx_Version t,
      ptx_Inputs = map TransactionInput_Serialize (tx_Inputs t),
      ptx_Outputs = map TransactionOutput_Serialize (tx_Outputs t),
      ptx_LockTime = tx_LockTime t\<rparr>"

definition Transaction_Sz :: "Transaction \<Rightarrow> u32" where
  "Transaction_Sz t = SzOfTx (Transaction_Serialize t)"

definition SumInputs :: "Transaction \<Rightarrow> u32" where
  "SumInputs t = foldl (\<lambda>r v. r + txi_Amount v) 0 (tx_Inputs t)"

definition SumOutputs :: "Transaction \<Rightarrow> u32" where
  "SumOutputs t = foldl (\<lambda>r v. r + txo_Amount v) 0 (tx_Outputs t)"

definition Transaction_data :: "(byte list \<Rightarrow> byte list) \<Rightarrow> Transaction \<Rightarrow> string" where
  "Transaction_data H t =
     (let pureInputs = map (TransactionInput_Hash H) (tx_Inputs t);
          pureOutputs = map (TransactionOutput_Hash H) (tx_Outputs t)
      in show_u32 (tx_Version t) @ slash @ show_u32 (tx_LockTime t) @ slash
           @ strings_Join pureInputs slash @ slash @ strings_Join pureOutputs slash)"

definition Transaction_Hash :: "(byte list \<Rightarrow> byte list) \<Rightarrow> Transaction \<Rightarrow> string" where
  "Transaction_Hash H t = utils_Hash H (bytes_of_string (Transaction_data H t))"

definition IsCoinbase :: "Transaction \<Rightarrow> bool" where
  "IsCoinbase t \<longleftrightarrow> length (tx_Inputs t) = 0"

text \<open>The first ten hex digits of the hash choose a colour, the first six name the transaction.\<close>

definition Transaction_NameTag :: "(byte list \<Rightarrow> byte list) \<Rightarrow> Transaction \<Rightarrow> string go" where
  "Transaction_NameTag H t =
     (let h = Transaction_Hash H t
      in if length h < 10 then Inl IndexOutOfRange
         else Inr (Colorize (''tx-'' @ take 6 h) (ParseInt fromHexChar 16 (take 10 h))))"

lemmas tx_wire_defs [wire_defs] = TransactionInput_Serialize_def TransactionInput_Deserialize_def
  TransactionOutput_Serialize_def TransactionOutput_Deserialize_def
  Transaction_Deserialize_def Transaction_Serialize_def

section \<open>Amounts\<close>

lemma SumInputs_sum: "SumInputs t = sum_list (map txi_Amount (tx_Inputs t))"
  by (simp add: SumInputs_def foldl_add_sum_list)

lemma SumOutputs_sum: "SumOutputs t = sum_list (map txo_Amount (tx_Outputs t))"
  by (simp add: SumOutputs_def foldl_add_sum_list)

lemma unat_SumInputs: "unat (SumInputs t) = sum_list (map (unat \<circ> txi_Amount) (tx_Inputs t)) mod 2 ^ 32"
  by (simp add: SumInputs_sum unat_sum_list_u32 del: sum_list_map_eq_sum_count)

lemma unat_SumOutputs: "unat (SumOutputs t) = sum_list (map (unat \<circ> txo_Amount) (tx_Outputs t)) mod 2 ^ 32"
  by (simp add: SumOutputs_sum unat_sum_list_u32 del: sum_list_map_eq_sum_count)

lemma IsCoinbase_SumInputs: "IsCoinbase t \<Longrightarrow> SumInputs t = 0"
  by (simp add: IsCoinbase_def SumInputs_def)

section \<open>Wire form\<close>

text \<open>A transaction with its liminal marks cleared: all that the wire form and the hash keep.\<close>

definition clear_liminal :: "Transaction \<Rightarrow> Transaction" where
  "clear_liminal t = t\<lparr>tx_Outputs := map (\<lambda>o'. o'\<lparr>txo_Liminal := False\<rparr>) (tx_Outputs t)\<rparr>"

lemma TransactionInput_roundtrip [simp]:
  "TransactionInput_Deserialize (TransactionInput_Serialize i) = i"
  "TransactionInput_Serialize (TransactionInput_Deserialize p) = p"
  by (simp_all add: wire_defs)

lemma TransactionOutput_roundtrip [simp]:
  "TransactionOutput_Deserialize (TransactionOutput_Serialize o') = o'\<lparr>txo_Liminal := False\<rparr>"
  "TransactionOutput_Serialize (TransactionOutput_Deserialize p) = p"
  by (simp_all add: wire_defs)

lemma Transaction_Deserialize_maps:
  "Transaction_Deserialize p =
     \<lparr>tx_Version = ptx_Version p, tx_Inputs = map TransactionInput_Deserialize (ptx_Inputs p),
      tx_Outputs = map TransactionOutput_Deserialize (ptx_Outputs p), tx_LockTime = ptx_LockTime p\<rparr>"
  by (simp add: Transaction_Deserialize_def TransactionInput_Deserialize_def [abs_def]
      TransactionOutput_Deserialize_def [abs_def])

lemma Transaction_Serialize_Deserialize: "Transaction_Serialize (Transaction_Deserialize p) = p"
  by (simp add: Transaction_Serialize_def Transaction_Deserialize_maps comp_def)

lemma Transaction_Deserialize_Serialize: "Transaction_Deserialize (Transaction_Serialize t) = clear_liminal t"
  by (simp add: Transaction_Serialize_def Transaction_Deserialize_maps clear_liminal_def comp_def)

lemma TransactionOutput_Hash_liminal [simp]: "TransactionOutput_Hash H (o'\<lparr>txo_Liminal := l\<rparr>) = TransactionOutput_Hash H o'"
  by (simp add: TransactionOutput_Hash_def TransactionOutput_data_def)

lemma Transaction_Hash_clear_liminal [simp]: "Transaction_Hash H (clear_liminal t) = Transaction_Hash H t"
  by (simp add: Transaction_Hash_def Transaction_data_def clear_liminal_def comp_def)

lemma Transaction_Hash_wire: "Transaction_Hash H (Transaction_Deserialize (Transaction_Serialize t)) = Transaction_Hash H t"
  by (simp add: Transaction_Deserialize_Serialize)

lemma Transaction_Serialize_inj: "Transaction_Serialize s = Transaction_Serialize t \<longleftrightarrow> clear_liminal s = clear_liminal t"
  by (metis Transaction_Deserialize_Serialize Transaction_Serialize_Deserialize)

lemma Transaction_Sz_eq: "Transaction_Sz t = of_nat (40 * length (tx_Inputs t) + 20 * length (tx_Outputs t) + 8)"
  by (simp add: Transaction_Sz_def SzOfTx_eq Transaction_Serialize_def)

lemma unat_Transaction_Sz:
  assumes "40 * length (tx_Inputs t) + 20 * length (tx_Outputs t) + 8 < 2 ^ 32"
  shows "unat (Transaction_Sz t) = 40 * length (tx_Inputs t) + 20 * length (tx_Outputs t) + 8"
  unfolding Transaction_Sz_eq by (rule unat_of_nat_u32 [OF assms])

section \<open>Locators\<close>

lemma minus_not_digit: "CHR ''-'' \<notin> set (show_u32 i)"
  by (rule show_u32_no_char) simp

lemma minus_not_hash: "CHR ''-'' \<notin> set (Transaction_Hash H t)"
  unfolding Transaction_Hash_def by (rule utils_Hash_no_char) simp

lemma MkTXOLoc_inj [simp]: "MkTXOLoc h i = MkTXOLoc k j \<longleftrightarrow> h = k \<and> i = j"
proof
  assume "MkTXOLoc h i = MkTXOLoc k j"
  then have "h = k \<and> show_u32 i = show_u32 j"
    using append_last_sep_inj [of "CHR ''-''" "show_u32 i" "show_u32 j" h k] minus_not_digit
    by (simp add: MkTXOLoc_def)
  then show "h = k \<and> i = j" by simp
qed simp

lemma PrsTXOLoc_MkTXOLoc: "CHR ''-'' \<notin> set h \<Longrightarrow> PrsTXOLoc (MkTXOLoc h i) = Inr (h, i)"
  by (simp add: PrsTXOLoc_def MkTXOLoc_def strings_Split_append strings_Split_none minus_not_digit)

text \<open>
  A locator identifies one output. The locator of an output of any transaction parses back
  to that transaction's hash and that index, and two locators are equal only for the same hash
  and the same index, whatever the hash strings are.
\<close>

theorem locator_roundtrip:
  "PrsTXOLoc (MkTXOLoc (Transaction_Hash H t) i) = Inr (Transaction_Hash H t, i) \<and>
   (MkTXOLoc h i = MkTXOLoc k j \<longleftrightarrow> h = k \<and> i = j)"
  by (simp add: PrsTXOLoc_MkTXOLoc minus_not_hash)

text \<open>
  Wire round trip. Serialising what was deserialised gives the message back; deserialising
  what was serialised gives the transaction back with its liminal marks cleared, and with the
  same hash, so the identity of a transaction survives the network.
\<close>

theorem transaction_wire_roundtrip:
  "Transaction_Serialize (Transaction_Deserialize p) = p \<and>
   Transaction_Deserialize (Transaction_Serialize t) = clear_liminal t \<and>
   Transaction_Hash H (Transaction_Deserialize (Transaction_Serialize t)) = Transaction_Hash H t"
  by (simp add: Transaction_Serialize_Deserialize Transaction_Deserialize_Serialize)

section \<open>Hashes\<close>

lemma slash_not_hash: "CHR ''/'' \<notin> set (utils_Hash H v)"
  by (rule utils_Hash_no_char) simp

lemma slash_not_digit: "CHR ''/'' \<notin> set (show_u32 i)"
  by (rule show_u32_no_char) simp

lemma TransactionInput_data_inj:
  assumes "CHR ''/'' \<notin> set (txi_TransactionHash a)" "CHR ''/'' \<notin> set (txi_TransactionHash b)"
    and "TransactionInput_data a = TransactionInput_data b"
  shows "a = b"
proof -
  have 1: "txi_TransactionHash a = txi_TransactionHash b"
    and r1: "show_u32 (txi_OutputIndex a) @ CHR ''/'' # txi_UnlockingScript a @ CHR ''/'' # show_u32 (txi_Amount a)
      = show_u32 (txi_OutputIndex b) @ CHR ''/'' # txi_UnlockingScript b @ CHR ''/'' # show_u32 (txi_Amount b)"
    using append_sep_inj [OF assms(1,2)] assms(3) by (simp_all add: TransactionInput_data_def)
  have 2: "txi_OutputIndex a = txi_OutputIndex b"
    and r2: "txi_UnlockingScript a @ CHR ''/'' # show_u32 (txi_Amount a) = txi_UnlockingScript b @ CHR ''/'' # show_u32 (txi_Amount b)"
    using append_sep_inj [OF slash_not_digit slash_not_digit r1] by simp_all
  have 3: "txi_UnlockingScript a = txi_UnlockingScript b" "txi_Amount a = txi_Amount b"
    using append_last_sep_inj [OF slash_not_digit slash_not_digit r2] by simp_all
  from 1 2 3 show ?thesis by simp
qed

lemma TransactionOutput_data_inj:
  assumes "TransactionOutput_data a = TransactionOutput_data b"
  shows "a\<lparr>txo_Liminal := False\<rparr> = b\<lparr>txo_Liminal := False\<rparr>"
proof -
  have "show_u32 (txo_Amount a) = show_u32 (txo_Amount b) \<and> txo_LockingScript a = txo_LockingScript b"
    using append_sep_inj [OF slash_not_digit slash_not_digit] assms by (simp add: TransactionOutput_data_def)
  then show ?thesis by simp
qed

text \<open>What the hash of a transaction feeds to the digest.\<close>

definition tx_preimages :: "(byte list \<Rightarrow> byte list) \<Rightarrow> Transaction \<Rightarrow> byte list set" where
  "tx_preimages H t =
     insert (bytes_of_string (Transaction_data H t))
       ((\<lambda>i. bytes_of_string (TransactionInput_data i)) ` set (tx_Inputs t) \<union>
        (\<lambda>o'. bytes_of_string (TransactionOutput_data o')) ` set (tx_Outputs t))"

lemma Join_hashes_inj:
  assumes "\<forall>x \<in> set xs \<union> set ys. x \<noteq> [] \<and> CHR ''/'' \<notin> set x"
    and "strings_Join xs slash = strings_Join ys slash"
  shows "xs = ys"
proof (cases "xs = [] \<or> ys = []")
  case True
  have ne: "strings_Join zs slash \<noteq> []" if "zs \<noteq> []" "\<forall>z \<in> set zs. z \<noteq> []" for zs
    using that by (induction zs slash rule: strings_Join.induct) auto
  from True show ?thesis
  proof
    assume "xs = []"
    with assms ne [of ys] show ?thesis by fastforce
  next
    assume "ys = []"
    with assms ne [of xs] show ?thesis by fastforce
  qed
next
  case False
  then have "strings_Split (CHR ''/'') (strings_Join xs slash) = xs"
    "strings_Split (CHR ''/'') (strings_Join ys slash) = ys"
    using assms(1) by (auto intro: strings_Split_Join)
  with assms(2) show ?thesis by metis
qed

lemma Join_split_at:
  assumes "\<forall>x \<in> set xs \<union> set ys. x \<noteq> [] \<and> CHR ''/'' \<notin> set x" "length xs = length ys"
    and "strings_Join xs slash @ slash @ r = strings_Join ys slash @ slash @ s"
  shows "xs = ys \<and> r = s"
  using assms
proof (induction xs ys rule: list_induct2')
  case (4 x xs y ys)
  have xy: "CHR ''/'' \<notin> set x" "CHR ''/'' \<notin> set y" using "4.prems" by auto
  show ?case
  proof (cases "xs = []")
    case True
    with "4.prems" have "ys = []" by simp
    with True "4.prems"(3) have "x @ CHR ''/'' # r = y @ CHR ''/'' # s" by simp
    from append_sep_inj [OF xy this] True \<open>ys = []\<close> show ?thesis by simp
  next
    case False
    with "4.prems"(2) have ne: "ys \<noteq> []" by auto
    have join: "strings_Join (z # zs) slash = z @ CHR ''/'' # strings_Join zs slash" if "zs \<noteq> []" for z zs
      using that by (cases zs) auto
    have "x @ CHR ''/'' # (strings_Join xs slash @ slash @ r) = y @ CHR ''/'' # (strings_Join ys slash @ slash @ s)"
      using "4.prems"(3) join [OF False] join [OF ne] by simp
    from append_sep_inj [OF xy this]
    have "x = y" "strings_Join xs slash @ slash @ r = strings_Join ys slash @ slash @ s" by simp_all
    moreover from "4.prems"(1,2) have "\<forall>x \<in> set xs \<union> set ys. x \<noteq> [] \<and> CHR ''/'' \<notin> set x" "length xs = length ys"
      by auto
    ultimately show ?thesis using "4.IH" by simp
  qed
qed auto

lemma hashes_nonempty_no_slash:
  assumes "\<And>v. length (H v) = 32"
  shows "utils_Hash H v \<noteq> [] \<and> CHR ''/'' \<notin> set (utils_Hash H v)"
  using assms slash_not_hash by (metis length_0_conv length_hex_Encode mult_eq_0_iff utils_Hash_def zero_neq_numeral)

lemma map_inputs_eq:
  assumes inj: "inj_on H (f ` set xs \<union> f ` set ys)"
    and eq: "map (\<lambda>x. utils_Hash H (f x)) xs = map (\<lambda>x. utils_Hash H (f x)) ys"
  shows "map f xs = map f ys"
proof (rule nth_equalityI)
  show len: "length (map f xs) = length (map f ys)" using map_eq_imp_length_eq [OF eq] by simp
  fix n assume n: "n < length (map f xs)"
  have "utils_Hash H (f (xs ! n)) = utils_Hash H (f (ys ! n))"
    using arg_cong [OF eq, of "\<lambda>l. l ! n"] n len by simp
  then have "H (f (xs ! n)) = H (f (ys ! n))" by (simp add: utils_Hash_inj)
  moreover have "xs ! n \<in> set xs" "ys ! n \<in> set ys" using n len by simp_all
  then have "f (xs ! n) \<in> f ` set xs \<union> f ` set ys" "f (ys ! n) \<in> f ` set xs \<union> f ` set ys" by simp_all
  ultimately have "f (xs ! n) = f (ys ! n)" by (rule inj_onD [OF inj])
  then show "map f xs ! n = map f ys ! n" using n len by simp
qed

lemma map_data_inj:
  assumes "\<And>x y. x \<in> set xs \<Longrightarrow> y \<in> set ys \<Longrightarrow> f x = f y \<Longrightarrow> g x = g y" "map f xs = map f ys"
  shows "map g xs = map g ys"
proof (rule nth_equalityI)
  show "length (map g xs) = length (map g ys)" using map_eq_imp_length_eq [OF assms(2)] by simp
  fix n assume n: "n < length (map g xs)"
  then have n': "n < length xs" "n < length ys" using map_eq_imp_length_eq [OF assms(2)] by simp_all
  then have "f (xs ! n) = f (ys ! n)" using arg_cong [OF assms(2), of "\<lambda>l. l ! n"] by simp
  with n' assms(1) [of "xs ! n" "ys ! n"] show "map g xs ! n = map g ys ! n" by simp
qed

lemma Transaction_data_inj:
  assumes len: "\<And>v. length (H v) = 32"
    and inj: "inj_on H (tx_preimages H s \<union> tx_preimages H t)"
    and ins: "length (tx_Inputs s) = length (tx_Inputs t)"
    and noslash: "\<And>i. i \<in> set (tx_Inputs s) \<union> set (tx_Inputs t) \<Longrightarrow> CHR ''/'' \<notin> set (txi_TransactionHash i)"
    and eq: "Transaction_data H s = Transaction_data H t"
  shows "clear_liminal s = clear_liminal t"
proof -
  let ?I = "\<lambda>i. bytes_of_string (TransactionInput_data i)"
  let ?O = "\<lambda>o'. bytes_of_string (TransactionOutput_data o')"
  let ?is = "\<lambda>t. map (\<lambda>i. utils_Hash H (?I i)) (tx_Inputs t)"
  let ?os = "\<lambda>t. map (\<lambda>o'. utils_Hash H (?O o')) (tx_Outputs t)"
  have data: "Transaction_data H t = show_u32 (tx_Version t) @ CHR ''/'' # (show_u32 (tx_LockTime t) @ CHR ''/''
      # (strings_Join (?is t) slash @ slash @ strings_Join (?os t) slash))" for t
    by (simp add: Transaction_data_def TransactionInput_Hash_def [abs_def] TransactionOutput_Hash_def [abs_def])
  have ver: "tx_Version s = tx_Version t" and r1: "show_u32 (tx_LockTime s) @ CHR ''/''
      # (strings_Join (?is s) slash @ slash @ strings_Join (?os s) slash) = show_u32 (tx_LockTime t) @ CHR ''/''
      # (strings_Join (?is t) slash @ slash @ strings_Join (?os t) slash)"
    using append_sep_inj [OF slash_not_digit slash_not_digit eq [unfolded data]] by simp_all
  have lock: "tx_LockTime s = tx_LockTime t" and r2: "strings_Join (?is s) slash @ slash @ strings_Join (?os s) slash
      = strings_Join (?is t) slash @ slash @ strings_Join (?os t) slash"
    using append_sep_inj [OF slash_not_digit slash_not_digit r1] by simp_all
  have ok: "\<forall>x \<in> set (?is s) \<union> set (?is t). x \<noteq> [] \<and> CHR ''/'' \<notin> set x"
    "\<forall>x \<in> set (?os s) \<union> set (?os t). x \<noteq> [] \<and> CHR ''/'' \<notin> set x"
    using hashes_nonempty_no_slash [OF len] by auto
  have his: "?is s = ?is t" and r3: "strings_Join (?os s) slash = strings_Join (?os t) slash"
    using Join_split_at [OF ok(1) _ r2] ins by simp_all
  from his have "map ?I (tx_Inputs s) = map ?I (tx_Inputs t)"
    by (rule map_inputs_eq [rotated]) (rule inj_on_subset [OF inj], auto simp: tx_preimages_def)
  then have inputs: "map (\<lambda>i. i) (tx_Inputs s) = map (\<lambda>i. i) (tx_Inputs t)"
    by (rule map_data_inj [rotated])
      (rule TransactionInput_data_inj, auto simp: bytes_of_string_inj noslash)
  have "?os s = ?os t" by (rule Join_hashes_inj [OF ok(2) r3])
  then have "map ?O (tx_Outputs s) = map ?O (tx_Outputs t)"
    by (rule map_inputs_eq [rotated]) (rule inj_on_subset [OF inj], auto simp: tx_preimages_def)
  then have outputs: "map (\<lambda>o'. o'\<lparr>txo_Liminal := False\<rparr>) (tx_Outputs s) = map (\<lambda>o'. o'\<lparr>txo_Liminal := False\<rparr>) (tx_Outputs t)"
    by (rule map_data_inj [rotated]) (rule TransactionOutput_data_inj, simp add: bytes_of_string_inj)
  from ver lock inputs outputs show ?thesis by (simp add: clear_liminal_def)
qed

text \<open>
  The hash of a transaction binds it. If the digest has no collision on what the two
  transactions feed to it, then two transactions with equally many inputs and equal hashes are
  equal up to the liminal marks, which are local to a node: the hash covers the version, the
  lock time, every field of every input and every output, and their order.
\<close>

theorem transaction_hash_binding:
  assumes "\<And>v. length (H v) = 32"
    and "inj_on H (tx_preimages H s \<union> tx_preimages H t)"
    and "length (tx_Inputs s) = length (tx_Inputs t)"
    and "\<And>i. i \<in> set (tx_Inputs s) \<union> set (tx_Inputs t) \<Longrightarrow> CHR ''/'' \<notin> set (txi_TransactionHash i)"
    and "Transaction_Hash H s = Transaction_Hash H t"
  shows "clear_liminal s = clear_liminal t"
proof (rule Transaction_data_inj [OF assms(1-4)])
  have "H (bytes_of_string (Transaction_data H s)) = H (bytes_of_string (Transaction_data H t))"
    using assms(5) by (simp add: Transaction_Hash_def utils_Hash_inj)
  then have "bytes_of_string (Transaction_data H s) = bytes_of_string (Transaction_data H t)"
    by (rule inj_onD [OF assms(2)]) (simp_all add: tx_preimages_def)
  then show "Transaction_data H s = Transaction_data H t" by (simp add: bytes_of_string_inj)
qed

text \<open>A digest for witnesses: 31 zero bytes and the length of the input.\<close>

definition length_digest :: "byte list \<Rightarrow> byte list" where
  "length_digest v = replicate 31 0 @ [word_of_nat (length v)]"

lemma length_length_digest [simp]: "length (length_digest v) = 32"
  by (simp add: length_digest_def)

text \<open>A transaction told apart by its lock time, for witnesses.\<close>

definition demo_tx :: "u32 \<Rightarrow> Transaction" where
  "demo_tx n = \<lparr>tx_Version = 0, tx_Inputs = [], tx_Outputs = [], tx_LockTime = n\<rparr>"

theorem transaction_hash_binding_witness:
  "clear_liminal \<lparr>tx_Version = 0, tx_Inputs = [], tx_Outputs = [\<lparr>txo_Amount = 5, txo_LockingScript = ''aa'', txo_Liminal = False\<rparr>], tx_LockTime = 0\<rparr>
   = clear_liminal \<lparr>tx_Version = 0, tx_Inputs = [], tx_Outputs = [\<lparr>txo_Amount = 5, txo_LockingScript = ''aa'', txo_Liminal = True\<rparr>], tx_LockTime = 0\<rparr>"
  (is "clear_liminal ?s = clear_liminal ?t")
proof (rule transaction_hash_binding [of length_digest])
  have "tx_preimages length_digest ?s \<union> tx_preimages length_digest ?t =
      {bytes_of_string (Transaction_data length_digest ?s), bytes_of_string ''5/aa''}"
    by (auto simp: tx_preimages_def Transaction_data_def TransactionOutput_Hash_def TransactionOutput_data_def
        eval_simps)
  moreover have "length (Transaction_data length_digest ?s) = 69"
    by (simp add: Transaction_data_def TransactionOutput_Hash_def utils_Hash_def eval_simps)
  ultimately show "inj_on length_digest (tx_preimages length_digest ?s \<union> tx_preimages length_digest ?t)"
    by (auto simp: length_digest_def)
qed (simp_all add: Transaction_Hash_def Transaction_data_def TransactionOutput_Hash_def TransactionOutput_data_def)

text \<open>
  The hash does not fix where the inputs end and the outputs begin. Whatever the digest is,
  a transaction with two inputs and one output has the same hash as a transaction with one input
  and two outputs: the printed form of an input whose transaction hash is a decimal number is
  that of an output, and both lists are joined with the same separator.
\<close>

theorem transaction_hash_ambiguous:
  fixes i :: TransactionInput and o' :: TransactionOutput
  defines "s \<equiv> \<lparr>tx_Version = 0,
      tx_Inputs = [i, \<lparr>txi_TransactionHash = ''5'', txi_OutputIndex = 0, txi_UnlockingScript = ''ab'', txi_Amount = 7\<rparr>],
      tx_Outputs = [o'], tx_LockTime = 0\<rparr>"
    and "t \<equiv> \<lparr>tx_Version = 0, tx_Inputs = [i],
      tx_Outputs = [\<lparr>txo_Amount = 5, txo_LockingScript = ''0/ab/7'', txo_Liminal = False\<rparr>, o'], tx_LockTime = 0\<rparr>"
  shows "Transaction_Hash H s = Transaction_Hash H t \<and> Transaction_Serialize s \<noteq> Transaction_Serialize t"
  by (simp add: s_def t_def Transaction_Hash_def Transaction_data_def TransactionInput_Hash_def TransactionOutput_Hash_def
      TransactionInput_data_def TransactionOutput_data_def eval_simps Transaction_Serialize_def)

section \<open>Unlocking scripts\<close>

text \<open>
  What the program relies on of signatures: a signature made with a private key verifies under
  the public key that belongs to it.
\<close>

definition signs_verify :: "('pk, 'sk) ecdsa \<Rightarrow> bool" where
  "signs_verify ec \<longleftrightarrow> (\<forall>r sk h sig. SignASN1 ec r sk h = Some sig \<longrightarrow> VerifyASN1 ec (PublicOf ec sk) h sig)"

lemma MkSig_verifies:
  assumes "key_codec ec" "signs_verify ec" "CreateSimpleID ec r0 = Some i"
    and "txo_LockingScript o' = hex_EncodeToString (GetPublicKeyBytes i)"
    and "MkSig ec H r o' i = Inr sig" "sig \<noteq> []"
  shows "IsUnlckd ec H o' sig = Inr True"
proof -
  obtain sk where sk: "GetPrivateKey i = Some sk" "GetPublicKey i = Some (PublicOf ec sk)"
    using CreateSimpleID_keys(3) [OF assms(1,3)] by blast
  let ?h = "H (bytes_of_string (TransactionOutput_data o'))"
  have dec: "hex_DecodeString (TransactionOutput_Hash H o') = (?h, None)" by (simp add: TransactionOutput_Hash_def)
  obtain sigB where sig: "SignASN1 ec r sk ?h = Some sigB" "sig = hex_EncodeToString sigB"
    using assms(5,6) sk by (auto simp: MkSig_def dec utils_Sign_def split: option.splits)
  have "Byt2PK ec (GetPublicKeyBytes i) = Inr (Some (PublicOf ec sk))"
    using CreateSimpleID_keys(1) [OF assms(1,3)] sk by (simp add: BytesToPublicKey_eq)
  with sig assms(2,4) dec show ?thesis by (simp add: IsUnlckd_def signs_verify_def)
qed

text \<open>
  The owner can spend. An output locked to the public key of a generated identity is
  unlocked by the script the identity's \<open>MkSig\<close> makes for it, whenever the signer returns a
  signature.
\<close>

theorem MkSig_unlocks:
  assumes "key_codec ec" "signs_verify ec" "CreateSimpleID ec r0 = Some i"
    and "txo_LockingScript o' = hex_EncodeToString (GetPublicKeyBytes i)"
    and "MkSig ec H r o' i = Inr sig" "sig \<noteq> []"
  shows "IsUnlckd ec H o' sig = Inr True"
  by (rule MkSig_verifies [OF assms])

text \<open>A signature scheme for witnesses: the key is a number and the signature repeats it.\<close>

definition echo_ecdsa :: "(byte, byte) ecdsa" where
  "echo_ecdsa =
     \<lparr>ParsePKIXPublicKey = (\<lambda>b. case b of [k] \<Rightarrow> PkixEcdsa k | [] \<Rightarrow> PkixError | _ \<Rightarrow> PkixNotEcdsa),
      ParseECPrivateKey = (\<lambda>b. case b of [k] \<Rightarrow> Some k | _ \<Rightarrow> None),
      MarshalPKIXPublicKey = (\<lambda>k. Some [k]), MarshalECPrivateKey = (\<lambda>k. Some [k]),
      PublicOf = (\<lambda>k. k), GenerateKey = (\<lambda>r. Some (word_of_nat r)),
      SignASN1 = (\<lambda>r k h. Some (k # h)), VerifyASN1 = (\<lambda>k h s. s = k # h)\<rparr>"

lemma echo_ecdsa_ok: "key_codec echo_ecdsa" "signs_verify echo_ecdsa"
  by (simp_all add: key_codec_def signs_verify_def echo_ecdsa_def)

theorem MkSig_unlocks_witness:
  "IsUnlckd echo_ecdsa length_digest \<lparr>txo_Amount = 5, txo_LockingScript = hex_EncodeToString [9], txo_Liminal = False\<rparr>
     (hex_EncodeToString (9 # length_digest (bytes_of_string (''5/'' @ hex_EncodeToString [9])))) = Inr True"
  by (rule MkSig_unlocks [of echo_ecdsa 9 "the (CreateSimpleID echo_ecdsa 9)" _ length_digest 0])
    (simp_all add: echo_ecdsa_ok, simp_all add: echo_ecdsa_def CreateSimpleID_def PrivateKeyToBytes_def
      PublicKeyToBytes_def GetPublicKeyBytes_def GetPrivateKey_def MkSig_def utils_Sign_def TransactionOutput_Hash_def
      TransactionOutput_data_def eval_simps, simp_all add: hex_EncodeToString_def)

text \<open>
  The check of an unlocking script has three outcomes. It panics exactly when the locking
  script is the hex form of a well-formed public key that is not an elliptic-curve key; it
  accepts exactly when both scripts decode, the key parses and the signature of the output's
  hash verifies; it rejects otherwise.
\<close>

theorem IsUnlckd_outcomes:
  "(IsUnlckd ec H o' sig = Inl e \<longleftrightarrow>
      e = TypeAssertion \<and> (\<exists>pkb. hex_DecodeString (txo_LockingScript o') = (pkb, None)
        \<and> ParsePKIXPublicKey ec pkb = PkixNotEcdsa)) \<and>
   (IsUnlckd ec H o' sig = Inr True \<longleftrightarrow>
      (\<exists>pkb pk sigB. hex_DecodeString (txo_LockingScript o') = (pkb, None)
        \<and> ParsePKIXPublicKey ec pkb = PkixEcdsa pk \<and> hex_DecodeString sig = (sigB, None)
        \<and> VerifyASN1 ec pk (H (bytes_of_string (TransactionOutput_data o'))) sigB))"
  by (cases "hex_DecodeString (txo_LockingScript o')"; cases "hex_DecodeString sig")
    (auto simp: IsUnlckd_def Byt2PK_def TransactionOutput_Hash_def split: option.splits pkix.splits)

end
