(* ===== verification/Go_Heap.thy ===== *)
theory Go_Heap
  imports Prelude
begin

text \<open>
  Go's \<^verbatim>\<open>container/heap\<close>: the sift loops \<^verbatim>\<open>up\<close> and \<^verbatim>\<open>down\<close>, \<^verbatim>\<open>heap.Init\<close> and
  \<^verbatim>\<open>heap.Push\<close>, the operations the transaction heap calls, over a slice (a list) and the
  \<^verbatim>\<open>Less\<close> method of the heap interface (a comparison of two elements).

  The locale \<open>heap_order\<close> is the contract \<^verbatim>\<open>container/heap\<close> asks of \<^verbatim>\<open>Less\<close> (a strict
  weak order). Under it the operations establish the heap property, keep the multiset of
  elements, and put a maximal element at index 0.
\<close>

abbreviation par :: "nat \<Rightarrow> nat" where
  "par j \<equiv> (j - 1) div 2"

definition heap_Swap :: "'a list \<Rightarrow> nat \<Rightarrow> nat \<Rightarrow> 'a list" where
  "heap_Swap h i j = h[i := h ! j, j := h ! i]"

function heap_up :: "('a \<Rightarrow> 'a \<Rightarrow> bool) \<Rightarrow> 'a list \<Rightarrow> nat \<Rightarrow> 'a list" where
  "heap_up lt h j =
     (let i = (j - 1) div 2 in
      if i = j \<or> \<not> lt (h ! j) (h ! i) then h else heap_up lt (heap_Swap h i j) i)"
  by pat_completeness auto
termination
  by (relation "measure (\<lambda>(lt, h, j). j)") auto

function heap_down :: "('a \<Rightarrow> 'a \<Rightarrow> bool) \<Rightarrow> 'a list \<Rightarrow> nat \<Rightarrow> nat \<Rightarrow> 'a list" where
  "heap_down lt h i n =
     (let j1 = 2 * i + 1 in
      if j1 \<ge> n then h
      else let j = (if j1 + 1 < n \<and> lt (h ! (j1 + 1)) (h ! j1) then j1 + 1 else j1) in
        if \<not> lt (h ! j) (h ! i) then h else heap_down lt (heap_Swap h i j) j n)"
  by pat_completeness auto
termination
  by (relation "measure (\<lambda>(lt, h, i, n). n - i)") (auto simp: Let_def)

declare heap_up.simps [simp del] heap_down.simps [simp del]

fun heap_init_loop :: "('a \<Rightarrow> 'a \<Rightarrow> bool) \<Rightarrow> 'a list \<Rightarrow> nat \<Rightarrow> nat \<Rightarrow> 'a list" where
  "heap_init_loop lt h n 0 = h"
| "heap_init_loop lt h n (Suc i) = heap_init_loop lt (heap_down lt h i n) n i"

definition heap_Init :: "('a \<Rightarrow> 'a \<Rightarrow> bool) \<Rightarrow> 'a list \<Rightarrow> 'a list" where
  "heap_Init lt h = heap_init_loop lt h (length h) (length h div 2)"

definition heap_Push :: "('a \<Rightarrow> 'a \<Rightarrow> bool) \<Rightarrow> 'a list \<Rightarrow> 'a \<Rightarrow> 'a list" where
  "heap_Push lt h x = heap_up lt (h @ [x]) (length h)"

text \<open>Each element is not above its parent.\<close>

definition is_heap :: "('a \<Rightarrow> 'a \<Rightarrow> bool) \<Rightarrow> 'a list \<Rightarrow> bool" where
  "is_heap lt h \<longleftrightarrow> (\<forall>x < length h. 0 < x \<longrightarrow> \<not> lt (h ! x) (h ! par x))"

section \<open>Length and elements, for any comparison\<close>

lemma heap_Swap_length [simp]: "length (heap_Swap h i j) = length h"
  by (simp add: heap_Swap_def)

lemma heap_Swap_mset [simp]: "i < length h \<Longrightarrow> j < length h \<Longrightarrow> mset (heap_Swap h i j) = mset h"
  by (simp add: heap_Swap_def list_update_swap_mset)

lemma heap_Swap_nth:
  "i < length h \<Longrightarrow> j < length h \<Longrightarrow> k < length h \<Longrightarrow>
    heap_Swap h i j ! k = (if k = j then h ! i else if k = i then h ! j else h ! k)"
  by (simp add: heap_Swap_def nth_list_update)

lemma heap_up_unfold:
  "heap_up lt h j =
     (if par j = j \<or> \<not> lt (h ! j) (h ! par j) then h else heap_up lt (heap_Swap h (par j) j) (par j))"
  by (simp add: heap_up.simps [of lt h j] Let_def)

lemma heap_up_mset: "j < length h \<Longrightarrow> mset (heap_up lt h j) = mset h"
proof (induction j arbitrary: h rule: less_induct)
  case (less j)
  show ?case
  proof (cases "par j = j \<or> \<not> lt (h ! j) (h ! par j)")
    case True
    then show ?thesis by (simp add: heap_up_unfold [of lt h j])
  next
    case False
    then have "par j < j" by auto
    with less have "mset (heap_up lt (heap_Swap h (par j) j) (par j)) = mset h" by simp
    with False show ?thesis by (simp add: heap_up_unfold [of lt h j])
  qed
qed

lemma heap_up_length: "j < length h \<Longrightarrow> length (heap_up lt h j) = length h"
  by (metis heap_up_mset size_mset)

text \<open>The child that \<^verbatim>\<open>down\<close> compares with its parent.\<close>

definition heap_child :: "('a \<Rightarrow> 'a \<Rightarrow> bool) \<Rightarrow> 'a list \<Rightarrow> nat \<Rightarrow> nat \<Rightarrow> nat" where
  "heap_child lt h i n =
     (if 2 * i + 2 < n \<and> lt (h ! (2 * i + 2)) (h ! (2 * i + 1)) then 2 * i + 2 else 2 * i + 1)"

lemma heap_down_unfold:
  "heap_down lt h i n =
     (if n \<le> 2 * i + 1 \<or> \<not> lt (h ! heap_child lt h i n) (h ! i) then h
      else heap_down lt (heap_Swap h i (heap_child lt h i n)) (heap_child lt h i n) n)"
  by (simp add: heap_down.simps [of lt h i n] heap_child_def Let_def)

lemma heap_child_bounds: "2 * i + 1 < n \<Longrightarrow> i < heap_child lt h i n \<and> heap_child lt h i n < n"
  by (auto simp: heap_child_def)

lemma par_heap_child: "par (heap_child lt h i n) = i"
  by (simp add: heap_child_def)

lemma heap_down_mset: "n \<le> length h \<Longrightarrow> i < n \<Longrightarrow> mset (heap_down lt h i n) = mset h"
proof (induction "n - i" arbitrary: h i rule: less_induct)
  case less
  let ?j = "heap_child lt h i n"
  show ?case
  proof (cases "n \<le> 2 * i + 1 \<or> \<not> lt (h ! ?j) (h ! i)")
    case True
    then show ?thesis by (auto simp: heap_down_unfold [of lt h i n])
  next
    case False
    then have j: "i < ?j" "?j < n" using heap_child_bounds [of i n lt h] by auto
    with less have "mset (heap_down lt (heap_Swap h i ?j) ?j n) = mset h" by simp
    with False show ?thesis by (simp add: heap_down_unfold [of lt h i n])
  qed
qed

lemma heap_down_length: "n \<le> length h \<Longrightarrow> i < n \<Longrightarrow> length (heap_down lt h i n) = length h"
  by (metis heap_down_mset size_mset)

lemma heap_init_loop_mset: "n = length h \<Longrightarrow> k \<le> n \<Longrightarrow> mset (heap_init_loop lt h n k) = mset h"
proof (induction k arbitrary: h)
  case (Suc k)
  then have "length (heap_down lt h k n) = length h" "mset (heap_down lt h k n) = mset h"
    by (simp_all add: heap_down_mset heap_down_length)
  with Suc.IH [of "heap_down lt h k n"] Suc.prems show ?case by simp
qed simp

lemma heap_Init_mset [simp]: "mset (heap_Init lt h) = mset h"
  by (simp add: heap_Init_def heap_init_loop_mset)

lemma heap_Push_mset [simp]: "mset (heap_Push lt h x) = mset h + {#x#}"
  by (simp add: heap_Push_def heap_up_mset)

lemma heap_Init_set [simp]: "set (heap_Init lt h) = set h"
  by (metis heap_Init_mset set_mset_mset)

lemma heap_Push_set [simp]: "set (heap_Push lt h x) = insert x (set h)"
  by (metis heap_Push_mset set_mset_add_mset_insert set_mset_mset add_mset_add_single)

lemma heap_Init_length [simp]: "length (heap_Init lt h) = length h"
  by (metis heap_Init_mset size_mset)

lemma heap_Push_length [simp]: "length (heap_Push lt h x) = Suc (length h)"
  by (simp add: heap_Push_def heap_up_length)

lemma is_heap_Nil [simp]: "is_heap lt []"
  by (simp add: is_heap_def)

section \<open>The heap property, for a strict weak order\<close>

locale heap_order =
  fixes lt :: "'a \<Rightarrow> 'a \<Rightarrow> bool"
  assumes less_asym: "lt a b \<Longrightarrow> \<not> lt b a"
    and not_less_trans: "\<not> lt a b \<Longrightarrow> \<not> lt b c \<Longrightarrow> \<not> lt a c"
begin

text \<open>While an element sifts up, only its own link to its parent may be out of order.\<close>

definition heap_but_up :: "'a list \<Rightarrow> nat \<Rightarrow> bool" where
  "heap_but_up h j \<longleftrightarrow> (\<forall>x < length h. 0 < x \<longrightarrow>
     (x \<noteq> j \<longrightarrow> \<not> lt (h ! x) (h ! par x)) \<and>
     (par x = j \<longrightarrow> 0 < j \<longrightarrow> \<not> lt (h ! x) (h ! par j)))"

lemma heap_but_up_step:
  assumes inv: "heap_but_up h j" and j: "0 < j" "j < length h" and up: "lt (h ! j) (h ! par j)"
  shows "heap_but_up (heap_Swap h (par j) j) (par j)"
proof -
  let ?h = "heap_Swap h (par j) j" and ?i = "par j"
  have i: "?i < j" "?i < length h" using j by linarith+
  have nth: "?h ! k = (if k = j then h ! ?i else if k = ?i then h ! j else h ! k)" if "k < length h" for k
    using heap_Swap_nth [OF i(2) j(2) that] .
  have ordered: "\<not> lt (h ! x) (h ! par x)" if "x < length h" "0 < x" "x \<noteq> j" for x
    using inv that by (simp add: heap_but_up_def)
  have grand: "\<not> lt (h ! x) (h ! ?i)" if "x < length h" "0 < x" "par x = j" for x
    using inv that j by (simp add: heap_but_up_def)
  show ?thesis unfolding heap_but_up_def
  proof (intro allI impI conjI)
    fix x assume x: "x < length ?h" "0 < x" and ne: "x \<noteq> ?i"
    have px: "par x < length h" "par x < x" using x by auto
    show "\<not> lt (?h ! x) (?h ! par x)"
    proof (cases "x = j")
      case True
      with nth [of x] nth [of ?i] x i show ?thesis using less_asym [OF up] by simp
    next
      case False
      then have o: "\<not> lt (h ! x) (h ! par x)" using ordered x by simp
      consider "par x = j" | "par x = ?i" | "par x \<noteq> j" "par x \<noteq> ?i" by blast
      then show ?thesis
      proof cases
        case 1
        with False ne x nth [of x] nth [of j] j grand show ?thesis by simp
      next
        case 2
        have "\<not> lt (h ! ?i) (h ! j)" using less_asym [OF up] .
        with o 2 have "\<not> lt (h ! x) (h ! j)" using not_less_trans by metis
        with 2 False ne x nth [of x] nth [of ?i] i show ?thesis by simp
      next
        case 3
        with o False ne x px nth [of x] nth [of "par x"] show ?thesis by simp
      qed
    qed
  next
    fix x assume x: "x < length ?h" "0 < x" and p: "par x = ?i" and i0: "0 < ?i"
    have "\<not> lt (h ! ?i) (h ! par ?i)" using ordered [of ?i] i i0 by simp
    moreover have gp: "?h ! par ?i = h ! par ?i"
    proof -
      have "par ?i < ?i" using i0 by auto
      with nth [of "par ?i"] i show ?thesis by simp
    qed
    moreover have "\<not> lt (?h ! x) (h ! ?i)"
    proof (cases "x = j")
      case True
      with nth [of j] j show ?thesis using less_asym by auto
    next
      case False
      moreover have "x \<noteq> ?i" using p i0 by linarith
      ultimately show ?thesis using nth [of x] x p ordered [of x] by simp
    qed
    ultimately show "\<not> lt (?h ! x) (?h ! par ?i)" unfolding gp using not_less_trans by blast
  qed
qed

lemma heap_but_up_done:
  assumes "heap_but_up h j" and "par j = j \<or> \<not> lt (h ! j) (h ! par j)"
  shows "is_heap lt h"
proof -
  have "\<not> lt (h ! x) (h ! par x)" if "x < length h" "0 < x" for x
  proof (cases "x = j")
    case True
    have "par x \<noteq> x" using that by linarith
    with True assms(2) show ?thesis by simp
  next
    case False
    with assms(1) that show ?thesis by (simp add: heap_but_up_def)
  qed
  then show ?thesis by (simp add: is_heap_def)
qed

lemma heap_up_heap: "heap_but_up h j \<Longrightarrow> j < length h \<Longrightarrow> is_heap lt (heap_up lt h j)"
proof (induction j arbitrary: h rule: less_induct)
  case (less j)
  show ?case
  proof (cases "par j = j \<or> \<not> lt (h ! j) (h ! par j)")
    case True
    with heap_but_up_done [OF less.prems(1)] show ?thesis by (simp add: heap_up_unfold [of lt h j])
  next
    case False
    then have "0 < j" "par j < j" by auto
    with False less.prems have "heap_but_up (heap_Swap h (par j) j) (par j)"
      by (intro heap_but_up_step) auto
    with less.IH [of "par j" "heap_Swap h (par j) j"] \<open>par j < j\<close> less.prems
    have "is_heap lt (heap_up lt (heap_Swap h (par j) j) (par j))" by simp
    with False show ?thesis by (simp add: heap_up_unfold [of lt h j])
  qed
qed

theorem heap_Push_heap: "is_heap lt h \<Longrightarrow> is_heap lt (heap_Push lt h x)"
proof -
  assume h: "is_heap lt h"
  have "heap_but_up (h @ [x]) (length h)"
    unfolding heap_but_up_def
  proof (intro allI impI conjI)
    fix y assume y: "y < length (h @ [x])" "0 < y" "y \<noteq> length h"
    then have "y < length h" "par y < length h" by auto
    with h y show "\<not> lt ((h @ [x]) ! y) ((h @ [x]) ! par y)" by (simp add: is_heap_def nth_append)
  next
    fix y assume y: "y < length (h @ [x])" "0 < y" "par y = length h"
    then have "par y < length h" by auto
    with y(3) show "\<not> lt ((h @ [x]) ! y) ((h @ [x]) ! par (length h))" by simp
  qed
  then show ?thesis using heap_up_heap by (simp add: heap_Push_def)
qed

text \<open>
  While an element sifts down from index \<open>i\<close>, the links below \<open>i\<close> may be out of order; the
  links from index \<open>m\<close> on are in order elsewhere, and the children of \<open>i\<close> are not above its parent.
\<close>

definition heap_from :: "'a list \<Rightarrow> nat \<Rightarrow> bool" where
  "heap_from h m \<longleftrightarrow> (\<forall>x < length h. 0 < x \<longrightarrow> m \<le> par x \<longrightarrow> \<not> lt (h ! x) (h ! par x))"

definition heap_but_down :: "'a list \<Rightarrow> nat \<Rightarrow> nat \<Rightarrow> bool" where
  "heap_but_down h m i \<longleftrightarrow> (\<forall>x < length h. 0 < x \<longrightarrow> m \<le> par x \<longrightarrow>
     (par x \<noteq> i \<longrightarrow> \<not> lt (h ! x) (h ! par x)) \<and>
     (par x = i \<longrightarrow> 0 < i \<longrightarrow> m \<le> par i \<longrightarrow> \<not> lt (h ! x) (h ! par i)))"

lemma heap_child_max:
  assumes "x < n" "0 < x" "par x = i"
  shows "\<not> lt (h ! x) (h ! heap_child lt h i n)"
proof -
  have "x = 2 * i + 1 \<or> x = 2 * i + 2" using assms by auto
  then show ?thesis using assms(1) less_asym by (auto simp: heap_child_def)
qed

lemma heap_but_down_done:
  assumes "heap_but_down h m i"
    and "length h \<le> 2 * i + 1 \<or> \<not> lt (h ! heap_child lt h i (length h)) (h ! i)"
  shows "heap_from h m"
  unfolding heap_from_def
proof (intro allI impI)
  fix x assume x: "x < length h" "0 < x" "m \<le> par x"
  show "\<not> lt (h ! x) (h ! par x)"
  proof (cases "par x = i")
    case False
    with assms(1) x show ?thesis by (simp add: heap_but_down_def)
  next
    case True
    with x have "\<not> length h \<le> 2 * i + 1" by auto
    with assms(2) heap_child_max [OF x(1,2) True] not_less_trans True show ?thesis by blast
  qed
qed

lemma heap_but_down_step:
  assumes inv: "heap_but_down h m i" and i: "m \<le> i" "2 * i + 1 < length h"
    and j: "j = heap_child lt h i (length h)" and down: "lt (h ! j) (h ! i)"
  shows "heap_but_down (heap_Swap h i j) m j"
proof -
  let ?h = "heap_Swap h i j"
  have ji: "i < j" "j < length h" "par j = i"
    using heap_child_bounds [OF i(2), of lt h] par_heap_child [of lt h i "length h"] j by auto
  have nth: "?h ! k = (if k = j then h ! i else if k = i then h ! j else h ! k)" if "k < length h" for k
    using heap_Swap_nth [of i h j k] ji that by simp
  have other: "\<not> lt (h ! x) (h ! par x)" if "x < length h" "0 < x" "m \<le> par x" "par x \<noteq> i" for x
    using inv that by (simp add: heap_but_down_def)
  have grand: "\<not> lt (h ! j) (h ! par i)" if "0 < i" "m \<le> par i"
    using inv that ji i unfolding heap_but_down_def by (metis (no_types, lifting) gr_zeroI not_less_zero)
  show ?thesis unfolding heap_but_down_def
  proof (intro allI impI conjI)
    fix x assume x: "x < length ?h" "0 < x" "m \<le> par x" and ne: "par x \<noteq> j"
    then have px: "par x < length h" "par x < x" by auto
    show "\<not> lt (?h ! x) (?h ! par x)"
    proof (cases "par x = i")
      case True
      then have "\<not> lt (h ! x) (h ! j)" using heap_child_max [of x "length h" i h] x j by simp
      with True x px nth [of x] nth [of i] less_asym [OF down] ji show ?thesis by auto
    next
      case False
      have "\<not> lt (h ! j) (h ! par i)" if "x = i" using grand that x by simp
      with False other [of x] x px ne nth [of x] nth [of "par x"] ji show ?thesis by auto
    qed
  next
    fix x assume x: "x < length ?h" "0 < x" "m \<le> par x" and p: "par x = j"
    then have "x \<noteq> j" "x \<noteq> i" using ji by auto
    moreover have "\<not> lt (h ! x) (h ! j)" using other [of x] x p ji by simp
    ultimately show "\<not> lt (?h ! x) (?h ! par j)" using nth [of x] nth [of i] x ji by simp
  qed
qed

lemma heap_down_heap:
  "heap_but_down h m i \<Longrightarrow> m \<le> i \<Longrightarrow> i < length h \<Longrightarrow> heap_from (heap_down lt h i (length h)) m"
proof (induction "length h - i" arbitrary: h i rule: less_induct)
  case less
  let ?n = "length h"
  let ?j = "heap_child lt h i ?n"
  show ?case
  proof (cases "?n \<le> 2 * i + 1 \<or> \<not> lt (h ! ?j) (h ! i)")
    case True
    with heap_but_down_done [OF less.prems(1)] show ?thesis by (auto simp: heap_down_unfold [of lt h i])
  next
    case False
    then have j: "i < ?j" "?j < ?n" using heap_child_bounds [of i ?n lt h] by auto
    have "heap_but_down (heap_Swap h i ?j) m ?j"
      using False less.prems by (intro heap_but_down_step) auto
    with less.hyps [of "heap_Swap h i ?j" ?j] j less.prems
    have "heap_from (heap_down lt (heap_Swap h i ?j) ?j ?n) m" by simp
    with False show ?thesis by (simp add: heap_down_unfold [of lt h i])
  qed
qed

lemma heap_from_Suc: "heap_from h (Suc i) \<Longrightarrow> heap_but_down h i i"
  unfolding heap_from_def heap_but_down_def by (auto simp: Suc_le_eq)

lemma heap_init_loop_heap:
  "n = length h \<Longrightarrow> k \<le> n \<Longrightarrow> heap_from h k \<Longrightarrow> heap_from (heap_init_loop lt h n k) 0"
proof (induction k arbitrary: h)
  case (Suc k)
  then have "heap_from (heap_down lt h k n) k" using heap_down_heap heap_from_Suc by simp
  moreover have "length (heap_down lt h k n) = length h" using Suc.prems by (simp add: heap_down_length)
  ultimately show ?case using Suc.IH [of "heap_down lt h k n"] Suc.prems by simp
qed simp

theorem heap_Init_heap: "is_heap lt (heap_Init lt h)"
proof -
  have "heap_from h (length h div 2)" unfolding heap_from_def by auto
  then have "heap_from (heap_Init lt h) 0" by (simp add: heap_Init_def heap_init_loop_heap)
  then show ?thesis by (simp add: heap_from_def is_heap_def)
qed

theorem heap_root_max: "is_heap lt h \<Longrightarrow> x < length h \<Longrightarrow> \<not> lt (h ! x) (h ! 0)"
proof (induction x rule: less_induct)
  case (less x)
  show ?case
  proof (cases "x = 0")
    case True
    then show ?thesis using less_asym by auto
  next
    case False
    then have "par x < x" by auto
    with less have "\<not> lt (h ! par x) (h ! 0)" by simp
    moreover have "\<not> lt (h ! x) (h ! par x)" using less.prems False by (simp add: is_heap_def)
    ultimately show ?thesis using not_less_trans by blast
  qed
qed

end

end
