(* ===== verification/Tx_Heap.thy ===== *)
theory Tx_Heap
  imports Tx Go_Heap
begin

text \<open>
  \<^verbatim>\<open>pkg/block/tx/tx_heap.go\<close>: the maximum priority queue of transactions, an array managed by
  \<^verbatim>\<open>container/heap\<close>, used by the miner's transaction pool and by the wallet's liminal
  transactions. A nil transaction is \<open>None\<close>.

  The locale \<open>tx_queue\<close> is the contract those two clients rely on: what adding, removing,
  ageing and expiring do to the multiset of queued nodes. The heap operations are shown to
  provide it, and to keep the array a heap.
\<close>

record HeapNode =
  hn_P :: u32
  hn_T :: Transaction

type_synonym Heap = "HeapNode list"

definition Heap_Less :: "HeapNode \<Rightarrow> HeapNode \<Rightarrow> bool" where
  "Heap_Less a b \<longleftrightarrow> hn_P a > hn_P b"

definition NewTxHeap :: Heap where
  "NewTxHeap = heap_Init Heap_Less []"

definition Heap_Add :: "u32 \<Rightarrow> Transaction option \<Rightarrow> Heap \<Rightarrow> Heap" where
  "Heap_Add p t h =
     (case t of None \<Rightarrow> h | Some t \<Rightarrow> heap_Push Heap_Less h \<lparr>hn_P = p, hn_T = t\<rparr>)"

definition IncAll :: "Heap \<Rightarrow> Heap" where
  "IncAll h = map (\<lambda>n. n\<lparr>hn_P := hn_P n + 1\<rparr>) h"

definition Heap_Len :: "Heap \<Rightarrow> int" where
  "Heap_Len h = int (length h)"

definition Heap_Push :: "Heap \<Rightarrow> HeapNode \<Rightarrow> Heap" where
  "Heap_Push h x = h @ [x]"

text \<open>\<^verbatim>\<open>Pop\<close> and \<^verbatim>\<open>Peek\<close> index the last element, which panics on an empty heap.\<close>

definition Heap_Pop :: "Heap \<Rightarrow> (HeapNode \<times> Heap) go" where
  "Heap_Pop h =
     (let n = length h in if n = 0 then Inl IndexOutOfRange else Inr (h ! (n - 1), take (n - 1) h))"

definition Heap_Peek :: "Heap \<Rightarrow> HeapNode go" where
  "Heap_Peek h = (let n = length h in if n = 0 then Inl IndexOutOfRange else Inr (h ! (n - 1)))"

fun GetIndex_loop :: "(byte list \<Rightarrow> byte list) \<Rightarrow> nat \<Rightarrow> Heap \<Rightarrow> Transaction \<Rightarrow> nat \<times> bool" where
  "GetIndex_loop H i [] t = (0, False)"
| "GetIndex_loop H i (v # vs) t =
     (if Transaction_Hash H (hn_T v) = Transaction_Hash H t then (i, True) else GetIndex_loop H (Suc i) vs t)"

definition GetIndex :: "(byte list \<Rightarrow> byte list) \<Rightarrow> Heap \<Rightarrow> Transaction option \<Rightarrow> nat \<times> bool" where
  "GetIndex H h t = (case t of None \<Rightarrow> (0, False) | Some t \<Rightarrow> GetIndex_loop H 0 h t)"

fun Has_loop :: "(byte list \<Rightarrow> byte list) \<Rightarrow> Heap \<Rightarrow> Transaction \<Rightarrow> bool" where
  "Has_loop H [] t = False"
| "Has_loop H (v # vs) t =
     (if Transaction_Hash H (hn_T v) = Transaction_Hash H t then True else Has_loop H vs t)"

definition Heap_Has :: "(byte list \<Rightarrow> byte list) \<Rightarrow> Heap \<Rightarrow> Transaction option \<Rightarrow> bool" where
  "Heap_Has H h t = (case t of None \<Rightarrow> False | Some t \<Rightarrow> Has_loop H h t)"

text \<open>
  The loop of \<^verbatim>\<open>Rmv\<close>: swap the found node with the last one and cut the slice. A nil
  transaction ends the call with a nil result, before the array is made a heap again.
\<close>

fun Rmv_loop :: "(byte list \<Rightarrow> byte list) \<Rightarrow> Heap \<Rightarrow> Transaction list \<Rightarrow> Transaction option list \<Rightarrow> Transaction list \<times> Heap" where
  "Rmv_loop H h r [] = (r, heap_Init Heap_Less h)"
| "Rmv_loop H h r (None # ts) = ([], h)"
| "Rmv_loop H h r (Some t # ts) =
     (case GetIndex H h (Some t) of (i, isIn) \<Rightarrow>
        if isIn then Rmv_loop H (take (length h - 1) (heap_Swap h i (length h - 1))) (r @ [t]) ts
        else Rmv_loop H h r ts)"

definition Rmv :: "(byte list \<Rightarrow> byte list) \<Rightarrow> Heap \<Rightarrow> Transaction option list \<Rightarrow> Transaction list \<times> Heap" where
  "Rmv H h ts = Rmv_loop H h [] ts"

definition RemAbv :: "(byte list \<Rightarrow> byte list) \<Rightarrow> Heap \<Rightarrow> u32 \<Rightarrow> Transaction list \<times> Heap" where
  "RemAbv H h thresh =
     (let rem = map hn_T (filter (\<lambda>val. hn_P val \<ge> thresh) h)
      in (rem, snd (Rmv H h (map Some rem))))"

section \<open>The order of priorities\<close>

interpretation tq: heap_order Heap_Less
  by unfold_locales (auto simp: Heap_Less_def)

abbreviation pri_heap :: "Heap \<Rightarrow> bool" where
  "pri_heap h \<equiv> is_heap Heap_Less h"

abbreviation node_hash :: "(byte list \<Rightarrow> byte list) \<Rightarrow> HeapNode \<Rightarrow> string" where
  "node_hash H n \<equiv> Transaction_Hash H (hn_T n)"

lemma NewTxHeap_Nil [simp]: "NewTxHeap = []"
  by (simp add: NewTxHeap_def heap_Init_def)

lemma Heap_Add_mset [simp]: "mset (Heap_Add p (Some t) h) = add_mset \<lparr>hn_P = p, hn_T = t\<rparr> (mset h)"
  by (simp add: Heap_Add_def)

lemma Heap_Add_None [simp]: "Heap_Add p None h = h"
  by (simp add: Heap_Add_def)

lemma Heap_Add_heap: "pri_heap h \<Longrightarrow> pri_heap (Heap_Add p t h)"
  by (cases t) (simp_all add: Heap_Add_def tq.heap_Push_heap)

lemma IncAll_nth: "i < length h \<Longrightarrow> hn_P (IncAll h ! i) = hn_P (h ! i) + 1"
  by (simp add: IncAll_def)

lemma IncAll_length [simp]: "length (IncAll h) = length h"
  by (simp add: IncAll_def)

lemma word_plus_one_mono: "a \<le> b \<Longrightarrow> b \<noteq> - 1 \<Longrightarrow> a + 1 \<le> b + (1 :: u32)"
proof -
  assume ab: "a \<le> b" and b: "b \<noteq> - 1"
  then have "1 + b \<noteq> 0" by (metis add.commute add_eq_0_iff2)
  moreover from ab b have "1 + a \<noteq> 0"
    by (metis add.commute add_eq_0_iff2 word_order.extremum_uniqueI)
  ultimately have "unat (1 + a) = Suc (unat a)" "unat (1 + b) = Suc (unat b)" by (simp_all add: unatSuc)
  with ab show ?thesis by (simp add: word_le_nat_alt add.commute)
qed

lemma IncAll_heap:
  assumes "pri_heap h" "\<forall>n \<in> set h. hn_P n \<noteq> - 1"
  shows "pri_heap (IncAll h)"
  unfolding is_heap_def
proof (intro allI impI)
  fix x assume x: "x < length (IncAll h)" "0 < x"
  then have px: "par x < length h" "x < length h" by auto
  have "hn_P (h ! x) \<le> hn_P (h ! par x)" using assms(1) x by (auto simp: is_heap_def Heap_Less_def not_less)
  moreover have "hn_P (h ! par x) \<noteq> - 1" using assms(2) px by simp
  ultimately have "hn_P (h ! x) + 1 \<le> hn_P (h ! par x) + 1"
    by (rule word_plus_one_mono)
  then show "\<not> Heap_Less (IncAll h ! x) (IncAll h ! par x)"
    using px by (simp add: Heap_Less_def IncAll_nth)
qed

section \<open>Finding and removing\<close>

lemma GetIndex_loop_found:
  "GetIndex_loop H k h t = (i, True) \<Longrightarrow>
    k \<le> i \<and> i - k < length h \<and> node_hash H (h ! (i - k)) = Transaction_Hash H t"
proof (induction h arbitrary: k)
  case (Cons v vs)
  show ?case
  proof (cases "node_hash H v = Transaction_Hash H t")
    case True
    with Cons.prems show ?thesis by simp
  next
    case False
    with Cons.prems Cons.IH [of "Suc k"]
    have "Suc k \<le> i" "i - Suc k < length vs" "node_hash H (vs ! (i - Suc k)) = Transaction_Hash H t" by simp_all
    moreover from this have "i - k = Suc (i - Suc k)" by simp
    ultimately show ?thesis by simp
  qed
qed simp

lemma GetIndex_loop_iff: "snd (GetIndex_loop H k h t) \<longleftrightarrow> Transaction_Hash H t \<in> node_hash H ` set h"
  by (induction h arbitrary: k) auto

lemma GetIndex_found:
  "GetIndex H h (Some t) = (i, True) \<Longrightarrow> i < length h \<and> node_hash H (h ! i) = Transaction_Hash H t"
  using GetIndex_loop_found [of H 0 h t i] by (simp add: GetIndex_def)

lemma GetIndex_iff: "snd (GetIndex H h (Some t)) \<longleftrightarrow> Transaction_Hash H t \<in> node_hash H ` set h"
  by (simp add: GetIndex_def GetIndex_loop_iff)

lemma Heap_Has_iff: "Heap_Has H h (Some t) \<longleftrightarrow> Transaction_Hash H t \<in> node_hash H ` set h"
  by (simp add: Heap_Has_def) (induction h; auto)

lemma cut_mset:
  assumes "i < length h"
  shows "mset (take (length h - 1) (heap_Swap h i (length h - 1))) = mset h - {#h ! i#}"
proof -
  let ?n = "length h - 1" and ?s = "heap_Swap h i (length h - 1)"
  have n: "?n < length ?s" "i < length h" "?n < length h" using assms by auto
  then have "?s = take ?n ?s @ [?s ! ?n]"
    by (metis Suc_pred' length_greater_0_conv list.size(3) not_less_zero take_Suc_conv_app_nth take_all_iff heap_Swap_length order_refl)
  moreover have "?s ! ?n = h ! i" using n by (simp add: heap_Swap_nth)
  ultimately have "mset ?s = add_mset (h ! i) (mset (take ?n ?s))"
    by (metis mset.simps(1,2) mset_append union_mset_add_mset_right add.right_neutral)
  with n show ?thesis by simp
qed

lemma image_mset_diff1: "x \<in># M \<Longrightarrow> image_mset f (M - {#x#}) = image_mset f M - {#f x#}"
  by (simp add: image_mset_Diff)

text \<open>
  What one call of \<^verbatim>\<open>Rmv\<close> does, by the hashes of the queued transactions: each listed
  transaction takes out one queued transaction with its hash, if there is one.
\<close>

lemma Rmv_loop_spec:
  assumes "Rmv_loop H h r (map Some ts) = (r', h')"
  shows "image_mset (node_hash H) (mset h') = image_mset (node_hash H) (mset h) - mset (map (Transaction_Hash H) ts)
    \<and> mset h' \<subseteq># mset h \<and> pri_heap h'
    \<and> mset (map (Transaction_Hash H) r') = mset (map (Transaction_Hash H) r)
        + (mset (map (Transaction_Hash H) ts) \<inter># image_mset (node_hash H) (mset h))"
  using assms
proof (induction ts arbitrary: h r)
  case Nil
  then show ?case using tq.heap_Init_heap by auto
next
  case (Cons t ts)
  let ?f = "node_hash H" and ?g = "Transaction_Hash H"
  obtain i isIn where ix: "GetIndex H h (Some t) = (i, isIn)" by fastforce
  show ?case
  proof (cases isIn)
    case True
    let ?h = "take (length h - 1) (heap_Swap h i (length h - 1))"
    have i: "i < length h" "?f (h ! i) = ?g t" using GetIndex_found ix True by auto
    then have mem: "h ! i \<in># mset h" by simp
    have cut: "mset ?h = mset h - {#h ! i#}" by (rule cut_mset [OF i(1)])
    then have im: "image_mset ?f (mset ?h) = image_mset ?f (mset h) - {#?g t#}"
      using image_mset_diff1 [OF mem, of ?f] i(2) by simp
    have "?f (h ! i) \<in># image_mset ?f (mset h)" using i(1) by auto
    then have "?g t \<in># image_mset ?f (mset h)" by (simp only: i(2))
    then have int: "mset (map ?g (t # ts)) \<inter># image_mset ?f (mset h)
        = add_mset (?g t) (mset (map ?g ts) \<inter># image_mset ?f (mset ?h))"
      using im by (simp add: inter_add_left2)
    have step: "Rmv_loop H ?h (r @ [t]) (map Some ts) = (r', h')" using Cons.prems ix True by simp
    have "mset h' \<subseteq># mset h"
      using Cons.IH [OF step] cut by (metis diff_subset_eq_self subset_mset.order_trans)
    then show ?thesis using Cons.IH [OF step] im int by simp
  next
    case False
    then have "?g t \<notin># image_mset ?f (mset h)" using GetIndex_iff [of H h t] ix by simp
    moreover have "Rmv_loop H h r (map Some ts) = (r', h')" using Cons.prems ix False by simp
    ultimately show ?thesis using Cons.IH by (simp add: inter_add_left1 minus_add_mset_if_not_in_lhs)
  qed
qed

lemma Rmv_spec:
  assumes "Rmv H h (map Some ts) = (r, h')"
  shows "image_mset (node_hash H) (mset h') = image_mset (node_hash H) (mset h) - mset (map (Transaction_Hash H) ts)"
    and "mset h' \<subseteq># mset h" and "pri_heap h'"
    and "mset (map (Transaction_Hash H) r) = mset (map (Transaction_Hash H) ts) \<inter># image_mset (node_hash H) (mset h)"
  using Rmv_loop_spec [OF assms [unfolded Rmv_def]] by simp_all

lemma Rmv_loop_set: "Rmv_loop H h r (map Some ts) = (r', h') \<Longrightarrow> set r' \<subseteq> set r \<union> set ts"
  by (induction ts arbitrary: h r) (fastforce split: prod.splits if_splits)+

lemma Rmv_set: "Rmv H h (map Some ts) = (r, h') \<Longrightarrow> set r \<subseteq> set ts"
  using Rmv_loop_set [of H h "[]"] by (fastforce simp: Rmv_def)

text \<open>With distinct hashes, expiry keeps exactly the nodes below the threshold.\<close>

lemma mset_eq_by_image:
  assumes "inj_on f (set_mset M)" "A \<subseteq># M" "B \<subseteq># M" "image_mset f A = image_mset f B"
  shows "A = B"
proof -
  have "inj_on f (set_mset A \<union> set_mset B)" using assms(1-3) by (auto elim!: inj_on_subset dest: mset_subset_eqD)
  then obtain C where "A = B + C" "{#} = image_mset f C"
    using image_mset_eq_image_mset_plusD [of f A B "{#}"] assms(4) by auto
  then show ?thesis by simp
qed

lemma RemAbv_mset:
  assumes "distinct (map (node_hash H) h)" "RemAbv H h thresh = (rem, h')"
  shows "mset h' = filter_mset (\<lambda>n. hn_P n < thresh) (mset h)"
proof (rule mset_eq_by_image [of "node_hash H" "mset h"])
  show "inj_on (node_hash H) (set_mset (mset h))" using assms(1) by (simp add: distinct_map)
  let ?old = "filter (\<lambda>n. hn_P n \<ge> thresh) h"
  have split: "mset h = mset ?old + filter_mset (\<lambda>n. hn_P n < thresh) (mset h)"
    using multiset_partition [of "mset h" "\<lambda>n. hn_P n \<ge> thresh"] by (simp add: not_le)
  have r: "Rmv H h (map Some (map hn_T ?old)) = (fst (Rmv H h (map Some (map hn_T ?old))), h')"
    using assms(2) by (auto simp: RemAbv_def Let_def)
  show "mset h' \<subseteq># mset h" by (rule Rmv_spec(2) [OF r])
  have "image_mset (node_hash H) (mset h') = image_mset (node_hash H) (mset h) - image_mset (node_hash H) (mset ?old)"
    using Rmv_spec(1) [OF r] by (simp add: image_mset.compositionality comp_def)
  also have "\<dots> = image_mset (node_hash H) (filter_mset (\<lambda>n. hn_P n < thresh) (mset h))"
    by (subst split) simp
  finally show "image_mset (node_hash H) (mset h') = image_mset (node_hash H) (filter_mset (\<lambda>n. hn_P n < thresh) (mset h))" .
qed simp

lemma RemAbv_heap: "RemAbv H h thresh = (rem, h') \<Longrightarrow> pri_heap h'"
  unfolding RemAbv_def Let_def by (metis Rmv_spec(3) prod.collapse snd_conv)

section \<open>The contract of the queue\<close>

lemma diff_plus_inter_mset: "(A - B) + (B \<inter># A) = (A :: 'a multiset)"
proof (rule multiset_eqI)
  fix x
  show "count (A - B + (B \<inter># A)) x = count A x"
    by (cases "count A x \<le> count B x") (simp_all add: min_def)
qed

text \<open>Two families related element by element through a common key.\<close>

lemma image_mset_via:
  assumes "image_mset f M = mset (map g xs)"
    and "\<And>m x. m \<in># M \<Longrightarrow> x \<in> set xs \<Longrightarrow> f m = g x \<Longrightarrow> p m = s x"
  shows "image_mset p M = mset (map s xs)"
  using assms
proof (induction xs arbitrary: M)
  case (Cons x xs)
  have "g x \<in># image_mset f M" using Cons.prems(1) by simp
  then obtain m where m: "m \<in># M" "f m = g x" by auto
  then have M: "M = add_mset m (M - {#m#})" by simp
  have "image_mset f (M - {#m#}) = mset (map g xs)" using Cons.prems(1) m image_mset_diff1 [OF m(1), of f] by simp
  then have "image_mset p (M - {#m#}) = mset (map s xs)"
    by (rule Cons.IH) (use Cons.prems(2) in_diffD in force)
  moreover have "p m = s x" using Cons.prems(2) m by simp
  ultimately show ?case by (subst M) simp
qed simp

locale tx_queue =
  fixes ok :: "'q \<Rightarrow> bool"
    and nodes :: "'q \<Rightarrow> HeapNode multiset"
    and hash :: "Transaction \<Rightarrow> string"
    and add :: "u32 \<Rightarrow> Transaction option \<Rightarrow> 'q \<Rightarrow> 'q"
    and rmv :: "'q \<Rightarrow> Transaction option list \<Rightarrow> Transaction list \<times> 'q"
  assumes add_nodes: "nodes (add p (Some t) q) = add_mset \<lparr>hn_P = p, hn_T = t\<rparr> (nodes q)"
    and add_nil: "add p None q = q"
    and add_ok: "ok q \<Longrightarrow> ok (add p to q)"
    and rmv_hashes: "rmv q (map Some ts) = (r, q') \<Longrightarrow>
      image_mset (\<lambda>n. hash (hn_T n)) (nodes q') = image_mset (\<lambda>n. hash (hn_T n)) (nodes q) - mset (map hash ts)"
    and rmv_result: "rmv q (map Some ts) = (r, q') \<Longrightarrow>
      mset (map hash r) = mset (map hash ts) \<inter># image_mset (\<lambda>n. hash (hn_T n)) (nodes q)"
    and rmv_result_set: "rmv q (map Some ts) = (r, q') \<Longrightarrow> set r \<subseteq> set ts"
    and rmv_sub: "rmv q (map Some ts) = (r, q') \<Longrightarrow> nodes q' \<subseteq># nodes q"
    and rmv_ok: "rmv q (map Some ts) = (r, q') \<Longrightarrow> ok q'"
begin

lemma rmv_size:
  assumes "rmv q (map Some ts) = (r, q')"
  shows "size (nodes q') + length r = size (nodes q)"
proof -
  let ?A = "image_mset (\<lambda>n. hash (hn_T n)) (nodes q)" and ?B = "mset (map hash ts)"
  have "size (nodes q') = size (?A - ?B)" using rmv_hashes [OF assms] by (metis size_image_mset)
  moreover have "length r = size (?B \<inter># ?A)" using rmv_result [OF assms] by (metis length_map size_mset)
  ultimately show ?thesis by (metis diff_plus_inter_mset size_image_mset size_union)
qed

text \<open>A transaction that was listed is gone, unless it was queued more than once.\<close>

lemma rmv_gone:
  assumes "rmv q (map Some ts) = (r, q')" "t \<in> set ts"
    and "count (image_mset (\<lambda>n. hash (hn_T n)) (nodes q)) (hash t) \<le> 1"
  shows "hash t \<notin># image_mset (\<lambda>n. hash (hn_T n)) (nodes q')"
proof -
  have "count (mset (map hash ts)) (hash t) \<ge> 1" using assms(2) by (simp add: Suc_le_eq count_greater_zero_iff)
  with assms(3) have "count (image_mset (\<lambda>n. hash (hn_T n)) (nodes q)) (hash t) \<le> count (mset (map hash ts)) (hash t)"
    by (rule order_trans)
  then have "count (image_mset (\<lambda>n. hash (hn_T n)) (nodes q')) (hash t) = 0"
    unfolding rmv_hashes [OF assms(1)] count_diff by simp
  then show ?thesis by (simp add: count_eq_zero_iff)
qed

text \<open>The removed priorities, recomputed from the listed transactions, balance the queue's total.\<close>

lemma rmv_total:
  assumes rm: "rmv q (map Some ts) = (r, q')"
    and pri: "\<And>n. n \<in># nodes q \<Longrightarrow> hn_P n = pri (hn_T n)"
    and det: "\<And>n t. n \<in># nodes q \<Longrightarrow> t \<in> set ts \<Longrightarrow> hash (hn_T n) = hash t \<Longrightarrow> pri (hn_T n) = pri t"
  shows "sum_mset (image_mset hn_P (nodes q')) + sum_list (map pri r) = sum_mset (image_mset hn_P (nodes q))"
proof -
  let ?f = "\<lambda>n. hash (hn_T n)"
  let ?A = "image_mset ?f (nodes q)" and ?B = "mset (map hash ts)"
  have "\<exists>C. nodes q = nodes q' + C" using rmv_sub [OF rm] by (metis mset_subset_eq_exists_conv)
  then obtain C where C: "nodes q = nodes q' + C" ..
  have "?A - ?B + image_mset ?f C = ?A" using rmv_hashes [OF rm] C by simp
  then have im: "image_mset ?f C = mset (map hash r)"
    using rmv_result [OF rm] diff_plus_inter_mset [of ?A ?B] by (metis add_left_imp_eq)
  have "image_mset hn_P C = mset (map pri r)"
  proof (rule image_mset_via [of ?f C hash r])
    fix n t assume "n \<in># C" "t \<in> set r" "?f n = hash t"
    moreover from this have "n \<in># nodes q" "t \<in> set ts" using C rmv_result_set [OF rm] by auto
    ultimately show "hn_P n = pri t" using pri det by metis
  qed (rule im)
  then have "sum_mset (image_mset hn_P C) = sum_list (map pri r)" by (metis sum_mset_sum_list)
  with C show ?thesis by simp
qed

end

interpretation hq: tx_queue pri_heap mset "Transaction_Hash H" Heap_Add "Rmv H" for H
proof unfold_locales
  fix q q' :: Heap and ts r
  assume "Rmv H q (map Some ts) = (r, q')"
  note spec = Rmv_spec [OF this] Rmv_set [OF this]
  show "image_mset (node_hash H) (mset q') = image_mset (node_hash H) (mset q) - mset (map (Transaction_Hash H) ts)"
    and "mset (map (Transaction_Hash H) r) = mset (map (Transaction_Hash H) ts) \<inter># image_mset (node_hash H) (mset q)"
    and "set r \<subseteq> set ts" and "mset q' \<subseteq># mset q" and "pri_heap q'"
    by (rule spec)+
qed (simp_all add: Heap_Add_heap)

text \<open>The wallet also ages its queue and takes out what is too old.\<close>

locale aging_queue = tx_queue +
  fixes inc_all :: "'a \<Rightarrow> 'a" and rem_abv :: "'a \<Rightarrow> u32 \<Rightarrow> Transaction list \<times> 'a"
  assumes inc_nodes: "nodes (inc_all q) = image_mset (\<lambda>n. n\<lparr>hn_P := hn_P n + 1\<rparr>) (nodes q)"
    and rem_result: "rem_abv q k = (rem, q') \<Longrightarrow> mset rem = image_mset hn_T (filter_mset (\<lambda>n. hn_P n \<ge> k) (nodes q))"
    and rem_nodes: "rem_abv q k = (rem, q') \<Longrightarrow> (\<And>x. count (image_mset (\<lambda>n. hash (hn_T n)) (nodes q)) x \<le> 1) \<Longrightarrow>
      nodes q' = filter_mset (\<lambda>n. hn_P n < k) (nodes q)"
    and rem_ok: "rem_abv q k = (rem, q') \<Longrightarrow> ok q'"
begin

text \<open>Expiry takes out and reports the same transactions, and leaves the younger ones.\<close>

lemma rem_partition:
  assumes "rem_abv q k = (rem, q')" "\<And>x. count (image_mset (\<lambda>n. hash (hn_T n)) (nodes q)) x \<le> 1"
  shows "image_mset hn_T (nodes q) = image_mset hn_T (nodes q') + mset rem"
    and "n \<in># nodes q' \<Longrightarrow> hn_P n < k"
proof -
  have q': "nodes q' = filter_mset (\<lambda>n. hn_P n < k) (nodes q)" by (rule rem_nodes [OF assms])
  moreover have "nodes q = filter_mset (\<lambda>n. hn_P n < k) (nodes q) + filter_mset (\<lambda>n. hn_P n \<ge> k) (nodes q)"
    using multiset_partition [of "nodes q" "\<lambda>n. hn_P n < k"] by (simp add: not_less)
  ultimately show "image_mset hn_T (nodes q) = image_mset hn_T (nodes q') + mset rem"
    using rem_result [OF assms(1)] by (metis image_mset_union)
  show "n \<in># nodes q' \<Longrightarrow> hn_P n < k" using q' by simp
qed

end

lemma distinct_count_le: "(\<And>x. count (mset xs) x \<le> 1) \<Longrightarrow> distinct xs"
proof (induction xs)
  case (Cons a xs)
  have "count (mset xs) x \<le> 1" for x
    using Cons.prems [of x] by (rule order_trans [rotated]) simp
  moreover have "count (mset xs) a = 0" using Cons.prems [of a] by simp
  ultimately show ?case using Cons.IH by (simp add: count_eq_zero_iff)
qed simp

lemma distinct_map_count: "distinct (map f xs) \<Longrightarrow> count (image_mset f (mset xs)) x \<le> 1"
  by (metis distinct_count_atmost_1 mset_map order_refl zero_le)

lemma RemAbv_result: "RemAbv H h k = (rem, h') \<Longrightarrow> mset rem = image_mset hn_T (filter_mset (\<lambda>n. hn_P n \<ge> k) (mset h))"
  by (auto simp: RemAbv_def Let_def)

interpretation ha: aging_queue pri_heap mset "Transaction_Hash H" Heap_Add "Rmv H" IncAll "RemAbv H" for H
proof unfold_locales
  fix q q' :: Heap and k rem
  assume q: "RemAbv H q k = (rem, q')" "\<And>x. count (image_mset (node_hash H) (mset q)) x \<le> 1"
  have "distinct (map (node_hash H) q)" using q(2) by (intro distinct_count_le) simp
  then show "mset q' = filter_mset (\<lambda>n. hn_P n < k) (mset q)" using q(1) by (rule RemAbv_mset)
qed (auto simp: IncAll_def RemAbv_result dest: RemAbv_heap)

section \<open>Properties\<close>

text \<open>
  C29: The transaction queue stays a heap. From a heap, adding, removing a list without a nil entry and expiring give a heap again; so does ageing, as long
  as no priority in the heap is the largest 32-bit number; and in a heap the node at index 0 has the largest priority. (A list with a nil entry leaves
  the queue as it was cut: \<open>Rmv_nil_breaks_heap\<close>.)
\<close>

theorem tx_heap_invariant:
  assumes "pri_heap h"
  shows "pri_heap (Heap_Add p t h) \<and> (None \<notin> set os \<longrightarrow> pri_heap (snd (Rmv H h os))) \<and> pri_heap (snd (RemAbv H h k))
    \<and> ((\<forall>n \<in> set h. hn_P n \<noteq> - 1) \<longrightarrow> pri_heap (IncAll h)) \<and> (\<forall>i < length h. hn_P (h ! i) \<le> hn_P (h ! 0))"
proof (intro conjI allI impI)
  show "pri_heap (snd (RemAbv H h k))" using ha.rem_ok prod.collapse by metis
  show "pri_heap (snd (Rmv H h os))" if "None \<notin> set os"
  proof -
    from that obtain ts where "os = map Some ts" by (metis ex_map_conv not_None_eq)
    then show ?thesis using hq.rmv_ok prod.collapse by metis
  qed
  fix i assume "i < length h"
  then have "\<not> Heap_Less (h ! i) (h ! 0)" using tq.heap_root_max [OF assms(1)] by simp
  then show "hn_P (h ! i) \<le> hn_P (h ! 0)" by (simp add: Heap_Less_def not_less)
qed (simp_all add: Heap_Add_heap IncAll_heap assms)

lemma demo_heap: "pri_heap [\<lparr>hn_P = 5, hn_T = demo_tx 1\<rparr>, \<lparr>hn_P = 3, hn_T = demo_tx 2\<rparr>, \<lparr>hn_P = 4, hn_T = demo_tx 3\<rparr>]"
  by (auto simp: is_heap_def Heap_Less_def less_Suc_eq numeral_3_eq_3)

theorem tx_heap_invariant_witness:
  "pri_heap (Heap_Add 9 (Some (demo_tx 4)) [\<lparr>hn_P = 5, hn_T = demo_tx 1\<rparr>, \<lparr>hn_P = 3, hn_T = demo_tx 2\<rparr>, \<lparr>hn_P = 4, hn_T = demo_tx 3\<rparr>])
   \<and> pri_heap (IncAll [\<lparr>hn_P = 5, hn_T = demo_tx 1\<rparr>, \<lparr>hn_P = 3, hn_T = demo_tx 2\<rparr>, \<lparr>hn_P = 4, hn_T = demo_tx 3\<rparr>])"
  using tx_heap_invariant [OF demo_heap, of 9 "Some (demo_tx 4)" "[]"] by simp

text \<open>
  Removal by hash. For a list without nil entries, each listed transaction takes exactly one
  queued transaction with its hash out of the queue if there is one; the result lists the
  transactions that were found, and as many nodes leave the queue as transactions are listed
  in the result.
\<close>

theorem Rmv_removes:
  assumes "Rmv H h (map Some ts) = (r, h')"
  shows "image_mset (node_hash H) (mset h') = image_mset (node_hash H) (mset h) - mset (map (Transaction_Hash H) ts)
    \<and> mset (map (Transaction_Hash H) r) = mset (map (Transaction_Hash H) ts) \<inter># image_mset (node_hash H) (mset h)
    \<and> mset h' \<subseteq># mset h \<and> length h' + length r = length h"
  using hq.rmv_hashes [OF assms] hq.rmv_result [OF assms] hq.rmv_sub [OF assms] hq.rmv_size [OF assms]
  by simp

theorem Rmv_removes_witness:
  "length (snd (Rmv length_digest [\<lparr>hn_P = 5, hn_T = demo_tx 1\<rparr>] (map Some [demo_tx 1])))
    + length (fst (Rmv length_digest [\<lparr>hn_P = 5, hn_T = demo_tx 1\<rparr>] (map Some [demo_tx 1]))) = 1"
proof -
  let ?h = "[\<lparr>hn_P = 5, hn_T = demo_tx 1\<rparr>]"
  have "length (snd (Rmv length_digest ?h (map Some [demo_tx 1]))) + length (fst (Rmv length_digest ?h (map Some [demo_tx 1])))
      = length ?h"
    using Rmv_removes [OF prod.collapse [symmetric]] by blast
  then show ?thesis by (simp only: list.size One_nat_def)
qed

text \<open>
  Expiry. When the queued transactions have distinct hashes, \<open>RemAbv\<close> reports exactly the
  transactions whose priority reached the threshold and leaves exactly the nodes below it.
\<close>

theorem RemAbv_exact:
  assumes "distinct (map (node_hash H) h)" "RemAbv H h k = (rem, h')"
  shows "mset rem = image_mset hn_T (filter_mset (\<lambda>n. hn_P n \<ge> k) (mset h))
    \<and> mset h' = filter_mset (\<lambda>n. hn_P n < k) (mset h)"
  using ha.rem_result [OF assms(2)] ha.rem_nodes [OF assms(2) distinct_map_count [OF assms(1)]] by simp

theorem RemAbv_exact_witness:
  "mset (fst (RemAbv length_digest [\<lparr>hn_P = 5, hn_T = demo_tx 1\<rparr>, \<lparr>hn_P = 2, hn_T = demo_tx 10\<rparr>] 3)) = {#demo_tx 1#}
   \<and> mset (snd (RemAbv length_digest [\<lparr>hn_P = 5, hn_T = demo_tx 1\<rparr>, \<lparr>hn_P = 2, hn_T = demo_tx 10\<rparr>] 3))
       = {#\<lparr>hn_P = 2, hn_T = demo_tx 10\<rparr>#}"
proof -
  let ?h = "[\<lparr>hn_P = 5, hn_T = demo_tx 1\<rparr>, \<lparr>hn_P = 2, hn_T = demo_tx 10\<rparr>]"
  have "distinct (map (node_hash length_digest) ?h)"
    by (simp add: Transaction_Hash_def Transaction_data_def demo_tx_def utils_Hash_inj length_digest_def eval_simps)
  from RemAbv_exact [OF this prod.collapse [symmetric], of 3]
  show ?thesis by simp
qed

text \<open>
  A nil entry hides the removals. When the list holds a nil transaction, \<open>Rmv\<close> answers
  that nothing was removed, although the transactions listed before the nil entry have left the
  queue.
\<close>

theorem Rmv_nil_entry:
  "fst (Rmv H h (map Some ts @ None # us)) = [] \<and>
   image_mset (node_hash H) (mset (snd (Rmv H h (map Some ts @ None # us))))
     = image_mset (node_hash H) (mset h) - mset (map (Transaction_Hash H) ts)"
proof -
  have "fst (Rmv_loop H h r (map Some ts @ None # us)) = [] \<and>
      mset (snd (Rmv_loop H h r (map Some ts @ None # us))) = mset (snd (Rmv_loop H h r (map Some ts)))" for r
    by (induction ts arbitrary: h r) (auto split: prod.splits)
  moreover have "Rmv H h (map Some ts) = (fst (Rmv H h (map Some ts)), snd (Rmv H h (map Some ts)))" by simp
  note hq.rmv_hashes [OF this]
  ultimately show ?thesis by (simp add: Rmv_def)
qed

text \<open>
  A nil entry leaves an array that is no heap: \<open>Rmv\<close> returns at the nil entry, before it restores the order.
\<close>

theorem Rmv_nil_breaks_heap:
  fixes t u v :: Transaction
  defines "h \<equiv> [\<lparr>hn_P = 10, hn_T = t\<rparr>, \<lparr>hn_P = 9, hn_T = u\<rparr>, \<lparr>hn_P = 8, hn_T = v\<rparr>]"
  shows "pri_heap h \<and> \<not> pri_heap (snd (Rmv H h [Some t, None]))"
proof -
  have "pri_heap h" by (auto simp: h_def is_heap_def Heap_Less_def less_Suc_eq numeral_3_eq_3)
  moreover have "snd (Rmv H h [Some t, None]) = [\<lparr>hn_P = 8, hn_T = v\<rparr>, \<lparr>hn_P = 9, hn_T = u\<rparr>]"
    by (simp add: h_def Rmv_def GetIndex_def heap_Swap_def)
  moreover have "\<not> pri_heap [\<lparr>hn_P = 8, hn_T = v\<rparr>, \<lparr>hn_P = 9, hn_T = u\<rparr>]" by (auto simp: is_heap_def Heap_Less_def)
  ultimately show ?thesis by simp
qed

text \<open>
  \<open>Peek\<close> looks at the wrong end. Its comment promises the top element; on a queue that holds
  priorities 5 and 1 it returns the node with priority 1.
\<close>

theorem Peek_not_top:
  "Heap_Peek (Heap_Add 1 (Some t) (Heap_Add 5 (Some s) NewTxHeap)) = Inr \<lparr>hn_P = 1, hn_T = t\<rparr>
   \<and> Heap_Add 1 (Some t) (Heap_Add 5 (Some s) NewTxHeap) ! 0 = \<lparr>hn_P = 5, hn_T = s\<rparr>"
  by (simp add: Heap_Add_def heap_Push_def heap_up_unfold Heap_Less_def Heap_Peek_def)

end
