(* ===== verification/Tx_Pool.thy ===== *)
theory Tx_Pool
  imports Tx_Heap
begin

text \<open>
  \<^verbatim>\<open>pkg/miner/config.go\<close> and \<^verbatim>\<open>pkg/miner/tx_pool.go\<close>: the settings of a miner and its pool of
  transactions waiting to be mined. The pool keeps the sum of the priorities and the number of the
  queued transactions next to the queue; the invariant \<open>pool_ok\<close> says that these two agree with
  the queue, and it rests on the contract of the queue. Atomics are plain fields: every
  operation that changes them holds the mutex.
\<close>

section \<open>config.go\<close>

record mnr_Config =
  HasMnr :: bool
  mc_Ver :: u32
  DefLckTm :: u32
  TxPCap :: u32
  mc_PriLim :: u32
  BlkSz :: u32
  NncLim :: u32
  InitSubsdy :: u32
  SubsdyHlvRt :: u32
  MxHlvgs :: u32
  InitPOWD :: string

definition mnr_DefaultConfig :: "int \<Rightarrow> mnr_Config" where
  "mnr_DefaultConfig powdNumZeros =
     \<lparr>HasMnr = True, mc_Ver = 0, DefLckTm = 0, TxPCap = 50, mc_PriLim = 10, BlkSz = 1000, NncLim = 2 ^ 20,
      InitSubsdy = 10, SubsdyHlvRt = 10, MxHlvgs = 10, InitPOWD = CalcPOWD powdNumZeros\<rparr>"

definition mnr_NilConfig :: "int \<Rightarrow> mnr_Config" where
  "mnr_NilConfig powdNumZeros =
     \<lparr>HasMnr = False, mc_Ver = 0, DefLckTm = 0, TxPCap = 50, mc_PriLim = 10, BlkSz = 1000, NncLim = 2 ^ 20,
      InitSubsdy = 10, SubsdyHlvRt = 10, MxHlvgs = 10, InitPOWD = CalcPOWD powdNumZeros\<rparr>"

definition SmallTxPCapConfig :: "int \<Rightarrow> mnr_Config" where
  "SmallTxPCapConfig powdNumZeros =
     \<lparr>HasMnr = True, mc_Ver = 0, DefLckTm = 0, TxPCap = 1, mc_PriLim = 10, BlkSz = 1000, NncLim = 2 ^ 20,
      InitSubsdy = 10, SubsdyHlvRt = 10, MxHlvgs = 10, InitPOWD = CalcPOWD powdNumZeros\<rparr>"

section \<open>tx_pool.go\<close>

record TxPool =
  CurPri :: u32
  tp_PriLim :: u32
  TxQ :: Heap
  Ct :: u32
  Cap :: u32

definition TxPool_Length :: "TxPool \<Rightarrow> u32" where
  "TxPool_Length tp = Ct tp"

definition NewTxPool :: "mnr_Config \<Rightarrow> TxPool" where
  "NewTxPool c = \<lparr>CurPri = 0, tp_PriLim = mc_PriLim c, TxQ = NewTxHeap, Ct = 0, Cap = TxPCap c\<rparr>"

definition PriMet :: "TxPool \<Rightarrow> bool" where
  "PriMet tp \<longleftrightarrow> CurPri tp \<ge> tp_PriLim tp"

definition CalcPri :: "Transaction option \<Rightarrow> u32" where
  "CalcPri t =
     (case t of
        None \<Rightarrow> 0
      | Some t \<Rightarrow>
          let factor = 100; fee = SumInputs t - SumOutputs t
          in if Transaction_Sz t = 0 then 1
             else let pri = fee * factor div Transaction_Sz t in if pri = 0 then 1 else pri)"

definition TxPool_Add :: "Transaction option \<Rightarrow> TxPool \<Rightarrow> TxPool" where
  "TxPool_Add t tp =
     (if t = None then tp
      else if Ct tp \<ge> Cap tp then tp
      else let pri = CalcPri t
           in tp\<lparr>CurPri := CurPri tp + pri, Ct := Ct tp + 1, TxQ := Heap_Add pri t (TxQ tp)\<rparr>)"

definition TxPool_ChkTxs :: "(byte list \<Rightarrow> byte list) \<Rightarrow> Transaction option list \<Rightarrow> TxPool \<Rightarrow> TxPool" where
  "TxPool_ChkTxs H remover tp =
     (if None \<in> set remover then tp
      else case Rmv H (TxQ tp) remover of (rmvTxs, q) \<Rightarrow>
        foldl (\<lambda>tp t. tp\<lparr>CurPri := CurPri tp - CalcPri (Some t), Ct := Ct tp - 1\<rparr>) (tp\<lparr>TxQ := q\<rparr>) rmvTxs)"

section \<open>Invariant\<close>

text \<open>What holds of every pool, and the cumulative priority.\<close>

definition pool_books :: "TxPool \<Rightarrow> bool" where
  "pool_books tp \<longleftrightarrow> pri_heap (TxQ tp)
     \<and> (\<forall>n \<in> set (TxQ tp). hn_P n = CalcPri (Some (hn_T n)))
     \<and> Ct tp = word_of_nat (length (TxQ tp)) \<and> length (TxQ tp) \<le> unat (Cap tp)"

definition pool_ok :: "TxPool \<Rightarrow> bool" where
  "pool_ok tp \<longleftrightarrow> pool_books tp \<and> CurPri tp = sum_list (map hn_P (TxQ tp))"

lemma pool_books_New: "pool_books (NewTxPool c)"
  by (simp add: pool_books_def NewTxPool_def is_heap_def)

lemma pool_ok_New: "pool_ok (NewTxPool c)"
  by (simp add: pool_ok_def pool_books_New) (simp add: NewTxPool_def)

lemma pool_Ct: "pool_books tp \<Longrightarrow> unat (Ct tp) = length (TxQ tp)"
  using unat_u32_less [of "Cap tp"] by (simp add: pool_books_def unat_of_nat_u32)

lemma pool_Add_books:
  assumes "pool_books tp"
  shows "pool_books (TxPool_Add t tp) \<and> (CurPri tp = sum_list (map hn_P (TxQ tp)) \<longrightarrow> CurPri (TxPool_Add t tp) = sum_list (map hn_P (TxQ (TxPool_Add t tp))))"
proof (cases "t = None \<or> Ct tp \<ge> Cap tp")
  case False
  note ok = assms
  obtain t' where t: "t = Some t'" using False by auto
  let ?q = "Heap_Add (CalcPri t) t (TxQ tp)"
  have ms: "mset ?q = add_mset \<lparr>hn_P = CalcPri t, hn_T = t'\<rparr> (mset (TxQ tp))" by (simp add: t)
  then have st: "set ?q = insert \<lparr>hn_P = CalcPri t, hn_T = t'\<rparr> (set (TxQ tp))" and ln: "length ?q = Suc (length (TxQ tp))"
    by (metis set_mset_add_mset_insert set_mset_mset, metis size_add_mset size_mset)
  have "sum_list (map hn_P ?q) = CalcPri t + sum_list (map hn_P (TxQ tp))"
    by (simp add: sum_mset_sum_list [symmetric] ms)
  moreover have "length (TxQ tp) < unat (Cap tp)"
    using False pool_Ct [OF ok] by (simp add: not_le word_less_nat_alt)
  ultimately show ?thesis using ok False st ln
    by (auto simp: pool_books_def TxPool_Add_def Let_def Heap_Add_heap t add.commute)
qed (use assms in \<open>auto simp: TxPool_Add_def\<close>)

lemmas pool_books_Add = pool_Add_books [THEN conjunct1]

lemma pool_ok_Add: "pool_ok tp \<Longrightarrow> pool_ok (TxPool_Add t tp)"
  using pool_Add_books [of tp t] by (simp add: pool_ok_def)

lemma ChkTxs_fold:
  "foldl (\<lambda>tp t. tp\<lparr>CurPri := CurPri tp - f t, Ct := Ct tp - 1\<rparr>) tp ts =
     tp\<lparr>CurPri := CurPri tp - sum_list (map f ts), Ct := Ct tp - word_of_nat (length ts)\<rparr>"
  by (induction ts arbitrary: tp) (simp_all add: diff_diff_eq)

lemma ChkTxs_eq:
  "TxPool_ChkTxs H (map Some ts) tp = (case Rmv H (TxQ tp) (map Some ts) of (r, q) \<Rightarrow>
     tp\<lparr>TxQ := q, CurPri := CurPri tp - sum_list (map (CalcPri \<circ> Some) r), Ct := Ct tp - word_of_nat (length r)\<rparr>)"
  by (auto simp: TxPool_ChkTxs_def ChkTxs_fold comp_def split: prod.splits)

text \<open>Equal hashes give equal priorities between the queue and a list of transactions.\<close>

definition pri_by_hash :: "(byte list \<Rightarrow> byte list) \<Rightarrow> Heap \<Rightarrow> Transaction list \<Rightarrow> bool" where
  "pri_by_hash H q ts \<longleftrightarrow> (\<forall>n \<in> set q. \<forall>t \<in> set ts.
     node_hash H n = Transaction_Hash H t \<longrightarrow> CalcPri (Some (hn_T n)) = CalcPri (Some t))"

lemma pool_books_ChkTxs:
  assumes "pool_books tp"
  shows "pool_books (TxPool_ChkTxs H (map Some ts) tp)"
proof -
  obtain r q where rm: "Rmv H (TxQ tp) (map Some ts) = (r, q)" by fastforce
  have sub: "set q \<subseteq> set (TxQ tp)" using hq.rmv_sub [OF rm] by (metis set_mset_mono set_mset_mset)
  have sz: "length q + length r = length (TxQ tp)" using hq.rmv_size [OF rm] by simp
  have "Ct tp - word_of_nat (length r) = word_of_nat (length q)"
    using assms(1) sz by (metis add_diff_cancel_right' of_nat_add pool_books_def)
  moreover have "pri_heap q" by (rule hq.rmv_ok [OF rm])
  ultimately show ?thesis using assms(1) sub sz by (auto simp: ChkTxs_eq rm pool_books_def)
qed

lemma pool_ok_ChkTxs:
  assumes "pool_ok tp" "pri_by_hash H (TxQ tp) ts"
  shows "pool_ok (TxPool_ChkTxs H (map Some ts) tp)"
proof -
  obtain r q where rm: "Rmv H (TxQ tp) (map Some ts) = (r, q)" by fastforce
  have "sum_list (map hn_P q) + sum_list (map (CalcPri \<circ> Some) r) = sum_list (map hn_P (TxQ tp))"
    using hq.rmv_total [OF rm, of "CalcPri \<circ> Some"] assms by (auto simp: pool_ok_def pool_books_def pri_by_hash_def sum_mset_sum_list [symmetric])
  then have "CurPri tp - sum_list (map (CalcPri \<circ> Some) r) = sum_list (map hn_P q)"
    using assms(1) by (metis add_diff_cancel_right' pool_ok_def)
  then show ?thesis using pool_books_ChkTxs [of tp H ts] assms(1) by (auto simp: ChkTxs_eq rm pool_ok_def)
qed

section \<open>Properties\<close>

text \<open>
  The pools that can arise, with the set of all transactions that were ever offered to the pool or listed for removal.
\<close>

inductive pool_run :: "(byte list \<Rightarrow> byte list) \<Rightarrow> mnr_Config \<Rightarrow> Transaction set \<Rightarrow> TxPool \<Rightarrow> bool" for H c where
  pool_new: "pool_run H c {} (NewTxPool c)"
| pool_add: "pool_run H c T tp \<Longrightarrow> pool_run H c (set_option t \<union> T) (TxPool_Add t tp)"
| pool_chk: "pool_run H c T tp \<Longrightarrow> pool_run H c ({t. Some t \<in> set os} \<union> T) (TxPool_ChkTxs H os tp)"

text \<open>Equal hashes give equal priorities.\<close>

definition hash_fixes_pri :: "(byte list \<Rightarrow> byte list) \<Rightarrow> Transaction set \<Rightarrow> bool" where
  "hash_fixes_pri H T \<longleftrightarrow> (\<forall>s \<in> T. \<forall>t \<in> T. Transaction_Hash H s = Transaction_Hash H t \<longrightarrow> CalcPri (Some s) = CalcPri (Some t))"

lemma Add_queue: "set (TxQ (TxPool_Add t tp)) \<subseteq> set (TxQ tp) \<union> {n. Some (hn_T n) = t}"
proof (cases t)
  case (Some x)
  have "mset (Heap_Add (CalcPri t) t (TxQ tp)) = add_mset \<lparr>hn_P = CalcPri t, hn_T = x\<rparr> (mset (TxQ tp))" by (simp add: Some)
  then have "set (Heap_Add (CalcPri t) t (TxQ tp)) = insert \<lparr>hn_P = CalcPri t, hn_T = x\<rparr> (set (TxQ tp))"
    by (metis set_mset_add_mset_insert set_mset_mset)
  then show ?thesis by (auto simp: TxPool_Add_def Let_def Some)
qed (simp add: TxPool_Add_def)

lemma ChkTxs_nil: "None \<in> set os \<Longrightarrow> TxPool_ChkTxs H os tp = tp"
  by (simp add: TxPool_ChkTxs_def)

lemma ChkTxs_cases:
  obtains (nil) "None \<in> set os" | (txs) ts where "os = map Some ts"
  by (metis ex_map_conv not_None_eq)

lemma ChkTxs_queue: "set (TxQ (TxPool_ChkTxs H os tp)) \<subseteq> set (TxQ tp)"
proof (cases os rule: ChkTxs_cases)
  case (txs ts)
  obtain r q where rm: "Rmv H (TxQ tp) (map Some ts) = (r, q)" by fastforce
  have "set q \<subseteq> set (TxQ tp)" using hq.rmv_sub [OF rm] by (metis set_mset_mono set_mset_mset)
  then show ?thesis by (simp add: txs ChkTxs_eq rm)
qed (simp add: ChkTxs_nil)

lemma pool_run_known: "pool_run H c T tp \<Longrightarrow> hn_T ` set (TxQ tp) \<subseteq> T"
proof (induction rule: pool_run.induct)
  case (pool_add T tp t)
  then show ?case using Add_queue [of t tp] by (cases t) auto
next
  case (pool_chk T tp os)
  then show ?case using ChkTxs_queue [of H os tp] by auto
qed (simp add: NewTxPool_def)

lemma pool_run_conf: "pool_run H c T tp \<Longrightarrow> Cap tp = TxPCap c \<and> tp_PriLim tp = mc_PriLim c"
proof (induction rule: pool_run.induct)
  case (pool_add T tp t)
  then show ?case by (simp add: TxPool_Add_def Let_def)
next
  case (pool_chk T tp os)
  then show ?case by (cases os rule: ChkTxs_cases) (simp_all add: ChkTxs_nil ChkTxs_eq split: prod.splits)
qed (simp add: NewTxPool_def)

lemma pool_run_books: "pool_run H c T tp \<Longrightarrow> pool_books tp"
proof (induction rule: pool_run.induct)
  case (pool_chk T tp os)
  then show ?case by (cases os rule: ChkTxs_cases) (simp_all add: ChkTxs_nil pool_books_ChkTxs)
qed (simp_all add: pool_books_New pool_books_Add)

lemma pool_run_ok: "pool_run H c T tp \<Longrightarrow> hash_fixes_pri H T \<Longrightarrow> pool_ok tp"
proof (induction rule: pool_run.induct)
  case (pool_add T tp t)
  then show ?case by (intro pool_ok_Add) (simp_all add: hash_fixes_pri_def)
next
  case (pool_chk T tp os)
  show ?case
  proof (cases os rule: ChkTxs_cases)
    case (txs ts)
    have "pri_by_hash H (TxQ tp) ts"
      using pool_chk.prems pool_run_known [OF pool_chk.hyps] by (auto simp: hash_fixes_pri_def pri_by_hash_def txs image_subset_iff)
    then show ?thesis using pool_chk.IH pool_chk.prems by (simp add: txs pool_ok_ChkTxs hash_fixes_pri_def)
  qed (use pool_chk in \<open>simp add: ChkTxs_nil hash_fixes_pri_def\<close>)
qed (simp add: pool_ok_New)

text \<open>
  C28: The pool keeps its books. In every reachable pool, whatever was added to it and listed for removal, the counter is the number of queued
  transactions and at most the capacity, each node carries the priority of its transaction, and the queue is a heap. When, among
  all transactions that were ever offered or listed, equal hashes mean equal priorities, the cumulative priority is the sum, modulo \<open>2 ^ 32\<close>, of
  the priorities of the queued transactions, and mining may start exactly when that sum reaches the limit. (Without that condition the
  cumulative priority drifts: \<open>equal_hash_drift\<close>.)
\<close>

theorem tx_pool_invariant:
  assumes "pool_run H c T tp"
  shows "unat (TxPool_Length tp) = length (TxQ tp) \<and> length (TxQ tp) \<le> unat (TxPCap c)
    \<and> (\<forall>n \<in> set (TxQ tp). hn_P n = CalcPri (Some (hn_T n))) \<and> pri_heap (TxQ tp)
    \<and> ((\<forall>s \<in> T. \<forall>t \<in> T. Transaction_Hash H s = Transaction_Hash H t \<longrightarrow> CalcPri (Some s) = CalcPri (Some t)) \<longrightarrow>
        CurPri tp = sum_list (map (\<lambda>n. CalcPri (Some (hn_T n))) (TxQ tp))
        \<and> (PriMet tp \<longleftrightarrow> mc_PriLim c \<le> sum_list (map (\<lambda>n. CalcPri (Some (hn_T n))) (TxQ tp))))"
proof -
  have b: "pool_books tp" and cap: "Cap tp = TxPCap c" "tp_PriLim tp = mc_PriLim c"
    using pool_run_books [OF assms] pool_run_conf [OF assms] by simp_all
  have sum: "CurPri tp = sum_list (map (\<lambda>n. CalcPri (Some (hn_T n))) (TxQ tp))" if "hash_fixes_pri H T"
  proof -
    have ok: "pool_ok tp" by (rule pool_run_ok [OF assms that])
    have m: "map hn_P (TxQ tp) = map (\<lambda>n. CalcPri (Some (hn_T n))) (TxQ tp)" using b by (simp add: pool_books_def)
    show ?thesis using ok unfolding m [symmetric] by (simp add: pool_ok_def)
  qed
  show ?thesis
    unfolding hash_fixes_pri_def [symmetric]
  proof (intro conjI impI)
    show "unat (TxPool_Length tp) = length (TxQ tp)" using pool_Ct [OF b] by (simp add: TxPool_Length_def)
    show "length (TxQ tp) \<le> unat (TxPCap c)" "\<forall>n \<in> set (TxQ tp). hn_P n = CalcPri (Some (hn_T n))" "pri_heap (TxQ tp)"
      using b cap by (simp_all add: pool_books_def)
    assume fixed: "hash_fixes_pri H T"
    show "CurPri tp = sum_list (map (\<lambda>n. CalcPri (Some (hn_T n))) (TxQ tp))" by (rule sum [OF fixed])
    then show "PriMet tp \<longleftrightarrow> mc_PriLim c \<le> sum_list (map (\<lambda>n. CalcPri (Some (hn_T n))) (TxQ tp))" by (simp add: PriMet_def cap)
  qed
qed

theorem tx_pool_invariant_witness:
  "unat (TxPool_Length (TxPool_Add (Some (demo_tx 2)) (TxPool_Add (Some (demo_tx 1)) (NewTxPool (SmallTxPCapConfig 3)))))
     = length (TxQ (TxPool_Add (Some (demo_tx 2)) (TxPool_Add (Some (demo_tx 1)) (NewTxPool (SmallTxPCapConfig 3)))))
   \<and> length (TxQ (TxPool_Add (Some (demo_tx 2)) (TxPool_Add (Some (demo_tx 1)) (NewTxPool (SmallTxPCapConfig 3))))) \<le> 1
   \<and> CurPri (TxPool_Add (Some (demo_tx 2)) (TxPool_Add (Some (demo_tx 1)) (NewTxPool (SmallTxPCapConfig 3))))
     = sum_list (map (\<lambda>n. CalcPri (Some (hn_T n))) (TxQ (TxPool_Add (Some (demo_tx 2)) (TxPool_Add (Some (demo_tx 1)) (NewTxPool (SmallTxPCapConfig 3))))))"
proof -
  have "CalcPri (Some (demo_tx k)) = 1" for k
    by (simp add: CalcPri_def demo_tx_def SumInputs_def SumOutputs_def Let_def)
  then show ?thesis
    using tx_pool_invariant [OF pool_add [OF pool_add [OF pool_new [where H = sha256_Sum256 and c = "SmallTxPCapConfig 3"]]], of "Some (demo_tx 2)" "Some (demo_tx 1)"]
    by (simp add: SmallTxPCapConfig_def)
qed

text \<open>
  Equal hashes let the cumulative priority drift. When a block lists a transaction with the hash of a queued one, the queued one leaves and the
  priority of the listed one is subtracted. There are different transactions of equal hash for every digest (\<open>transaction_hash_ambiguous\<close>).
\<close>

theorem equal_hash_drift:
  assumes "Transaction_Hash H s = Transaction_Hash H t" "TxPCap c \<noteq> 0"
  shows "TxQ (TxPool_ChkTxs H [Some t] (TxPool_Add (Some s) (NewTxPool c))) = []
    \<and> CurPri (TxPool_ChkTxs H [Some t] (TxPool_Add (Some s) (NewTxPool c))) = CalcPri (Some s) - CalcPri (Some t)"
proof -
  let ?tp = "TxPool_Add (Some s) (NewTxPool c)"
  obtain r q where rm: "Rmv H (TxQ ?tp) (map Some [t]) = (r, q)" by fastforce
  have q0: "mset (TxQ ?tp) = {#\<lparr>hn_P = CalcPri (Some s), hn_T = s\<rparr>#}" and cp: "CurPri ?tp = CalcPri (Some s)"
    using assms(2) by (simp_all add: TxPool_Add_def NewTxPool_def Let_def Heap_Add_def heap_Push_def heap_up_unfold)
  then have "image_mset (node_hash H) (mset q) = {#}" using hq.rmv_hashes [OF rm] assms(1) by simp
  then have "q = []" by simp
  moreover have "length r = 1" using hq.rmv_size [OF rm] q0 \<open>q = []\<close> by simp
  then have "r = [t]" using Rmv_set [OF rm] by (cases r) auto
  ultimately show ?thesis using ChkTxs_eq [of H "[t]" ?tp] rm cp by simp
qed

theorem equal_hash_drift_witness: "CurPri (TxPool_ChkTxs length_digest [Some (demo_tx 2)] (TxPool_Add (Some (demo_tx 1)) (NewTxPool (mnr_DefaultConfig 3)))) = 0"
proof -
  have "Transaction_Hash length_digest (demo_tx 1) = Transaction_Hash length_digest (demo_tx 2)"
    by (simp add: Transaction_Hash_def Transaction_data_def demo_tx_def utils_Hash_inj length_digest_def eval_simps)
  from equal_hash_drift [OF this, of "mnr_DefaultConfig 3"] show ?thesis
    by (simp add: mnr_DefaultConfig_def CalcPri_def demo_tx_def SumInputs_def SumOutputs_def Let_def)
qed

text \<open>
  Priorities. For a transaction below 4 GiB the priority is the fee times 100, wrapped to 32 bits,
  divided by the size, and at least 1. It is the documented \<open>fees * 100 / size\<close> as long as a hundredfold
  fee fits into 32 bits; a fee of 42949673 wraps to the lowest priority.
\<close>

theorem CalcPri_value:
  assumes "40 * length (tx_Inputs t) + 20 * length (tx_Outputs t) + 8 < 2 ^ 32"
  defines "sz \<equiv> 40 * length (tx_Inputs t) + 20 * length (tx_Outputs t) + 8"
    and "fee \<equiv> unat (SumInputs t - SumOutputs t)"
  shows "unat (CalcPri (Some t)) = max 1 (fee * 100 mod 2 ^ 32 div sz)
    \<and> (fee * 100 < 2 ^ 32 \<longrightarrow> unat (CalcPri (Some t)) = max 1 (fee * 100 div sz))
    \<and> (fee = 42949673 \<longrightarrow> CalcPri (Some t) = 1)"
proof -
  have sz: "unat (Transaction_Sz t) = sz" unfolding sz_def by (rule unat_Transaction_Sz [OF assms(1)])
  have pos: "Transaction_Sz t \<noteq> 0" using sz by (auto simp: sz_def)
  let ?p = "(SumInputs t - SumOutputs t) * 100 div Transaction_Sz t"
  have "unat ((SumInputs t - SumOutputs t) * 100) = fee * 100 mod 2 ^ 32"
    unfolding fee_def by (simp add: unat_word_ariths(2) del: left_diff_distrib_numeral)
  then have p: "unat ?p = fee * 100 mod 2 ^ 32 div sz" by (simp only: unat_div sz)
  have "unat (CalcPri (Some t)) = (if unat ?p = 0 then 1 else unat ?p)"
    using pos by (simp add: CalcPri_def Let_def unat_eq_0)
  then have 1: "unat (CalcPri (Some t)) = max 1 (fee * 100 mod 2 ^ 32 div sz)" unfolding p by simp
  moreover have "CalcPri (Some t) = 1" if "fee = 42949673"
  proof -
    have "fee * 100 mod 2 ^ 32 div sz = 0" using that by (simp add: sz_def)
    with 1 show ?thesis by (intro word_unat_eq_iff [THEN iffD2]) simp
  qed
  ultimately show ?thesis by simp
qed

theorem CalcPri_value_witness: "CalcPri (Some (demo_tx 5)) = 1"
  using CalcPri_value [of "demo_tx 5"] by (simp add: demo_tx_def SumInputs_def SumOutputs_def word_unat_eq_iff)

text \<open>
  Mined transactions leave the pool. After \<open>ChkTxs\<close> with a block's transactions, the hashes of the queued
  transactions are those from before with each listed hash taken out once, and the counter has gone
  down by what left; a list with a nil entry changes nothing.
\<close>

theorem ChkTxs_removes:
  assumes "pool_run H c T tp"
  shows "image_mset (node_hash H) (mset (TxQ (TxPool_ChkTxs H (map Some ts) tp)))
      = image_mset (node_hash H) (mset (TxQ tp)) - mset (map (Transaction_Hash H) ts)
    \<and> unat (TxPool_Length (TxPool_ChkTxs H (map Some ts) tp))
      = size (image_mset (node_hash H) (mset (TxQ tp)) - mset (map (Transaction_Hash H) ts))
    \<and> (None \<in> set os \<longrightarrow> TxPool_ChkTxs H os tp = tp)"
proof -
  let ?tp = "TxPool_ChkTxs H (map Some ts) tp"
  obtain r q where rm: "Rmv H (TxQ tp) (map Some ts) = (r, q)" by fastforce
  have q: "TxQ ?tp = q" by (simp add: ChkTxs_eq rm)
  have ok: "pool_books ?tp" using pool_books_ChkTxs pool_run_books [OF assms] by blast
  have "image_mset (node_hash H) (mset q) = image_mset (node_hash H) (mset (TxQ tp)) - mset (map (Transaction_Hash H) ts)"
    by (rule hq.rmv_hashes [OF rm])
  moreover from this have "unat (TxPool_Length ?tp) = size (image_mset (node_hash H) (mset (TxQ tp)) - mset (map (Transaction_Hash H) ts))"
    using pool_Ct [OF ok] q by (metis TxPool_Length_def size_image_mset size_mset)
  ultimately show ?thesis using ok q by (simp add: TxPool_ChkTxs_def)
qed

theorem ChkTxs_removes_witness:
  "TxPool_Length (TxPool_ChkTxs length_digest (map Some [demo_tx 1]) (TxPool_Add (Some (demo_tx 1)) (NewTxPool (mnr_DefaultConfig 3)))) = 0"
proof -
  let ?tp = "TxPool_Add (Some (demo_tx 1)) (NewTxPool (mnr_DefaultConfig 3))"
  have q: "mset (TxQ ?tp) = {#\<lparr>hn_P = CalcPri (Some (demo_tx 1)), hn_T = demo_tx 1\<rparr>#}"
    by (simp add: TxPool_Add_def NewTxPool_def mnr_DefaultConfig_def Let_def)
  from ChkTxs_removes [OF pool_add [OF pool_new [where H = length_digest and c = "mnr_DefaultConfig 3"], of "Some (demo_tx 1)"], where ts = "[demo_tx 1]" and os = "[None]"] show ?thesis by (simp add: q unat_eq_0)
qed

end
