(* ===== verification/Block.thy ===== *)
theory Block
  imports Tx
begin

text \<open>
  The package \<^verbatim>\<open>pkg/block\<close> (\<^verbatim>\<open>block.go\<close>): headers and blocks, their wire form, the header
  hash, proof of work and the Merkle root.

  A decoded message may have no header, so \<open>Block_Deserialize\<close> may panic. The loop of
  \<^verbatim>\<open>CalcMrklRt\<close> is a \<^verbatim>\<open>for\<close> loop without a bound: it is a partial function whose value is
  \<open>None\<close> when the loop never ends. Lemmas: when the loop ends and what it computes (the root of
  a perfect tree over the padded leaves), what the root and the header hash bind, and proof of
  work as a comparison of numbers.
\<close>

section \<open>Data\<close>

record Header =
  Ver :: u32
  PrvBlkHsh :: string
  MrklRt :: string
  Timestamp :: u32
  DiffTarg :: string
  Nonce :: u32

record Block =
  Hdr :: Header
  Transactions :: "Transaction list"

section \<open>Wire form\<close>

definition Block_Deserialize :: "proto_Block \<Rightarrow> Block go" where
  "Block_Deserialize b =
     (let txs = map Transaction_Deserialize (pb_Transactions b)
      in case pb_Header b of
           None \<Rightarrow> Inl NilDeref
         | Some h \<Rightarrow> Inr \<lparr>Hdr = \<lparr>Ver = pbh_Version h, PrvBlkHsh = pbh_PrevBlockHash h, MrklRt = pbh_MerkleRoot h,
                              Timestamp = pbh_Timestamp h, DiffTarg = pbh_DifficultyTarget h, Nonce = pbh_Nonce h\<rparr>,
                       Transactions = txs\<rparr>)"

definition Block_Serialize :: "Block \<Rightarrow> proto_Block" where
  "Block_Serialize b =
     (let txs = map Transaction_Serialize (Transactions b)
      in \<lparr>pb_Header = Some \<lparr>pbh_Version = Ver (Hdr b), pbh_PrevBlockHash = PrvBlkHsh (Hdr b),
                           pbh_MerkleRoot = MrklRt (Hdr b), pbh_Timestamp = Timestamp (Hdr b),
                           pbh_DifficultyTarget = DiffTarg (Hdr b), pbh_Nonce = Nonce (Hdr b)\<rparr>,
          pb_Transactions = txs\<rparr>)"

definition Block_Sz :: "Block \<Rightarrow> u32" where
  "Block_Sz b = SzOfBlk (Block_Serialize b)"

section \<open>Hash and proof of work\<close>

text \<open>\<^verbatim>\<open>fmt.Sprintf("%v", b.Hdr)\<close>: the fields in their order, separated by blanks, in braces.\<close>

definition Header_fmt :: "Header \<Rightarrow> string" where
  "Header_fmt h =
     ''{'' @ show_u32 (Ver h) @ '' '' @ PrvBlkHsh h @ '' '' @ MrklRt h @ '' '' @ show_u32 (Timestamp h) @ '' ''
       @ DiffTarg h @ '' '' @ show_u32 (Nonce h) @ ''}''"

definition Block_Hash :: "(byte list \<Rightarrow> byte list) \<Rightarrow> Block \<Rightarrow> string" where
  "Block_Hash H b = utils_Hash H (bytes_of_string (Header_fmt (Hdr b)))"

definition SatisfiesPOW :: "(byte list \<Rightarrow> byte list) \<Rightarrow> Block \<Rightarrow> string \<Rightarrow> bool" where
  "SatisfiesPOW H b dt =
     (case hex_DecodeString (Block_Hash H b) of
        (_, Some _) \<Rightarrow> False
      | (hsh, None) \<Rightarrow>
          (case hex_DecodeString dt of
             (_, Some _) \<Rightarrow> False
           | (difTrg, None) \<Rightarrow> bytes_Compare hsh difTrg = -1))"

section \<open>Merkle root\<close>

text \<open>The inner loop, two hashes a step. The slice it runs over has an even length.\<close>

definition merkle_block :: "string \<Rightarrow> string \<Rightarrow> byte list" where
  "merkle_block x y = fst (hex_DecodeString x) @ fst (hex_DecodeString y)"

fun merkle_pairs :: "(byte list \<Rightarrow> byte list) \<Rightarrow> string list \<Rightarrow> string list" where
  "merkle_pairs H (x # y # hshs) = utils_Hash H (merkle_block x y) # merkle_pairs H hshs"
| "merkle_pairs H hshs = []"

definition merkle_even :: "'a list \<Rightarrow> 'a list" where
  "merkle_even hshs = (if odd (length hshs) then hshs @ [last hshs] else hshs)"

partial_function (option) CalcMrklRt_loop :: "(byte list \<Rightarrow> byte list) \<Rightarrow> string list \<Rightarrow> string list option" where
  "CalcMrklRt_loop H hshs =
     (if length hshs \<noteq> 1 then CalcMrklRt_loop H (merkle_pairs H (merkle_even hshs)) else Some hshs)"

definition CalcMrklRt :: "(byte list \<Rightarrow> byte list) \<Rightarrow> Transaction list \<Rightarrow> string option" where
  "CalcMrklRt H txs =
     (let txs = (if length txs > 1 \<and> odd (length txs) then txs @ [txs ! (length txs - 1)] else txs);
          hshs = map (Transaction_Hash H) txs
      in map_option (\<lambda>hshs. if length hshs < 1 then [] else hshs ! 0) (CalcMrklRt_loop H hshs))"

text \<open>
  A nil transaction panics when it is serialised. \<open>None\<close>: the Merkle root of no
  transactions is never returned.
\<close>

definition Block_New :: "(byte list \<Rightarrow> byte list) \<Rightarrow> string \<Rightarrow> Transaction option list \<Rightarrow> string \<Rightarrow> Block go option" where
  "Block_New H prvHsh txs target =
     (case go_map (\<lambda>t. case t of None \<Rightarrow> Inl NilDeref | Some t \<Rightarrow> Inr (Transaction_Serialize t)) txs of
        Inl e \<Rightarrow> Some (Inl e)
      | Inr txsd \<Rightarrow>
          map_option (\<lambda>root.
            Block_Deserialize
              \<lparr>pb_Header = Some \<lparr>pbh_Version = 0, pbh_PrevBlockHash = prvHsh, pbh_MerkleRoot = root,
                                pbh_Timestamp = 0, pbh_DifficultyTarget = target, pbh_Nonce = 0\<rparr>,
               pb_Transactions = txsd\<rparr>)
            (CalcMrklRt H (map the txs)))"

section \<open>Names in log lines\<close>

definition Block_String :: "(byte list \<Rightarrow> byte list) \<Rightarrow> Block \<Rightarrow> string" where
  "Block_String H b = Block_Hash H b"

definition Block_NameTag :: "(byte list \<Rightarrow> byte list) \<Rightarrow> Block \<Rightarrow> string go" where
  "Block_NameTag H b =
     (let h = Block_Hash H b
      in if length h < 10 then Inl IndexOutOfRange
         else Inr (Colorize (''block-'' @ take 8 h) (ParseInt fromHexChar 16 (take 10 h))))"

definition Block_Summarize :: "(byte list \<Rightarrow> byte list) \<Rightarrow> Block \<Rightarrow> string go" where
  "Block_Summarize H b =
     go_bind (go_map (Transaction_NameTag H) (Transactions b)) (\<lambda>txs.
       let p = PrvBlkHsh (Hdr b)
       in if length p < 10 then Inl IndexOutOfRange
          else Inr (''{prev: '' @ Colorize (''block-'' @ take 6 p) (ParseInt fromHexChar 16 (take 10 p))
                 @ '', txs: ['' @ strings_Join txs '', '' @ '']}''))"

section \<open>Wire form: lemmas\<close>

lemma Block_Serialize_Deserialize: "Block_Deserialize p = Inr b \<Longrightarrow> Block_Serialize b = p"
  by (auto simp: Block_Deserialize_def Block_Serialize_def Let_def comp_def Transaction_Serialize_Deserialize
      split: option.splits)

lemma Block_Deserialize_Serialize:
  "Block_Deserialize (Block_Serialize b) = Inr (b\<lparr>Transactions := map clear_liminal (Transactions b)\<rparr>)"
  by (simp add: Block_Deserialize_def Block_Serialize_def Let_def Transaction_Deserialize_Serialize)

lemma Block_Deserialize_panic: "Block_Deserialize p = Inl e \<longleftrightarrow> pb_Header p = None \<and> e = NilDeref"
  by (auto simp: Block_Deserialize_def split: option.splits)

lemma Block_Hash_txs [simp]: "Block_Hash H (b\<lparr>Transactions := ts\<rparr>) = Block_Hash H b"
  by (simp add: Block_Hash_def)

lemma Block_Sz_eq: "Block_Sz b = sum_list (map Transaction_Sz (Transactions b)) + 44"
  by (simp add: Block_Sz_def SzOfBlk_eq Block_Serialize_def Transaction_Sz_def [abs_def] comp_def)

section \<open>Merkle root: lemmas\<close>

lemma length_merkle_pairs [simp]: "length (merkle_pairs H hs) = length hs div 2"
  by (induction H hs rule: merkle_pairs.induct) simp_all

lemma merkle_even_even [simp]: "even (length (merkle_even hs))"
  by (simp add: merkle_even_def)

lemma length_merkle_even: "length (merkle_even hs) = length hs + length hs mod 2"
  by (simp add: merkle_even_def odd_iff_mod_2_eq_one even_iff_mod_2_eq_zero)

lemma merkle_level_less: "length hs > 1 \<Longrightarrow> length (merkle_pairs H (merkle_even hs)) < length hs \<and> merkle_pairs H (merkle_even hs) \<noteq> []"
proof -
  assume n: "length hs > 1"
  have l: "length (merkle_pairs H (merkle_even hs)) = (length hs + length hs mod 2) div 2"
    by (simp add: length_merkle_even)
  have "(length hs + length hs mod 2) div 2 < length hs" "0 < (length hs + length hs mod 2) div 2"
    using n by presburger+
  with l show ?thesis by (metis length_greater_0_conv)
qed

lemma merkle_loop_step: "length hs > 1 \<Longrightarrow> CalcMrklRt_loop H hs = CalcMrklRt_loop H (merkle_pairs H (merkle_even hs))"
  by (subst CalcMrklRt_loop.simps) simp

lemma merkle_loop_one: "length hs = 1 \<Longrightarrow> CalcMrklRt_loop H hs = Some hs"
  by (subst CalcMrklRt_loop.simps) simp

lemma merkle_loop_total: "hs \<noteq> [] \<Longrightarrow> \<exists>r. CalcMrklRt_loop H hs = Some [r]"
proof (induction "length hs" arbitrary: hs rule: less_induct)
  case less
  show ?case
  proof (cases "length hs > 1")
    case True
    from less.hyps [OF conjunct1 [OF merkle_level_less [OF True]] conjunct2 [OF merkle_level_less [OF True]]]
    show ?thesis by (simp add: merkle_loop_step [OF True])
  next
    case False
    with less.prems obtain r where "hs = [r]" by (cases hs) auto
    then show ?thesis by (simp add: merkle_loop_one)
  qed
qed

lemma merkle_loop_Some_ne:
  assumes "CalcMrklRt_loop H hs = Some rs"
  shows "hs \<noteq> []"
proof (rule CalcMrklRt_loop.raw_induct [OF _ assms, of "\<lambda>H hs rs. hs \<noteq> []"])
  fix loop :: "(byte list \<Rightarrow> byte list) \<Rightarrow> string list \<Rightarrow> string list option" and G hs' rs'
  assume rec: "\<And>H h r. loop H h = Some r \<Longrightarrow> h \<noteq> []"
    and body: "(if length hs' \<noteq> 1 then loop G (merkle_pairs G (merkle_even hs')) else Some hs') = Some rs'"
  show "hs' \<noteq> []"
  proof
    assume "hs' = []"
    with body have "loop G [] = Some rs'" by (simp add: merkle_even_def)
    from rec [OF this] show False by simp
  qed
qed

lemma merkle_pad_hashes:
  "map (Transaction_Hash H) (if length txs > 1 \<and> odd (length txs) then txs @ [txs ! (length txs - 1)] else txs)
   = (if length txs > 1 then merkle_even (map (Transaction_Hash H) txs) else map (Transaction_Hash H) txs)"
  by (cases "txs = []") (simp_all add: merkle_even_def last_conv_nth)

lemma merkle_even_idem [simp]: "merkle_even (merkle_even hs) = merkle_even hs"
  by (simp add: merkle_even_def)

lemma merkle_even_ne: "length hs > 1 \<Longrightarrow> length (merkle_even hs) > 1"
  by (cases hs) (simp_all add: merkle_even_def)

lemma merkle_loop_even: "length hs > 1 \<Longrightarrow> CalcMrklRt_loop H (merkle_even hs) = CalcMrklRt_loop H hs"
  by (simp add: merkle_loop_step merkle_loop_step [OF merkle_even_ne])

text \<open>The padding of the transactions before the loop is the padding the loop does itself.\<close>

lemma CalcMrklRt_loop_eq:
  "CalcMrklRt H txs = map_option (\<lambda>hs. if length hs < 1 then [] else hs ! 0) (CalcMrklRt_loop H (map (Transaction_Hash H) txs))"
  unfolding CalcMrklRt_def Let_def merkle_pad_hashes by (simp add: merkle_loop_even)

text \<open>
  C31: The Merkle root is returned exactly for a non-empty list. For an empty list of
  transactions the loop runs forever: the check for an empty result after the loop is never
  reached.
\<close>

theorem CalcMrklRt_terminates: "(\<exists>root. CalcMrklRt H txs = Some root) \<longleftrightarrow> txs \<noteq> []"
proof
  assume "\<exists>root. CalcMrklRt H txs = Some root"
  then obtain hs where "CalcMrklRt_loop H (map (Transaction_Hash H) txs) = Some hs" by (auto simp: CalcMrklRt_loop_eq)
  from merkle_loop_Some_ne [OF this] show "txs \<noteq> []" by simp
next
  assume "txs \<noteq> []"
  then show "\<exists>root. CalcMrklRt H txs = Some root"
    using merkle_loop_total [of "map (Transaction_Hash H) txs" H] by (auto simp: CalcMrklRt_loop_eq)
qed

text \<open>
  The reference: the root of a perfect binary tree of height \<open>k\<close>, and the leaves it stands
  on. \<open>merkle_fill l k\<close> repeats, for each height from \<open>l\<close> on, the last complete subtree of
  that height when their number is odd.
\<close>

fun perfect_root :: "(byte list \<Rightarrow> byte list) \<Rightarrow> nat \<Rightarrow> string list \<Rightarrow> string" where
  "perfect_root H 0 hs = hs ! 0"
| "perfect_root H (Suc k) hs =
     utils_Hash H (merkle_block (perfect_root H k (take (2 ^ k) hs)) (perfect_root H k (drop (2 ^ k) hs)))"

fun merkle_fill :: "nat \<Rightarrow> nat \<Rightarrow> 'a list \<Rightarrow> 'a list" where
  "merkle_fill l 0 xs = xs"
| "merkle_fill l (Suc k) xs =
     merkle_fill (Suc l) k (if odd (length xs div 2 ^ l) then xs @ drop (length xs - 2 ^ l) xs else xs)"

lemma merkle_pairs_append: "even (length xs) \<Longrightarrow> merkle_pairs H (xs @ ys) = merkle_pairs H xs @ merkle_pairs H ys"
  by (induction H xs rule: merkle_pairs.induct) simp_all

lemma merkle_pairs_take: "merkle_pairs H (take (2 * n) xs) = take n (merkle_pairs H xs)"
proof (induction H xs arbitrary: n rule: merkle_pairs.induct)
  case (1 H x y hs)
  then show ?case by (cases n) simp_all
qed (auto simp: take_Cons split: nat.splits)

lemma merkle_pairs_drop: "merkle_pairs H (drop (2 * n) xs) = drop n (merkle_pairs H xs)"
proof (induction H xs arbitrary: n rule: merkle_pairs.induct)
  case (1 H x y hs)
  then show ?case by (cases n) simp_all
qed (auto simp: drop_Cons split: nat.splits)

lemma perfect_root_pairs: "length hs = 2 ^ Suc k \<Longrightarrow> perfect_root H k (merkle_pairs H hs) = perfect_root H (Suc k) hs"
proof (induction k arbitrary: hs)
  case 0
  then obtain x y where "hs = [x, y]" by (auto simp: length_Suc_conv numeral_2_eq_2)
  then show ?case by simp
next
  case (Suc k)
  have "perfect_root H k (merkle_pairs H (take (2 ^ Suc k) hs)) = perfect_root H (Suc k) (take (2 ^ Suc k) hs)"
    "perfect_root H k (merkle_pairs H (drop (2 ^ Suc k) hs)) = perfect_root H (Suc k) (drop (2 ^ Suc k) hs)"
    using Suc.prems by (simp_all add: Suc.IH del: perfect_root.simps)
  then show ?case by (simp add: merkle_pairs_take merkle_pairs_drop)
qed

lemma merkle_fill_pairs:
  assumes "even (length xs)"
  shows "merkle_pairs H (merkle_fill (Suc l) k xs) = merkle_fill l k (merkle_pairs H xs)"
  using assms
proof (induction k arbitrary: l xs)
  case (Suc k)
  obtain m where m: "length xs = 2 * m" using Suc.prems(1) by blast
  have d: "length xs - 2 ^ Suc l = 2 * (m - 2 ^ l)" by (simp add: m diff_mult_distrib2)
  let ?ys = "if odd (length xs div 2 ^ Suc l) then xs @ drop (length xs - 2 ^ Suc l) xs else xs"
  have "merkle_pairs H ?ys = (if odd (length (merkle_pairs H xs) div 2 ^ l)
      then merkle_pairs H xs @ drop (length (merkle_pairs H xs) - 2 ^ l) (merkle_pairs H xs) else merkle_pairs H xs)"
    using Suc.prems(1) unfolding d by (simp add: merkle_pairs_append merkle_pairs_drop div_mult2_eq m)
  moreover have "even (length ?ys)" unfolding d by (simp add: m)
  ultimately show ?case using Suc.IH [of ?ys "Suc l"] by simp
qed simp

text \<open>\<open>k\<close> is the height of the smallest perfect tree with at least \<open>n\<close> leaves.\<close>

definition tree_height :: "nat \<Rightarrow> nat \<Rightarrow> bool" where
  "tree_height k n \<longleftrightarrow> (if k = 0 then n = 1 else 2 ^ (k - 1) < n \<and> n \<le> 2 ^ k)"

lemma tree_height_half: "tree_height (Suc k) n \<Longrightarrow> tree_height k ((n + n mod 2) div 2)"
proof -
  assume h: "tree_height (Suc k) n"
  then have b: "2 ^ k < n" "n \<le> 2 * 2 ^ k" by (simp_all add: tree_height_def)
  show ?thesis
  proof (cases k)
    case 0
    with b have "n = 2" by simp
    with 0 show ?thesis by (simp add: tree_height_def)
  next
    case (Suc j)
    with b have "2 * 2 ^ j < n" "n \<le> 2 * (2 * 2 ^ j)" by simp_all
    then have "2 ^ j < (n + n mod 2) div 2" "(n + n mod 2) div 2 \<le> 2 * 2 ^ j" by presburger+
    with Suc show ?thesis by (simp add: tree_height_def)
  qed
qed

lemma length_merkle_fill:
  assumes "tree_height k n" "length xs = n * 2 ^ l"
  shows "length (merkle_fill l k xs) = 2 ^ (l + k)"
  using assms
proof (induction k arbitrary: l n xs)
  case (Suc k)
  let ?ys = "if odd (length xs div 2 ^ l) then xs @ drop (length xs - 2 ^ l) xs else xs"
  have "n > 0" using Suc.prems(1) by (simp add: tree_height_def)
  then have "2 ^ l \<le> n * 2 ^ l" by simp
  then have len: "length ?ys = (n + n mod 2) * 2 ^ l"
    using Suc.prems(2) by (auto simp: odd_iff_mod_2_eq_one even_iff_mod_2_eq_zero)
  have "n + n mod 2 = (n + n mod 2) div 2 * 2" by presburger
  then have "length ?ys = (n + n mod 2) div 2 * 2 ^ Suc l" using len by (metis mult.assoc power_Suc)
  from Suc.IH [OF tree_height_half [OF Suc.prems(1)] this] show ?case by simp
qed (simp add: tree_height_def)

lemma merkle_even_fill: "length xs > 0 \<Longrightarrow> merkle_fill 0 (Suc k) xs = merkle_fill (Suc 0) k (merkle_even xs)"
proof -
  assume "length xs > 0"
  then have "drop (length xs - 1) xs = [last xs]"
    by (metis One_nat_def append_butlast_last_id append_eq_conv_conj length_butlast length_greater_0_conv)
  then show ?thesis by (simp add: merkle_even_def)
qed

lemma merkle_loop_perfect:
  assumes "tree_height k (length hs)"
  shows "CalcMrklRt_loop H hs = Some [perfect_root H k (merkle_fill 0 k hs)]"
  using assms
proof (induction k arbitrary: hs)
  case 0
  then have "length hs = 1" by (simp add: tree_height_def)
  then show ?case by (cases hs) (simp_all add: merkle_loop_one)
next
  case (Suc k)
  have n: "length hs > 1" using Suc.prems by (simp add: tree_height_def)
  let ?p = "merkle_pairs H (merkle_even hs)"
  have "tree_height k (length ?p)"
    using tree_height_half [OF Suc.prems] by (simp add: length_merkle_even)
  then have "CalcMrklRt_loop H ?p = Some [perfect_root H k (merkle_fill 0 k ?p)]" by (rule Suc.IH)
  also have "merkle_fill 0 k ?p = merkle_pairs H (merkle_fill 0 (Suc k) hs)"
    using merkle_even_fill [of hs k] merkle_fill_pairs [OF merkle_even_even, of H 0 k hs] n by fastforce
  also have "perfect_root H k \<dots> = perfect_root H (Suc k) (merkle_fill 0 (Suc k) hs)"
    using length_merkle_fill [OF Suc.prems, of hs 0] by (intro perfect_root_pairs) simp
  finally show ?case by (simp add: merkle_loop_step [OF n])
qed

text \<open>
  C30: What the Merkle root is. For \<open>n > 0\<close> transactions and the least \<open>k\<close> with \<open>n \<le> 2 ^ k\<close>, the
  root is that of the perfect binary tree of height \<open>k\<close> over the transaction hashes, filled up
  to \<open>2 ^ k\<close> leaves by repeating the last subtree wherever one is missing.
\<close>

theorem CalcMrklRt_perfect:
  assumes "tree_height k (length txs)"
  shows "CalcMrklRt H txs = Some (perfect_root H k (merkle_fill 0 k (map (Transaction_Hash H) txs)))
    \<and> length (merkle_fill 0 k (map (Transaction_Hash H) txs)) = 2 ^ k"
  using merkle_loop_perfect [of k "map (Transaction_Hash H) txs" H] length_merkle_fill [OF assms, of "map (Transaction_Hash H) txs" 0] assms
  by (simp add: CalcMrklRt_loop_eq)

theorem CalcMrklRt_perfect_witness:
  "CalcMrklRt sha256_Sum256 [demo_tx 1, demo_tx 2, demo_tx 3] = Some (perfect_root sha256_Sum256 2
     (map (Transaction_Hash sha256_Sum256) [demo_tx 1, demo_tx 2, demo_tx 3, demo_tx 3]))"
proof -
  have "merkle_fill 0 (Suc (Suc 0)) (map f [a, b, c]) = map f [a, b, c, c]" for f :: "Transaction \<Rightarrow> string" and a b c
    by simp
  then have "merkle_fill 0 2 (map f [a, b, c]) = map f [a, b, c, c]" for f :: "Transaction \<Rightarrow> string" and a b c
    by (simp only: numeral_2_eq_2)
  then show ?thesis
    using CalcMrklRt_perfect [of 2 "[demo_tx 1, demo_tx 2, demo_tx 3]" sha256_Sum256] by (simp add: tree_height_def)
qed

text \<open>The byte strings hashed above the leaves, in at most \<open>n\<close> rounds of the loop.\<close>

fun pair_blocks :: "string list \<Rightarrow> byte list list" where
  "pair_blocks (x # y # hs) = merkle_block x y # pair_blocks hs"
| "pair_blocks hs = []"

fun merkle_blocks :: "(byte list \<Rightarrow> byte list) \<Rightarrow> nat \<Rightarrow> string list \<Rightarrow> byte list list" where
  "merkle_blocks H 0 hs = []"
| "merkle_blocks H (Suc n) hs =
     (if length hs \<le> 1 then []
      else pair_blocks (merkle_even hs) @ merkle_blocks H n (merkle_pairs H (merkle_even hs)))"

lemma merkle_pairs_map: "merkle_pairs H hs = map (utils_Hash H) (pair_blocks hs)"
  by (induction H hs rule: merkle_pairs.induct) simp_all

lemma pair_blocks_inj:
  assumes "even (length hs)" "length hs = length gs"
    and "\<forall>x \<in> set hs \<union> set gs. \<exists>v. length v = 32 \<and> x = hex_EncodeToString v"
    and "pair_blocks hs = pair_blocks gs"
  shows "hs = gs"
  using assms
proof (induction hs arbitrary: gs rule: pair_blocks.induct)
  case (1 x y hs)
  then obtain z w gs' where gs: "gs = z # w # gs'" by (cases gs; cases "tl gs") auto
  obtain vx vy vz vw where v: "x = hex_EncodeToString vx" "y = hex_EncodeToString vy"
      "z = hex_EncodeToString vz" "w = hex_EncodeToString vw" "length vx = length vz"
    using "1.prems"(3) gs by fastforce
  have "merkle_block x y = merkle_block z w" "pair_blocks hs = pair_blocks gs'" using "1.prems"(4) gs by simp_all
  then have "x = z" "y = w" using v by (simp_all add: merkle_block_def)
  moreover have "hs = gs'" using "1.IH" [of gs'] "1.prems" gs by auto
  ultimately show ?case using gs by simp
qed auto

lemma merkle_even_inj: "length hs = length gs \<Longrightarrow> merkle_even hs = merkle_even gs \<Longrightarrow> hs = gs"
  by (auto simp: merkle_even_def split: if_splits)

lemma set_merkle_even: "hs \<noteq> [] \<Longrightarrow> set (merkle_even hs) = set hs"
  by (auto simp: merkle_even_def)

lemma map_Hash_inj:
  assumes "inj_on H (set xs \<union> set ys)" "map (utils_Hash H) xs = map (utils_Hash H) ys"
  shows "xs = ys"
  using map_inputs_eq [of H "\<lambda>x. x" xs ys] assms by simp

lemma merkle_loop_binding:
  assumes "\<And>v. length (H v) = 32" "length hs = length gs" "length hs \<le> n"
    and "\<forall>x \<in> set hs \<union> set gs. \<exists>v. length v = 32 \<and> x = hex_EncodeToString v"
    and "inj_on H (set (merkle_blocks H n hs) \<union> set (merkle_blocks H n gs))"
    and "CalcMrklRt_loop H hs = CalcMrklRt_loop H gs" "hs \<noteq> []"
  shows "hs = gs"
  using assms(2-)
proof (induction n arbitrary: hs gs)
  case (Suc n)
  show ?case
  proof (cases "length hs > 1")
    case True
    let ?eh = "merkle_even hs" and ?eg = "merkle_even gs"
    have T: "length gs > 1" using True Suc.prems(1) by simp
    have B: "inj_on H ((set (pair_blocks ?eh) \<union> set (merkle_blocks H n (merkle_pairs H ?eh))) \<union>
        (set (pair_blocks ?eg) \<union> set (merkle_blocks H n (merkle_pairs H ?eg))))"
      using Suc.prems(4) True T by (simp add: not_le [symmetric])
    have "merkle_pairs H ?eh = merkle_pairs H ?eg"
    proof (rule Suc.IH)
      show "length (merkle_pairs H ?eh) = length (merkle_pairs H ?eg)" using Suc.prems(1) by (simp add: length_merkle_even)
      show "length (merkle_pairs H ?eh) \<le> n" using merkle_level_less [OF True, of H] Suc.prems(2) by simp
      show "\<forall>x \<in> set (merkle_pairs H ?eh) \<union> set (merkle_pairs H ?eg). \<exists>v. length v = 32 \<and> x = hex_EncodeToString v"
        using assms(1) by (auto simp: merkle_pairs_map utils_Hash_def)
      show "inj_on H (set (merkle_blocks H n (merkle_pairs H ?eh)) \<union> set (merkle_blocks H n (merkle_pairs H ?eg)))"
        by (rule inj_on_subset [OF B]) blast
      show "CalcMrklRt_loop H (merkle_pairs H ?eh) = CalcMrklRt_loop H (merkle_pairs H ?eg)"
        using Suc.prems(5) by (simp only: merkle_loop_step [OF True] merkle_loop_step [OF T])
      show "merkle_pairs H ?eh \<noteq> []" using merkle_level_less [OF True] by blast
    qed
    moreover have "inj_on H (set (pair_blocks ?eh) \<union> set (pair_blocks ?eg))"
      by (rule inj_on_subset [OF B]) blast
    ultimately have "pair_blocks ?eh = pair_blocks ?eg"
      unfolding merkle_pairs_map by (rule map_Hash_inj [rotated])
    moreover have "set ?eh = set hs" "set ?eg = set gs" using True T by (auto intro!: set_merkle_even)
    ultimately have "?eh = ?eg"
      using Suc.prems(1,3) by (intro pair_blocks_inj) (simp_all add: length_merkle_even)
    then show ?thesis using Suc.prems(1) by (rule merkle_even_inj [rotated])
  next
    case False
    with Suc.prems(1,6) have "length hs = 1" "length gs = 1" by (cases hs; simp)+
    with Suc.prems(5) show ?thesis by (simp add: merkle_loop_one)
  qed
qed simp

text \<open>
  The Merkle root binds the transactions. When the digest has no collision on what the two
  computations hash above the leaves, two lists of equal length with equal roots have the same
  transaction hashes in the same order.
\<close>

theorem CalcMrklRt_binding:
  assumes "\<And>v. length (H v) = 32" "length ss = length ts" "ss \<noteq> []"
    and "inj_on H (set (merkle_blocks H (length ss) (map (Transaction_Hash H) ss))
          \<union> set (merkle_blocks H (length ss) (map (Transaction_Hash H) ts)))"
    and "CalcMrklRt H ss = CalcMrklRt H ts"
  shows "map (Transaction_Hash H) ss = map (Transaction_Hash H) ts"
proof (rule merkle_loop_binding [OF assms(1)])
  have "ts \<noteq> []" using assms(2,3) by auto
  then obtain r r' where "CalcMrklRt_loop H (map (Transaction_Hash H) ss) = Some [r]" "CalcMrklRt_loop H (map (Transaction_Hash H) ts) = Some [r']"
    using merkle_loop_total [of "map (Transaction_Hash H) ss" H] merkle_loop_total [of "map (Transaction_Hash H) ts" H] assms(3)
    by auto
  then show "CalcMrklRt_loop H (map (Transaction_Hash H) ss) = CalcMrklRt_loop H (map (Transaction_Hash H) ts)"
    using assms(5) by (simp add: CalcMrklRt_loop_eq)
  show "\<forall>x \<in> set (map (Transaction_Hash H) ss) \<union> set (map (Transaction_Hash H) ts). \<exists>v. length v = 32 \<and> x = hex_EncodeToString v"
    using assms(1) by (auto simp: Transaction_Hash_def utils_Hash_def)
  show "inj_on H (set (merkle_blocks H (length ss) (map (Transaction_Hash H) ss))
      \<union> set (merkle_blocks H (length ss) (map (Transaction_Hash H) ts)))" by (rule assms(4))
qed (use assms(2,3) in simp_all)

theorem CalcMrklRt_binding_witness:
  "map (Transaction_Hash length_digest) [demo_tx 1, demo_tx 2] = map (Transaction_Hash length_digest) [demo_tx 3, demo_tx 4]"
proof (rule CalcMrklRt_binding)
  have h: "Transaction_Hash length_digest (demo_tx n) = Transaction_Hash length_digest (demo_tx 1)" if "unat n < 10" for n
    using that by (simp add: Transaction_Hash_def Transaction_data_def demo_tx_def utils_Hash_def length_digest_def eval_simps)
  show "CalcMrklRt length_digest [demo_tx 1, demo_tx 2] = CalcMrklRt length_digest [demo_tx 3, demo_tx 4]"
    by (simp add: CalcMrklRt_def h [of 2] h [of 3] h [of 4])
  show "inj_on length_digest (set (merkle_blocks length_digest (length [demo_tx 1, demo_tx 2])
        (map (Transaction_Hash length_digest) [demo_tx 1, demo_tx 2]))
      \<union> set (merkle_blocks length_digest (length [demo_tx 1, demo_tx 2]) (map (Transaction_Hash length_digest) [demo_tx 3, demo_tx 4])))"
    by (simp add: merkle_even_def h [of 2] h [of 3] h [of 4])
qed simp_all

text \<open>
  The Merkle root does not fix the number of transactions. For an odd number of at least
  three transactions, repeating the last one gives the same root, whatever the digest is.
\<close>

theorem CalcMrklRt_duplicate:
  assumes "odd (length txs)" "length txs > 1"
  shows "CalcMrklRt H (txs @ [last txs]) = CalcMrklRt H txs"
proof -
  have "map (Transaction_Hash H) (txs @ [last txs]) = merkle_even (map (Transaction_Hash H) txs)"
    using assms by (simp add: merkle_even_def) (metis last_map list.size(3) not_less_zero)
  then show ?thesis using assms(2) by (simp add: CalcMrklRt_loop_eq merkle_loop_even del: map_append)
qed

theorem CalcMrklRt_duplicate_witness:
  "CalcMrklRt sha256_Sum256 [demo_tx 1, demo_tx 2, demo_tx 3, demo_tx 3] = CalcMrklRt sha256_Sum256 [demo_tx 1, demo_tx 2, demo_tx 3]"
  using CalcMrklRt_duplicate [of "[demo_tx 1, demo_tx 2, demo_tx 3]" sha256_Sum256] by simp

section \<open>Header hash: lemmas\<close>

definition header_plain :: "Header \<Rightarrow> bool" where
  "header_plain h \<longleftrightarrow> CHR '' '' \<notin> set (PrvBlkHsh h) \<and> CHR '' '' \<notin> set (MrklRt h) \<and> CHR '' '' \<notin> set (DiffTarg h)"

lemma blank_not_digit: "CHR '' '' \<notin> set (show_u32 i)"
  by (rule show_u32_no_char) simp

lemma Header_fmt_inj:
  assumes "header_plain g" "header_plain h" "Header_fmt g = Header_fmt h"
  shows "g = h"
proof -
  note sep = append_sep_inj [of "CHR '' ''"]
  have p: "CHR '' '' \<notin> set (PrvBlkHsh g)" "CHR '' '' \<notin> set (PrvBlkHsh h)" "CHR '' '' \<notin> set (MrklRt g)"
    "CHR '' '' \<notin> set (MrklRt h)" "CHR '' '' \<notin> set (DiffTarg g)" "CHR '' '' \<notin> set (DiffTarg h)"
    using assms(1,2) by (simp_all add: header_plain_def)
  let ?r5 = "\<lambda>h. show_u32 (Nonce h) @ ''}''"
  let ?r4 = "\<lambda>h. DiffTarg h @ CHR '' '' # ?r5 h"
  let ?r3 = "\<lambda>h. show_u32 (Timestamp h) @ CHR '' '' # ?r4 h"
  let ?r2 = "\<lambda>h. MrklRt h @ CHR '' '' # ?r3 h"
  let ?r1 = "\<lambda>h. PrvBlkHsh h @ CHR '' '' # ?r2 h"
  have "show_u32 (Ver g) @ CHR '' '' # ?r1 g = show_u32 (Ver h) @ CHR '' '' # ?r1 h"
    using assms(3) by (simp add: Header_fmt_def)
  from sep [OF blank_not_digit blank_not_digit this] have 0: "Ver g = Ver h" and e: "?r1 g = ?r1 h" by simp_all
  from sep [OF p(1,2) e] have 1: "PrvBlkHsh g = PrvBlkHsh h" and e: "?r2 g = ?r2 h" by simp_all
  from sep [OF p(3,4) e] have 2: "MrklRt g = MrklRt h" and e: "?r3 g = ?r3 h" by simp_all
  from sep [OF blank_not_digit blank_not_digit e] have 3: "Timestamp g = Timestamp h" and e: "?r4 g = ?r4 h" by simp_all
  from sep [OF p(5,6) e] have 4: "DiffTarg g = DiffTarg h" and e: "?r5 g = ?r5 h" by simp_all
  from e have "Nonce g = Nonce h" by simp
  with 0 1 2 3 4 show ?thesis by simp
qed

text \<open>
  The hash of a block binds its header. For headers whose string fields have no blank, and a
  digest without a collision on the two printed headers, equal block hashes mean equal headers;
  a blank in a string field breaks this, whatever the digest is: two headers that differ in
  where the previous hash ends and the Merkle root begins have the same hash.
\<close>

theorem block_hash_binding:
  "(header_plain (Hdr a) \<and> header_plain (Hdr b)
      \<and> inj_on H {bytes_of_string (Header_fmt (Hdr a)), bytes_of_string (Header_fmt (Hdr b))}
      \<and> Block_Hash H a = Block_Hash H b \<longrightarrow> Hdr a = Hdr b) \<and>
   Block_Hash H (c\<lparr>Hdr := (Hdr c)\<lparr>PrvBlkHsh := ''a b'', MrklRt := ''c''\<rparr>\<rparr>)
     = Block_Hash H (c\<lparr>Hdr := (Hdr c)\<lparr>PrvBlkHsh := ''a'', MrklRt := ''b c''\<rparr>\<rparr>)"
proof (intro conjI impI)
  assume "header_plain (Hdr a) \<and> header_plain (Hdr b)
      \<and> inj_on H {bytes_of_string (Header_fmt (Hdr a)), bytes_of_string (Header_fmt (Hdr b))}
      \<and> Block_Hash H a = Block_Hash H b"
  then have p: "header_plain (Hdr a)" "header_plain (Hdr b)"
    and i: "inj_on H {bytes_of_string (Header_fmt (Hdr a)), bytes_of_string (Header_fmt (Hdr b))}"
    and e: "H (bytes_of_string (Header_fmt (Hdr a))) = H (bytes_of_string (Header_fmt (Hdr b)))"
    unfolding Block_Hash_def utils_Hash_inj by blast+
  from inj_onD [OF i e] have "Header_fmt (Hdr a) = Header_fmt (Hdr b)" by (simp add: bytes_of_string_inj)
  with p show "Hdr a = Hdr b" by (rule Header_fmt_inj)
qed (simp add: Block_Hash_def Header_fmt_def)

text \<open>A block for witnesses, told apart by its nonce.\<close>

definition demo_block :: "u32 \<Rightarrow> Block" where
  "demo_block n = \<lparr>Hdr = \<lparr>Ver = 0, PrvBlkHsh = ''p'', MrklRt = ''m'', Timestamp = 0, DiffTarg = ''ff'', Nonce = n\<rparr>,
     Transactions = [demo_tx 1]\<rparr>"

theorem block_hash_binding_witness:
  "Hdr (demo_block 7) = Hdr ((demo_block 7)\<lparr>Transactions := []\<rparr>)
   \<and> Block_Hash length_digest (demo_block 7) = Block_Hash length_digest ((demo_block 7)\<lparr>Transactions := []\<rparr>)"
  using block_hash_binding [of "demo_block 7" "(demo_block 7)\<lparr>Transactions := []\<rparr>" length_digest "demo_block 7"]
  by (simp add: header_plain_def demo_block_def Block_Hash_def)

text \<open>
  C40: Blocks on the wire. A message is decoded exactly when it has a header, otherwise decoding
  it dereferences nil; a decoded block serialises to the message it came from; a block sent and
  received is the same up to the liminal marks, with the same hash and the same size.
\<close>

theorem block_wire_roundtrip:
  "(Block_Deserialize p = Inl e \<longleftrightarrow> pb_Header p = None \<and> e = NilDeref) \<and>
   (Block_Deserialize p = Inr b \<longrightarrow> Block_Serialize b = p) \<and>
   (\<exists>b'. Block_Deserialize (Block_Serialize b) = Inr b' \<and> b' = b\<lparr>Transactions := map clear_liminal (Transactions b)\<rparr>
      \<and> Block_Hash H b' = Block_Hash H b \<and> Block_Sz b' = Block_Sz b)"
proof (intro conjI)
  show "Block_Deserialize p = Inr b \<longrightarrow> Block_Serialize b = p" by (simp add: Block_Serialize_Deserialize)
  have "Block_Serialize (b\<lparr>Transactions := map clear_liminal (Transactions b)\<rparr>) = Block_Serialize b"
    by (rule Block_Serialize_Deserialize [OF Block_Deserialize_Serialize])
  then show "\<exists>b'. Block_Deserialize (Block_Serialize b) = Inr b' \<and> b' = b\<lparr>Transactions := map clear_liminal (Transactions b)\<rparr>
      \<and> Block_Hash H b' = Block_Hash H b \<and> Block_Sz b' = Block_Sz b"
    by (simp add: Block_Deserialize_Serialize Block_Sz_def)
qed (rule Block_Deserialize_panic)

theorem block_wire_roundtrip_witness:
  "Block_Serialize (demo_block 3) = \<lparr>pb_Header = Some \<lparr>pbh_Version = 0, pbh_PrevBlockHash = ''p'', pbh_MerkleRoot = ''m'',
       pbh_Timestamp = 0, pbh_DifficultyTarget = ''ff'', pbh_Nonce = 3\<rparr>, pb_Transactions = [Transaction_Serialize (demo_tx 1)]\<rparr>"
  using block_wire_roundtrip [of "Block_Serialize (demo_block 3)" NilDeref "demo_block 3" length_digest]
  by (simp add: demo_block_def Block_Serialize_def)

section \<open>Proof of work: lemmas\<close>

definition hex_val :: "string \<Rightarrow> nat" where
  "hex_val s = foldl (\<lambda>n c. n * 16 + (case fromHexChar c of None \<Rightarrow> 0 | Some d \<Rightarrow> d)) 0 s"

lemma hex_val_foldl: "foldl (\<lambda>n c. n * 16 + (case fromHexChar c of None \<Rightarrow> 0 | Some d \<Rightarrow> d)) a s = a * 16 ^ length s + hex_val s"
proof (induction s arbitrary: a)
  case (Cons c s)
  let ?d = "case fromHexChar c of None \<Rightarrow> 0 | Some d \<Rightarrow> d"
  have "foldl (\<lambda>n c. n * 16 + (case fromHexChar c of None \<Rightarrow> 0 | Some d \<Rightarrow> d)) a (c # s) = (a * 16 + ?d) * 16 ^ length s + hex_val s"
    using Cons.IH by simp
  moreover have "hex_val (c # s) = ?d * 16 ^ length s + hex_val s" using Cons.IH [of ?d] by (simp add: hex_val_def)
  ultimately show ?case by (simp add: algebra_simps)
qed (simp add: hex_val_def)

lemma hex_val_append: "hex_val (s @ t) = hex_val s * 16 ^ length t + hex_val t"
  unfolding hex_val_def foldl_append by (rule hex_val_foldl [unfolded hex_val_def])

lemma fromHexChar_less: "fromHexChar c = Some d \<Longrightarrow> d < 16"
  by (auto simp: fromHexChar_def Let_def split: if_splits)

lemma decode_hex_val:
  assumes "hex_DecodeString s = (bs, None)"
  shows "be_val bs = hex_val s \<and> length s = 2 * length bs"
  using assms
proof (induction s arbitrary: bs rule: hex_DecodeString.induct)
  case (3 c d cs)
  then obtain a b bs' where ab: "fromHexChar c = Some a" "fromHexChar d = Some b"
      "hex_DecodeString cs = (bs', None)" "bs = word_of_nat (16 * a + b) # bs'"
    by (auto split: option.splits prod.splits)
  have less: "16 * a + b < 256" using fromHexChar_less [OF ab(1)] fromHexChar_less [OF ab(2)] by simp
  have u: "unat (word_of_nat (16 * a + b) :: byte) = 16 * a + b" using less by (simp add: unat_of_nat del: of_nat_add of_nat_mult)
  have ih: "be_val bs' = hex_val cs" "length cs = 2 * length bs'" using "3.IH" [OF ab(1,2,3)] by simp_all
  have "hex_val (c # d # cs) = (16 * a + b) * 16 ^ length cs + hex_val cs"
    using hex_val_append [of "[c, d]" cs] ab by (simp add: hex_val_def)
  then have "be_val bs = hex_val (c # d # cs)" using ih u ab(4) by (simp add: be_val_Cons power_mult del: of_nat_add of_nat_mult)
  with ih ab(4) show ?case by simp
qed (auto simp: be_val_def hex_val_def split: option.splits)

lemma decode_total:
  assumes "even (length s)" "\<forall>c \<in> set s. fromHexChar c \<noteq> None"
  shows "\<exists>bs. hex_DecodeString s = (bs, None)"
  using assms
proof (induction s rule: hex_DecodeString.induct)
  case (3 c d cs)
  then obtain a b where ab: "fromHexChar c = Some a" "fromHexChar d = Some b" by auto
  have "even (length cs)" "\<forall>c \<in> set cs. fromHexChar c \<noteq> None" using "3.prems" by simp_all
  from "3.IH" [OF ab this] obtain bs where "hex_DecodeString cs = (bs, None)" by blast
  with ab show ?case by simp
qed auto

lemma SatisfiesPOW_iff:
  "SatisfiesPOW H b dt \<longleftrightarrow>
     (\<exists>t. hex_DecodeString dt = (t, None) \<and> bytes_Compare (H (bytes_of_string (Header_fmt (Hdr b)))) t = -1)"
  by (simp add: SatisfiesPOW_def Block_Hash_def split: prod.splits option.splits)

lemma hex_val_zeros: "hex_val (replicate n (CHR ''0'')) = 0"
  using hex_val_append [of "[CHR ''0'']"] by (induction n) (simp_all add: hex_val_def fromHexChar_def)

lemma CalcPOWD_shape:
  assumes "0 \<le> z" "z < 30"
  shows "CalcPOWD z = replicate (nat z) (CHR ''0'') @ CHR ''1'' # replicate (63 - nat z) (CHR ''0'')"
proof (rule nth_equalityI)
  fix i assume "i < length (CalcPOWD z)"
  then show "CalcPOWD z ! i = (replicate (nat z) (CHR ''0'') @ CHR ''1'' # replicate (63 - nat z) (CHR ''0'')) ! i"
    using assms by (auto simp: CalcPOWD_def nth_append nth_Cons' Let_def)
qed (use assms in auto)

lemma hex_val_CalcPOWD: "0 \<le> z \<Longrightarrow> z < 30 \<Longrightarrow> hex_val (CalcPOWD z) = 16 ^ (63 - nat z)"
  using hex_val_append [of "[CHR ''1'']" "replicate (63 - nat z) (CHR ''0'')"]
  by (simp add: CalcPOWD_shape hex_val_append hex_val_zeros) (simp add: hex_val_def fromHexChar_def)

text \<open>
  Proof of work is a bound on the hash. For the target \<open>CalcPOWD z\<close> with \<open>0 \<le> z < 30\<close>, and a
  digest of 32 bytes, a block satisfies it exactly when its hash, read as a number, is
  below \<open>16 ^ (63 - z)\<close>: the first \<open>z + 1\<close> hex digits of the hash are zero.
\<close>

theorem SatisfiesPOW_CalcPOWD:
  assumes "\<And>v. length (H v) = 32" "0 \<le> z" "z < 30"
  shows "SatisfiesPOW H b (CalcPOWD z) \<longleftrightarrow> hex_val (Block_Hash H b) < 16 ^ (63 - nat z)"
proof -
  have "\<forall>c \<in> set (CalcPOWD z). fromHexChar c \<noteq> None"
    using assms by (auto simp: CalcPOWD_shape fromHexChar_def)
  then obtain t where t: "hex_DecodeString (CalcPOWD z) = (t, None)" using decode_total [of "CalcPOWD z"] by auto
  have l: "length t = 32" "be_val t = 16 ^ (63 - nat z)"
    using decode_hex_val [OF t] hex_val_CalcPOWD [OF assms(2,3)] by simp_all
  have "be_val (H (bytes_of_string (Header_fmt (Hdr b)))) = hex_val (Block_Hash H b)"
    by (rule conjunct1 [OF decode_hex_val]) (simp add: Block_Hash_def)
  with l t show ?thesis by (simp add: SatisfiesPOW_iff bytes_Compare_less assms(1))
qed

theorem SatisfiesPOW_CalcPOWD_witness: "SatisfiesPOW length_digest (demo_block 7) (CalcPOWD 3)"
proof -
  have h: "hex_val (Block_Hash length_digest (demo_block 7)) = be_val (length_digest (bytes_of_string (Header_fmt (Hdr (demo_block 7)))))"
    by (rule conjunct1 [OF decode_hex_val, symmetric]) (simp add: Block_Hash_def)
  have z: "foldl (\<lambda>n b. n * 256 + unat b) 0 (replicate m (0 :: byte)) = 0" for m by (induction m) simp_all
  have "be_val (length_digest v) < 256" for v
    using unat_byte_less [of "word_of_nat (length v)"] z [of 31]
    by (simp only: length_digest_def be_val_def foldl_append foldl.simps)
  then have "hex_val (Block_Hash length_digest (demo_block 7)) < 16 ^ (63 - nat 3)"
    unfolding h by (rule less_le_trans) simp
  then show ?thesis using SatisfiesPOW_CalcPOWD [of length_digest 3 "demo_block 7"] by simp
qed

lemma bytes_Compare_ff: "length as < n \<Longrightarrow> bytes_Compare as (replicate n (- 1)) = -1"
proof (induction as arbitrary: n)
  case (Cons a as)
  then obtain m where "n = Suc m" by (cases n) auto
  with Cons show ?case by (auto simp: word_order.extremum_strict word_order.not_eq_extremum)
next
  case Nil
  then show ?case by (cases n) auto
qed

end
