(* ===== verification/Blockchain.thy ===== *)
theory Blockchain
  imports Block
begin

text \<open>
  The package \<^verbatim>\<open>pkg/blockchain\<close> (\<^verbatim>\<open>blockchain.go\<close>, \<^verbatim>\<open>config.go\<close>): the tree of all known
  blocks, the main chain and the unspent outputs.

  A node is written once, when it is made, so nodes are values and \<open>PrevNode\<close> is the node
  itself. The map of unspent outputs is not: \<^verbatim>\<open>Add\<close> takes the map of the previous node,
  changes it in place and stores it in the new node. Nodes therefore hold references into the
  store \<open>utxo_mem\<close> of the maps that were made. The outputs in the map and those in the
  block are the same Go objects; the model copies them. That is exact as long as a block object is added once, as in this program,
  because \<^verbatim>\<open>Liminal\<close>, the one field that changes, is read through the map only.

  Code that ranges over a map takes the iteration order as the argument \<open>ks\<close>. The mutex gives
  every operation the map for itself.
\<close>

section \<open>Configuration\<close>

definition GENPK :: string where
  "GENPK =
     ''3059301306072a8648ce3d020106082a8648ce3d030107034200042418a20458559ae13a0d4bb6ac284c66a5ce'' @
     ''bb5689563d4cf573473d8c6d5abfa9a21a65dbb3ba2f2d930be7f763f940f9864abaf199a0f0d8d14bedda2dca'' @
     ''d9''"

definition GENPVK :: string where
  "GENPVK =
     ''307702010104202456b0e8bed5c27dcadb044df1af8eaf714084b61a23d17359fb09f3c3f5fff5a00a06082a86'' @
     ''48ce3d030107a144034200042418a20458559ae13a0d4bb6ac284c66a5cebb5689563d4cf573473d8c6d5abfa9'' @
     ''a21a65dbb3ba2f2d930be7f763f940f9864abaf199a0f0d8d14bedda2dcad9''"

record bc_Config =
  HasChn :: bool
  InitSbsdy :: u32
  GenPK :: string

definition bc_DefaultConfig :: bc_Config where
  "bc_DefaultConfig = \<lparr>HasChn = True, InitSbsdy = 100000, GenPK = GENPK\<rparr>"

definition bc_NilConfig :: bc_Config where
  "bc_NilConfig = \<lparr>HasChn = False, InitSbsdy = 100000, GenPK = GENPK\<rparr>"

section \<open>State\<close>

type_synonym utxo_map = "(string, TransactionOutput) gomap"

datatype BlockchainNode =
  BlockchainNode (node_Block: Block) (PrevNode: "BlockchainNode option") (utxo: nat) (depth: int)

record Blockchain =
  bc_Addr :: string
  blocks :: "(string, BlockchainNode) gomap"
  LastBlock :: BlockchainNode
  utxo_mem :: "utxo_map list"

record UTXOInfo =
  TxHsh :: string
  OutIdx :: u32
  info_UTXO :: TransactionOutput
  Amt :: u32

text \<open>The map a node refers to, and the map of the main chain.\<close>

abbreviation node_utxo :: "Blockchain \<Rightarrow> BlockchainNode \<Rightarrow> utxo_map" where
  "node_utxo bc n \<equiv> utxo_mem bc ! utxo n"

abbreviation last_utxo :: "Blockchain \<Rightarrow> utxo_map" where
  "last_utxo bc \<equiv> node_utxo bc (LastBlock bc)"

section \<open>Construction\<close>

definition GenesisBlock :: "bc_Config \<Rightarrow> Block go" where
  "GenesisBlock conf =
     (let txoo = [NewTxOutpt (InitSbsdy conf) (GenPK conf)];
          genTx = NewTx 0 [] txoo 0
      in Block_Deserialize
           \<lparr>pb_Header = Some \<lparr>pbh_Version = 0, pbh_PrevBlockHash = [], pbh_MerkleRoot = [], pbh_Timestamp = 0,
                             pbh_DifficultyTarget = [], pbh_Nonce = 0\<rparr>,
            pb_Transactions = [genTx]\<rparr>)"

definition Blockchain_New :: "(byte list \<Rightarrow> byte list) \<Rightarrow> bc_Config \<Rightarrow> Blockchain go" where
  "Blockchain_New H conf =
     go_bind (GenesisBlock conf) (\<lambda>genBlock.
       let genTx = Transactions genBlock ! 0;
           genTxKey = Transaction_Hash H genTx @ ''-'' @ show_u32 0;
           genesis = BlockchainNode genBlock None 0 0
       in Inr \<lparr>bc_Addr = [], blocks = [(Block_Hash H genBlock, genesis)], LastBlock = genesis,
               utxo_mem = [[(genTxKey, tx_Outputs genTx ! 0)]]\<rparr>)"

definition Blockchain_SetAddr :: "string \<Rightarrow> Blockchain \<Rightarrow> Blockchain" where
  "Blockchain_SetAddr a bc = bc\<lparr>bc_Addr := a\<rparr>"

section \<open>Adding a block\<close>

text \<open>The two inner loops, on the map of the previous node.\<close>

definition utxo_apply_tx :: "(byte list \<Rightarrow> byte list) \<Rightarrow> utxo_map \<Rightarrow> Transaction \<Rightarrow> utxo_map" where
  "utxo_apply_tx H m t =
     (let m = foldl (\<lambda>m txin. gdel (MkTXOLoc (txi_TransactionHash txin) (txi_OutputIndex txin)) m) m (tx_Inputs t)
      in foldl (\<lambda>m (i, txout). gset (MkTXOLoc (Transaction_Hash H t) (word_of_nat i)) txout m) m
           (enumerate 0 (tx_Outputs t)))"

definition Blockchain_Add :: "(byte list \<Rightarrow> byte list) \<Rightarrow> Block option \<Rightarrow> Blockchain \<Rightarrow> Blockchain go" where
  "Blockchain_Add H bo bc =
     (case bo of
        None \<Rightarrow> Inr bc
      | Some b \<Rightarrow>
          (case gget (blocks bc) (PrvBlkHsh (Hdr b)) of
             None \<Rightarrow> Inl NilDeref
           | Some prevNode \<Rightarrow>
               let m = foldl (utxo_apply_tx H) (node_utxo bc prevNode) (Transactions b);
                   newBlock = BlockchainNode b (Some prevNode) (utxo prevNode) (depth prevNode + 1)
               in Inr (bc\<lparr>utxo_mem := (utxo_mem bc)[utxo prevNode := m],
                          blocks := gset (Block_Hash H b) newBlock (blocks bc),
                          LastBlock := (if depth newBlock > depth (LastBlock bc) then newBlock else LastBlock bc)\<rparr>)))"

section \<open>Queries\<close>

definition Blockchain_Length :: "Blockchain \<Rightarrow> int" where
  "Blockchain_Length bc = depth (LastBlock bc) + 1"

text \<open>The lookup of an unknown hash gives nil, and the field access on it panics.\<close>

definition Blockchain_Get :: "Blockchain \<Rightarrow> string \<Rightarrow> Block go" where
  "Blockchain_Get bc hash =
     (case gget (blocks bc) hash of None \<Rightarrow> Inl NilDeref | Some n \<Rightarrow> Inr (node_Block n))"

definition IndexOf :: "Blockchain \<Rightarrow> string \<Rightarrow> int" where
  "IndexOf bc hash = (case gget (blocks bc) hash of None \<Rightarrow> -1 | Some n \<Rightarrow> depth n)"

definition GetLastBlock :: "Blockchain \<Rightarrow> Block" where
  "GetLastBlock bc = node_Block (LastBlock bc)"

text \<open>\<open>ct\<close> more steps back from \<open>b\<close>; stepping past the first node leaves a nil node.\<close>

fun List_loop :: "nat \<Rightarrow> BlockchainNode option \<Rightarrow> Block list \<Rightarrow> Block list go" where
  "List_loop 0 b sl = Inr sl"
| "List_loop (Suc ct) None sl = Inl NilDeref"
| "List_loop (Suc ct) (Some b) sl = List_loop ct (PrevNode b) (node_Block b # sl)"

definition Blockchain_List :: "Blockchain \<Rightarrow> Block list go" where
  "Blockchain_List bc = List_loop (nat (depth (LastBlock bc) + 1)) (Some (LastBlock bc)) []"

fun Slice_loop :: "int \<Rightarrow> int \<Rightarrow> BlockchainNode \<Rightarrow> Block list \<Rightarrow> Block list" where
  "Slice_loop s e (BlockchainNode blk prev u d) sl =
     (if d \<ge> s
      then let sl = (if d < e then blk # sl else sl)
           in (case prev of None \<Rightarrow> sl | Some p \<Rightarrow> Slice_loop s e p sl)
      else sl)"

definition Blockchain_Slice :: "Blockchain \<Rightarrow> int \<Rightarrow> int \<Rightarrow> Block list" where
  "Blockchain_Slice bc s e = Slice_loop s e (LastBlock bc) []"

definition IsEndMainChain :: "(byte list \<Rightarrow> byte list) \<Rightarrow> Blockchain \<Rightarrow> Block \<Rightarrow> bool" where
  "IsEndMainChain H bc blk \<longleftrightarrow> Block_Hash H (node_Block (LastBlock bc)) = PrvBlkHsh (Hdr blk)"

definition GetUTXO :: "Blockchain \<Rightarrow> TransactionInput \<Rightarrow> TransactionOutput option" where
  "GetUTXO bc txi = gget (last_utxo bc) (MkTXOLoc (txi_TransactionHash txi) (txi_OutputIndex txi))"

definition GetUTXOLen :: "Blockchain \<Rightarrow> string list \<Rightarrow> string \<Rightarrow> int" where
  "GetUTXOLen bc ks pk =
     foldl (\<lambda>ct k. case gget (last_utxo bc) k of
         None \<Rightarrow> ct | Some v \<Rightarrow> if txo_LockingScript v = pk then ct + 1 else ct) 0 ks"

definition IsInvalidInput :: "Blockchain \<Rightarrow> TransactionInput \<Rightarrow> bool" where
  "IsInvalidInput bc txi \<longleftrightarrow> gget (last_utxo bc) (MkTXOLoc (txi_TransactionHash txi) (txi_OutputIndex txi)) = None"

fun ChkChainsUTXO_inputs :: "utxo_map \<Rightarrow> TransactionInput list \<Rightarrow> bool" where
  "ChkChainsUTXO_inputs m [] = True"
| "ChkChainsUTXO_inputs m (txii # is) =
     (case gget m (MkTXOLoc (txi_TransactionHash txii) (txi_OutputIndex txii)) of
        None \<Rightarrow> False
      | Some _ \<Rightarrow> ChkChainsUTXO_inputs m is)"

fun ChkChainsUTXO_txs :: "utxo_map \<Rightarrow> Transaction list \<Rightarrow> bool" where
  "ChkChainsUTXO_txs m [] = True"
| "ChkChainsUTXO_txs m (t # txs) = (if ChkChainsUTXO_inputs m (tx_Inputs t) then ChkChainsUTXO_txs m txs else False)"

definition ChkChainsUTXO :: "Blockchain \<Rightarrow> Transaction list \<Rightarrow> string \<Rightarrow> bool" where
  "ChkChainsUTXO bc txs prevHash =
     (let lastBlock = (case gget (blocks bc) prevHash of None \<Rightarrow> LastBlock bc | Some n \<Rightarrow> n)
      in ChkChainsUTXO_txs (node_utxo bc lastBlock) txs)"

definition Blockchain_GetBalance :: "Blockchain \<Rightarrow> string list \<Rightarrow> string \<Rightarrow> u32" where
  "Blockchain_GetBalance bc ks pk =
     foldl (\<lambda>bal k. case gget (last_utxo bc) k of
         None \<Rightarrow> bal | Some v \<Rightarrow> if txo_LockingScript v = pk then bal + txo_Amount v else bal) 0 ks"

fun String_loop :: "(byte list \<Rightarrow> byte list) \<Rightarrow> nat \<Rightarrow> BlockchainNode option \<Rightarrow> string list \<Rightarrow> string list go" where
  "String_loop H 0 b sl = Inr sl"
| "String_loop H (Suc ct) None sl = Inl NilDeref"
| "String_loop H (Suc ct) (Some b) sl =
     go_bind (Block_NameTag H (node_Block b)) (\<lambda>tag. String_loop H ct (PrevNode b) (tag # sl))"

definition Blockchain_String :: "(byte list \<Rightarrow> byte list) \<Rightarrow> Blockchain \<Rightarrow> string go" where
  "Blockchain_String H bc =
     go_bind (String_loop H (nat (depth (LastBlock bc) + 1)) (Some (LastBlock bc)) [])
       (\<lambda>sl. Inr (''['' @ strings_Join sl '', '' @ '']''))"

section \<open>Outputs for a payment\<close>

text \<open>
  The test \<^verbatim>\<open>amt < 0\<close> of the source is false for an unsigned amount. The marks stay in
  the map on every path; the outputs in the result are the marked ones.
\<close>

fun GetUTXOForAmt_loop ::
    "u32 \<Rightarrow> string \<Rightarrow> string list \<Rightarrow> utxo_map \<Rightarrow> u32 \<Rightarrow> UTXOInfo list \<Rightarrow> (utxo_map \<times> u32 \<times> UTXOInfo list) go" where
  "GetUTXOForAmt_loop amt pubKey [] m currAmt infos = Inr (m, currAmt, infos)"
| "GetUTXOForAmt_loop amt pubKey (k # ks) m currAmt infos =
     (if currAmt \<ge> amt then Inr (m, currAmt, infos)
      else case gget m k of
        None \<Rightarrow> GetUTXOForAmt_loop amt pubKey ks m currAmt infos
      | Some v \<Rightarrow>
          if txo_LockingScript v = pubKey \<and> \<not> txo_Liminal v
          then go_bind (PrsTXOLoc k) (\<lambda>(txHash, idx).
                 let v' = v\<lparr>txo_Liminal := True\<rparr>
                 in GetUTXOForAmt_loop amt pubKey ks (gset k v' m) (currAmt + txo_Amount v)
                      (infos @ [\<lparr>TxHsh = txHash, OutIdx = idx, info_UTXO = v', Amt = txo_Amount v\<rparr>]))
          else GetUTXOForAmt_loop amt pubKey ks m currAmt infos)"

definition GetUTXOForAmt ::
    "string list \<Rightarrow> u32 \<Rightarrow> string \<Rightarrow> Blockchain \<Rightarrow> (Blockchain \<times> UTXOInfo list \<times> u32 \<times> bool) go" where
  "GetUTXOForAmt ks amt pubKey bc =
     go_bind (GetUTXOForAmt_loop amt pubKey ks (last_utxo bc) 0 []) (\<lambda>(m, currAmt, infos).
       let bc' = bc\<lparr>utxo_mem := (utxo_mem bc)[utxo (LastBlock bc) := m]\<rparr>
       in if currAmt < amt then Inr (bc', [], 0, False) else Inr (bc', infos, currAmt - amt, True))"

section \<open>The ledger\<close>

text \<open>
  The specification: a ledger maps locators to unspent outputs. A transaction takes out what it
  spends and puts in what it creates. \<open>utxo_store\<close> is the contract of a store that
  implements it one transaction at a time.
\<close>

definition ledger_tx :: "'k set \<Rightarrow> ('k \<rightharpoonup> 'o) \<Rightarrow> ('k \<rightharpoonup> 'o) \<Rightarrow> ('k \<rightharpoonup> 'o)" where
  "ledger_tx spent created L = (L |` (- spent)) ++ created"

locale utxo_store =
  fixes apply_tx :: "'m \<Rightarrow> 't \<Rightarrow> 'm"
    and look :: "'m \<Rightarrow> 'k \<rightharpoonup> 'o"
    and spent :: "'t \<Rightarrow> 'k set"
    and created :: "'t \<Rightarrow> 'k \<rightharpoonup> 'o"
  assumes apply_look: "look (apply_tx m t) = ledger_tx (spent t) (created t) (look m)"
begin

lemma look_foldl: "look (foldl apply_tx m ts) = foldl (\<lambda>L t. ledger_tx (spent t) (created t) L) (look m) ts"
  by (induction ts arbitrary: m) (simp_all add: apply_look)

lemma look_cong: "look m = look m' \<Longrightarrow> look (foldl apply_tx m ts) = look (foldl apply_tx m' ts)"
  by (simp add: look_foldl)

lemma untouched: "(\<And>t. t \<in> set ts \<Longrightarrow> k \<notin> spent t \<and> created t k = None) \<Longrightarrow> look (foldl apply_tx m ts) k = look m k"
  unfolding look_foldl by (induction ts arbitrary: m rule: rev_induct) (auto simp: ledger_tx_def map_add_def)

lemma gone:
  assumes "k \<in> spent t" "created t k = None"
    and "\<And>t'. t' \<in> set ts' \<Longrightarrow> created t' k = None"
  shows "look (foldl apply_tx m (ts @ t # ts')) k = None"
proof -
  have "foldl (\<lambda>L t. ledger_tx (spent t) (created t) L) L ts' k = None" if "L k = None" for L
    using that assms(3) by (induction ts' arbitrary: L) (simp_all add: ledger_tx_def map_add_def restrict_map_def)
  then show ?thesis using assms(1,2) unfolding look_foldl by (simp add: ledger_tx_def map_add_def)
qed

lemma present:
  assumes "created t k = Some v"
    and "\<And>t'. t' \<in> set ts' \<Longrightarrow> k \<notin> spent t' \<and> created t' k = None"
  shows "look (foldl apply_tx m (ts @ t # ts')) k = Some v"
proof -
  have "look (foldl apply_tx m (ts @ t # ts')) k = look (apply_tx (foldl apply_tx m ts) t) k"
    using untouched [OF assms(2)] by simp
  then show ?thesis using assms(1) by (simp add: apply_look ledger_tx_def)
qed

end

definition tx_spent :: "Transaction \<Rightarrow> string set" where
  "tx_spent t = (\<lambda>i. MkTXOLoc (txi_TransactionHash i) (txi_OutputIndex i)) ` set (tx_Inputs t)"

definition tx_locs :: "(byte list \<Rightarrow> byte list) \<Rightarrow> Transaction \<Rightarrow> string list" where
  "tx_locs H t = map (\<lambda>i. MkTXOLoc (Transaction_Hash H t) (word_of_nat i)) [0..<length (tx_Outputs t)]"

definition unmark :: "TransactionOutput \<Rightarrow> TransactionOutput" where
  "unmark o' = o'\<lparr>txo_Liminal := False\<rparr>"

definition tx_created :: "(byte list \<Rightarrow> byte list) \<Rightarrow> Transaction \<Rightarrow> string \<rightharpoonup> TransactionOutput" where
  "tx_created H t = map_of (rev (zip (tx_locs H t) (map unmark (tx_Outputs t))))"

text \<open>The ledger a map of unspent outputs stands for: its entries without their marks.\<close>

definition utxo_abs :: "utxo_map \<Rightarrow> string \<rightharpoonup> TransactionOutput" where
  "utxo_abs m = (\<lambda>k. map_option unmark (gget m k))"

definition ledger_of :: "(byte list \<Rightarrow> byte list) \<Rightarrow> Block list \<Rightarrow> string \<rightharpoonup> TransactionOutput" where
  "ledger_of H bs =
     foldl (\<lambda>L t. ledger_tx (tx_spent t) (tx_created H t) L) Map.empty (concat (map Transactions bs))"

lemma gget_foldl_gdel: "gget (foldl (\<lambda>m x. gdel (f x) m) m xs) = gget m |` (- f ` set xs)"
  by (induction xs arbitrary: m) (auto simp: restrict_map_def)

lemma gm_ok_foldl_gdel [simp]: "gm_ok m \<Longrightarrow> gm_ok (foldl (\<lambda>m x. gdel (f x) m) m xs)"
  by (induction xs arbitrary: m) simp_all

lemma enumerate_zip: "enumerate 0 xs = zip [0..<length xs] xs"
  by (simp add: enumerate_eq_zip)

lemma gget_foldl_gset: "gget (foldl (\<lambda>m (k, v). gset k v m) m kvs) = gget m ++ map_of (rev kvs)"
  by (induction kvs arbitrary: m) (auto simp: map_add_def fun_eq_iff split: option.splits)

lemma gm_ok_foldl_gset [simp]: "gm_ok m \<Longrightarrow> gm_ok (foldl (\<lambda>m (k, v). gset k v m) m kvs)"
  by (induction kvs arbitrary: m) auto

lemma foldl_outputs:
  "foldl (\<lambda>m (i, txout). gset (MkTXOLoc (Transaction_Hash H t) (word_of_nat i)) txout m) m (enumerate 0 (tx_Outputs t))
   = foldl (\<lambda>m (k, v). gset k v m) m (zip (tx_locs H t) (tx_Outputs t))"
proof -
  have "zip (tx_locs H t) (tx_Outputs t) =
      map (\<lambda>(i, o'). (MkTXOLoc (Transaction_Hash H t) (word_of_nat i), o')) (enumerate 0 (tx_Outputs t))"
    by (simp add: tx_locs_def enumerate_zip zip_map1)
  then show ?thesis by (simp add: foldl_map case_prod_unfold)
qed

lemma utxo_apply_tx_gget:
  "gget (utxo_apply_tx H m t) = (gget m |` (- tx_spent t)) ++ map_of (rev (zip (tx_locs H t) (tx_Outputs t)))"
  by (simp add: utxo_apply_tx_def foldl_outputs gget_foldl_gset gget_foldl_gdel tx_spent_def)

lemma gm_ok_utxo_apply_tx [simp]: "gm_ok m \<Longrightarrow> gm_ok (utxo_apply_tx H m t)"
  by (simp add: utxo_apply_tx_def foldl_outputs)

lemma tx_created_unmark:
  "tx_created H t = (\<lambda>k. map_option unmark (map_of (rev (zip (tx_locs H t) (tx_Outputs t))) k))"
  by (rule ext) (simp add: tx_created_def zip_map2 rev_map map_of_map)

interpretation us: utxo_store "utxo_apply_tx H" utxo_abs tx_spent "tx_created H" for H
proof
  fix m t
  show "utxo_abs (utxo_apply_tx H m t) = ledger_tx (tx_spent t) (tx_created H t) (utxo_abs m)"
    by (rule ext) (auto simp: utxo_abs_def utxo_apply_tx_gget ledger_tx_def tx_created_unmark map_add_def
        restrict_map_def split: option.splits)
qed

section \<open>Chains\<close>

text \<open>The blocks from the first node to a node, and what a node promises of its ancestors.\<close>

fun chain_of :: "BlockchainNode \<Rightarrow> Block list" where
  "chain_of (BlockchainNode b prev u d) = (case prev of None \<Rightarrow> [] | Some p \<Rightarrow> chain_of p) @ [b]"

fun node_ok :: "(byte list \<Rightarrow> byte list) \<Rightarrow> BlockchainNode \<Rightarrow> bool" where
  "node_ok H (BlockchainNode b prev u d) =
     (case prev of
        None \<Rightarrow> d = 0
      | Some p \<Rightarrow> d = depth p + 1 \<and> PrvBlkHsh (Hdr b) = Block_Hash H (node_Block p) \<and> node_ok H p)"

fun linked :: "(byte list \<Rightarrow> byte list) \<Rightarrow> Block list \<Rightarrow> bool" where
  "linked H (a # b # bs) = (PrvBlkHsh (Hdr b) = Block_Hash H a \<and> linked H (b # bs))"
| "linked H bs = True"

lemma chain_of_ne [simp]: "chain_of n \<noteq> []"
  by (cases n) simp

lemma last_chain_of [simp]: "last (chain_of n) = node_Block n"
  by (cases n) simp

lemma length_chain_of: "node_ok H n \<Longrightarrow> int (length (chain_of n)) = depth n + 1"
  by (induction n rule: chain_of.induct) (auto split: option.splits)

lemma linked_snoc: "linked H (bs @ [b]) \<longleftrightarrow> linked H bs \<and> (bs = [] \<or> PrvBlkHsh (Hdr b) = Block_Hash H (last bs))"
  by (induction H bs rule: linked.induct) auto

lemma linked_chain_of: "node_ok H n \<Longrightarrow> linked H (chain_of n)"
  by (induction n rule: chain_of.induct) (auto simp: linked_snoc split: option.splits)

lemma List_loop_chain:
  "node_ok H n \<Longrightarrow> List_loop (nat (depth n + 1)) (Some n) acc = Inr (chain_of n @ acc)"
proof (induction n arbitrary: acc rule: chain_of.induct)
  case (1 b prev u d)
  show ?case
  proof (cases prev)
    case (Some p)
    then have "node_ok H p" "d = depth p + 1" using "1.prems" by simp_all
    moreover have "depth p \<ge> 0" using length_chain_of [OF \<open>node_ok H p\<close>] by (cases "chain_of p") auto
    then have "nat (d + 1) = Suc (nat (depth p + 1))" using \<open>d = depth p + 1\<close> by simp
    ultimately show ?thesis using "1.IH" [OF Some] Some by simp
  qed (use "1.prems" in simp)
qed

lemma Slice_loop_chain:
  "node_ok H n \<Longrightarrow> Slice_loop s e n acc = drop (nat s) (take (nat e) (chain_of n)) @ acc"
proof (induction n arbitrary: acc rule: chain_of.induct)
  case (1 b prev u d)
  show ?case
  proof (cases prev)
    case None
    then show ?thesis using "1.prems" by (auto simp: drop_Cons' take_Cons')
  next
    case (Some p)
    then have p: "node_ok H p" "d = depth p + 1" using "1.prems" by simp_all
    have len: "int (length (chain_of p)) = d" using length_chain_of [OF p(1)] p(2) by simp
    show ?thesis using "1.IH" [OF Some p(1)] Some len by (auto simp: not_le not_less)
  qed
qed

section \<open>Invariant\<close>

definition utxo_keys_ok :: "(byte list \<Rightarrow> byte list) \<Rightarrow> utxo_map \<Rightarrow> bool" where
  "utxo_keys_ok H m \<longleftrightarrow> (\<forall>k \<in> set (gkeys m). \<exists>t i. k = MkTXOLoc (Transaction_Hash H t) i)"

definition chain_inv :: "(byte list \<Rightarrow> byte list) \<Rightarrow> Blockchain \<Rightarrow> bool" where
  "chain_inv H bc \<longleftrightarrow>
     gm_ok (blocks bc)
     \<and> (\<forall>(h, n) \<in> set (blocks bc). h = Block_Hash H (node_Block n) \<and> node_ok H n \<and> utxo n = 0
          \<and> depth n \<le> depth (LastBlock bc))
     \<and> node_ok H (LastBlock bc) \<and> utxo (LastBlock bc) = 0
     \<and> Block_Hash H (node_Block (LastBlock bc)) \<in> set (gkeys (blocks bc))
     \<and> length (utxo_mem bc) = 1 \<and> gm_ok (utxo_mem bc ! 0) \<and> utxo_keys_ok H (utxo_mem bc ! 0)"

lemma chain_inv_node:
  assumes "chain_inv H bc" "gget (blocks bc) h = Some n"
  shows "h = Block_Hash H (node_Block n)" "node_ok H n" "utxo n = 0" "depth n \<le> depth (LastBlock bc)"
  using assms(1) map_of_SomeD [OF assms(2)] by (auto simp: chain_inv_def)

lemma chain_inv_last:
  assumes "chain_inv H bc"
  shows "node_ok H (LastBlock bc)" "utxo (LastBlock bc) = 0" "length (utxo_mem bc) = 1"
    "gm_ok (last_utxo bc)" "utxo_keys_ok H (last_utxo bc)"
  using assms by (auto simp: chain_inv_def)

lemma tx_locs_keys: "k \<in> set (tx_locs H t) \<Longrightarrow> \<exists>t i. k = MkTXOLoc (Transaction_Hash H t) i"
  by (auto simp: tx_locs_def)

lemma utxo_keys_ok_apply:
  assumes "utxo_keys_ok H m"
  shows "utxo_keys_ok H (utxo_apply_tx H m t)"
  unfolding utxo_keys_ok_def
proof
  fix k assume "k \<in> set (gkeys (utxo_apply_tx H m t))"
  then have "\<exists>v. ((gget m |` (- tx_spent t)) ++ map_of (rev (zip (tx_locs H t) (tx_Outputs t)))) k = Some v"
    by (simp only: in_gkeys_iff utxo_apply_tx_gget)
  then consider "k \<in> set (tx_locs H t)" | "k \<in> set (gkeys m)"
    by (auto simp: map_add_Some_iff in_gkeys_iff restrict_map_def split: if_splits)
      (metis map_of_SomeD set_rev set_zip_leftD)+
  then show "\<exists>t i. k = MkTXOLoc (Transaction_Hash H t) i"
  proof cases
    case 2
    with assms show ?thesis by (simp add: utxo_keys_ok_def)
  qed (rule tx_locs_keys)
qed

lemma utxo_keys_ok_foldl: "utxo_keys_ok H m \<Longrightarrow> utxo_keys_ok H (foldl (utxo_apply_tx H) m ts)"
  by (induction ts arbitrary: m) (simp_all add: utxo_keys_ok_apply)

lemma gm_ok_foldl_apply [simp]: "gm_ok m \<Longrightarrow> gm_ok (foldl (utxo_apply_tx H) m ts)"
  by (induction ts arbitrary: m) simp_all

text \<open>The genesis state.\<close>

definition gen_block :: "bc_Config \<Rightarrow> Block" where
  "gen_block conf =
     \<lparr>Hdr = \<lparr>Ver = 0, PrvBlkHsh = [], MrklRt = [], Timestamp = 0, DiffTarg = [], Nonce = 0\<rparr>,
      Transactions = [\<lparr>tx_Version = 0, tx_Inputs = [],
        tx_Outputs = [\<lparr>txo_Amount = InitSbsdy conf, txo_LockingScript = GenPK conf, txo_Liminal = False\<rparr>], tx_LockTime = 0\<rparr>]\<rparr>"

lemma GenesisBlock_eq: "GenesisBlock conf = Inr (gen_block conf)"
  by (simp add: GenesisBlock_def gen_block_def Block_Deserialize_def wire_defs)

lemma Blockchain_New_eq:
  "Blockchain_New H conf = Inr
     \<lparr>bc_Addr = [], blocks = [(Block_Hash H (gen_block conf), BlockchainNode (gen_block conf) None 0 0)],
      LastBlock = BlockchainNode (gen_block conf) None 0 0,
      utxo_mem = [[(MkTXOLoc (Transaction_Hash H (Transactions (gen_block conf) ! 0)) 0, tx_Outputs (Transactions (gen_block conf) ! 0) ! 0)]]\<rparr>"
  by (simp add: Blockchain_New_def GenesisBlock_eq Let_def MkTXOLoc_def)

lemma New_inv: "Blockchain_New H conf = Inr bc \<Longrightarrow> chain_inv H bc"
  unfolding Blockchain_New_eq by (auto simp: chain_inv_def utxo_keys_ok_def gkeys_def)

lemma Add_cases:
  assumes "Blockchain_Add H (Some b) bc = Inr bc'"
  obtains p where "gget (blocks bc) (PrvBlkHsh (Hdr b)) = Some p"
    and "bc' = bc\<lparr>utxo_mem := (utxo_mem bc)[utxo p := foldl (utxo_apply_tx H) (node_utxo bc p) (Transactions b)],
        blocks := gset (Block_Hash H b) (BlockchainNode b (Some p) (utxo p) (depth p + 1)) (blocks bc),
        LastBlock := (if depth p + 1 > depth (LastBlock bc) then BlockchainNode b (Some p) (utxo p) (depth p + 1) else LastBlock bc)\<rparr>"
  using assms by (auto simp: Blockchain_Add_def Let_def split: option.splits)

lemma Add_inv:
  assumes inv: "chain_inv H bc" and add: "Blockchain_Add H (Some b) bc = Inr bc'"
  shows "chain_inv H bc'"
proof -
  from add obtain p where p: "gget (blocks bc) (PrvBlkHsh (Hdr b)) = Some p"
    and bc': "bc' = bc\<lparr>utxo_mem := (utxo_mem bc)[utxo p := foldl (utxo_apply_tx H) (node_utxo bc p) (Transactions b)],
        blocks := gset (Block_Hash H b) (BlockchainNode b (Some p) (utxo p) (depth p + 1)) (blocks bc),
        LastBlock := (if depth p + 1 > depth (LastBlock bc) then BlockchainNode b (Some p) (utxo p) (depth p + 1) else LastBlock bc)\<rparr>"
    by (rule Add_cases)
  note pn = chain_inv_node [OF inv p]
  have ok: "node_ok H (BlockchainNode b (Some p) 0 (depth p + 1))" using pn by simp
  have mem: "length (utxo_mem bc) = 1" "gm_ok (utxo_mem bc ! 0)" "utxo_keys_ok H (utxo_mem bc ! 0)"
    using inv by (simp_all add: chain_inv_def)
  have nodes: "h = Block_Hash H (node_Block n) \<and> node_ok H n \<and> utxo n = 0 \<and> depth n \<le> depth (LastBlock bc')"
    if "gget (blocks bc') h = Some n" for h n
    using that chain_inv_node [OF inv, of h n] pn ok by (auto simp: bc' split: if_splits)
  have gm: "gm_ok (blocks bc')" using inv by (simp add: bc' chain_inv_def)
  have "\<forall>(h, n) \<in> set (blocks bc'). h = Block_Hash H (node_Block n) \<and> node_ok H n \<and> utxo n = 0 \<and> depth n \<le> depth (LastBlock bc')"
    using nodes gm_ok_gget [OF gm] by blast
  moreover have "Block_Hash H (node_Block (LastBlock bc')) \<in> set (gkeys (blocks bc'))"
    using inv by (simp add: bc' chain_inv_def gkeys_gset)
  moreover have "gm_ok (utxo_mem bc' ! 0)" "utxo_keys_ok H (utxo_mem bc' ! 0)" "length (utxo_mem bc') = 1"
    using mem pn by (simp_all add: bc' utxo_keys_ok_foldl)
  moreover have "node_ok H (LastBlock bc')" "utxo (LastBlock bc') = 0"
    using chain_inv_last [OF inv] pn ok by (simp_all add: bc')
  ultimately show ?thesis using gm by (simp add: chain_inv_def)
qed

section \<open>Outputs for a payment: lemmas\<close>

definition avail :: "utxo_map \<Rightarrow> string \<Rightarrow> string \<Rightarrow> bool" where
  "avail m pk k \<longleftrightarrow> (case gget m k of None \<Rightarrow> False | Some v \<Rightarrow> txo_LockingScript v = pk \<and> \<not> txo_Liminal v)"

definition worth :: "utxo_map \<Rightarrow> string \<Rightarrow> u32" where
  "worth m k = (case gget m k of None \<Rightarrow> 0 | Some v \<Rightarrow> txo_Amount v)"

text \<open>The locators the loop takes, the map with these marked, and the entry of the result.\<close>

fun picked :: "u32 \<Rightarrow> string \<Rightarrow> utxo_map \<Rightarrow> u32 \<Rightarrow> string list \<Rightarrow> string list" where
  "picked amt pk m cur [] = []"
| "picked amt pk m cur (k # ks) =
     (if cur \<ge> amt then [] else if avail m pk k then k # picked amt pk m (cur + worth m k) ks else picked amt pk m cur ks)"

definition marked :: "string set \<Rightarrow> utxo_map \<Rightarrow> string \<rightharpoonup> TransactionOutput" where
  "marked K m = (\<lambda>k. if k \<in> K then map_option (\<lambda>v. v\<lparr>txo_Liminal := True\<rparr>) (gget m k) else gget m k)"

definition info_for :: "utxo_map \<Rightarrow> string \<Rightarrow> UTXOInfo" where
  "info_for m k = (case PrsTXOLoc k of Inl _ \<Rightarrow> undefined | Inr (h, i) \<Rightarrow>
     \<lparr>TxHsh = h, OutIdx = i, info_UTXO = (the (gget m k))\<lparr>txo_Liminal := True\<rparr>, Amt = worth m k\<rparr>)"

lemma picked_cong: "(\<And>k. k \<in> set ks \<Longrightarrow> gget m k = gget m' k) \<Longrightarrow> picked amt pk m cur ks = picked amt pk m' cur ks"
  by (induction ks arbitrary: cur) (simp_all add: avail_def worth_def)

lemma picked_sub: "set (picked amt pk m cur ks) \<subseteq> set ks"
  by (induction ks arbitrary: cur) auto

lemma picked_avail: "k \<in> set (picked amt pk m cur ks) \<Longrightarrow> avail m pk k"
  by (induction ks arbitrary: cur) (auto split: if_splits)

lemma picked_distinct: "distinct ks \<Longrightarrow> distinct (picked amt pk m cur ks)"
proof (induction ks arbitrary: cur)
  case (Cons k ks)
  then show ?case using picked_sub [of amt pk m "cur + worth m k" ks] by auto
qed simp

lemma gget_cong: "gget m k = gget m' k \<Longrightarrow> worth m k = worth m' k \<and> info_for m k = info_for m' k"
  by (simp add: worth_def info_for_def split: sum.splits prod.splits)

lemma loop_picked:
  assumes "distinct ks" "\<And>k. k \<in> set ks \<Longrightarrow> \<exists>t i. k = MkTXOLoc (Transaction_Hash H t) i" "gm_ok m"
  shows "\<exists>m'. GetUTXOForAmt_loop amt pk ks m cur infos =
      Inr (m', cur + sum_list (map (worth m) (picked amt pk m cur ks)), infos @ map (info_for m) (picked amt pk m cur ks))
    \<and> gm_ok m' \<and> gget m' = marked (set (picked amt pk m cur ks)) m"
  using assms
proof (induction ks arbitrary: m cur infos)
  case (Cons k ks)
  show ?case
  proof (cases "\<not> cur \<ge> amt \<and> avail m pk k")
    case True
    then obtain v where v: "gget m k = Some v" "txo_LockingScript v = pk" "\<not> txo_Liminal v"
      by (auto simp: avail_def split: option.splits)
    obtain t i where k: "k = MkTXOLoc (Transaction_Hash H t) i" using Cons.prems(2) [of k] by auto
    have prs: "PrsTXOLoc k = Inr (Transaction_Hash H t, i)" by (simp add: k PrsTXOLoc_MkTXOLoc minus_not_hash)
    let ?m = "gset k (v\<lparr>txo_Liminal := True\<rparr>) m"
    let ?p = "picked amt pk m (cur + worth m k) ks"
    have agree: "gget ?m j = gget m j" if "j \<in> set ks" for j using Cons.prems(1) that by auto
    have pc: "picked amt pk ?m (cur + worth m k) ks = ?p" by (rule picked_cong) (rule agree)
    have maps: "map (worth ?m) ?p = map (worth m) ?p" "map (info_for ?m) ?p = map (info_for m) ?p"
      using gget_cong [OF agree] picked_sub [of amt pk m "cur + worth m k" ks] by (auto simp del: gget_gset)
    from Cons.IH [of ?m "cur + worth m k" "infos @ [info_for m k]"] Cons.prems(1,3) Cons.prems(2)
    obtain m' where m': "GetUTXOForAmt_loop amt pk ks ?m (cur + worth m k) (infos @ [info_for m k]) =
        Inr (m', cur + worth m k + sum_list (map (worth m) ?p), (infos @ [info_for m k]) @ map (info_for m) ?p)"
        "gm_ok m'" "gget m' = marked (set ?p) ?m"
      unfolding pc maps by auto
    have "k \<notin> set ?p" using Cons.prems(1) picked_sub [of amt pk m _ ks] by auto
    then have "gget m' = marked (insert k (set ?p)) m" unfolding m'(3) by (auto simp: marked_def v(1))
    moreover have "info_for m k = \<lparr>TxHsh = Transaction_Hash H t, OutIdx = i, info_UTXO = v\<lparr>txo_Liminal := True\<rparr>, Amt = txo_Amount v\<rparr>"
      by (simp add: info_for_def prs v(1) worth_def)
    moreover have "worth m k = txo_Amount v" by (simp add: worth_def v(1))
    ultimately show ?thesis using True m'(1,2) v prs by (simp add: Let_def add.assoc)
  next
    case False
    show ?thesis
    proof (cases "cur \<ge> amt")
      case True
      then show ?thesis using Cons.prems by (simp add: marked_def)
    next
      case ncur: False
      with False have "\<not> avail m pk k" by simp
      then show ?thesis using Cons.IH [of m cur infos] Cons.prems ncur
        by (auto simp: avail_def split: option.splits if_splits)
    qed
  qed
qed (simp add: marked_def)

text \<open>The value available to a key, as a number: no wrap-around.\<close>

definition avail_value :: "utxo_map \<Rightarrow> string \<Rightarrow> nat" where
  "avail_value m pk = sum_list (map (\<lambda>k. unat (worth m k)) (filter (avail m pk) (gkeys m)))"

lemma avail_value_order:
  assumes "range_order m ks"
  shows "sum_list (map (\<lambda>k. unat (worth m k)) (filter (avail m pk) ks)) = avail_value m pk"
proof -
  have "mset (map (\<lambda>k. unat (worth m k)) (filter (avail m pk) ks)) = mset (map (\<lambda>k. unat (worth m k)) (filter (avail m pk) (gkeys m)))"
    using assms by (simp add: range_order_def)
  from sum_list_mset_eq [OF this] show ?thesis by (simp only: avail_value_def)
qed

lemma picked_sum:
  fixes amt :: u32
  assumes "unat cur + sum_list (map (\<lambda>k. unat (worth m k)) (filter (avail m pk) ks)) < 2 ^ 32"
  defines "P \<equiv> picked amt pk m cur ks"
  shows "unat (cur + sum_list (map (worth m) P)) = unat cur + sum_list (map (\<lambda>k. unat (worth m k)) P)
    \<and> (unat amt \<le> unat cur + sum_list (map (\<lambda>k. unat (worth m k)) P) \<longleftrightarrow>
         unat amt \<le> unat cur + sum_list (map (\<lambda>k. unat (worth m k)) (filter (avail m pk) ks)))
    \<and> (unat cur + sum_list (map (\<lambda>k. unat (worth m k)) P) < unat amt \<longrightarrow> P = filter (avail m pk) ks)
    \<and> (P \<noteq> [] \<longrightarrow> unat cur + sum_list (map (\<lambda>k. unat (worth m k)) (butlast P)) < unat amt)"
  using assms(1) unfolding P_def
proof (induction ks arbitrary: cur)
  case (Cons k ks)
  show ?case
  proof (cases "\<not> amt \<le> cur \<and> avail m pk k")
    case True
    then have "unat cur + unat (worth m k) < 2 ^ 32" using Cons.prems by simp
    then have u: "unat (cur + worth m k) = unat cur + unat (worth m k)" by (simp add: unat_word_ariths)
    have lt: "unat cur < unat amt" using True by (simp add: not_le word_less_nat_alt)
    show ?thesis using Cons.IH [of "cur + worth m k"] Cons.prems True lt u by (auto simp: add.assoc)
  next
    case False
    then show ?thesis using Cons.IH [of cur] Cons.prems by (auto simp: word_le_nat_alt)
  qed
qed simp

lemma GetUTXOForAmt_eq:
  fixes amt :: u32 and pk :: string
  assumes "chain_inv H bc" "range_order (last_utxo bc) ks"
  defines "P \<equiv> picked amt pk (last_utxo bc) 0 ks"
  obtains m' where "gm_ok m'" "gget m' = marked (set P) (last_utxo bc)"
    and "GetUTXOForAmt ks amt pk bc =
      (let bc' = bc\<lparr>utxo_mem := (utxo_mem bc)[utxo (LastBlock bc) := m']\<rparr>; cur = sum_list (map (worth (last_utxo bc)) P)
       in if cur < amt then Inr (bc', [], 0, False) else Inr (bc', map (info_for (last_utxo bc)) P, cur - amt, True))"
proof -
  have d: "distinct ks" using range_order_distinct [OF assms(2) chain_inv_last(4) [OF assms(1)]] .
  have "\<And>k. k \<in> set ks \<Longrightarrow> \<exists>t i. k = MkTXOLoc (Transaction_Hash H t) i"
    using chain_inv_last(5) [OF assms(1)] range_order_set [OF assms(2)] by (auto simp: utxo_keys_ok_def simp del: MkTXOLoc_inj)
  from loop_picked [OF d this chain_inv_last(4) [OF assms(1)], of amt pk 0 "[]"]
  obtain m' where "GetUTXOForAmt_loop amt pk ks (last_utxo bc) 0 [] =
      Inr (m', sum_list (map (worth (last_utxo bc)) P), map (info_for (last_utxo bc)) P)"
      "gm_ok m'" "gget m' = marked (set P) (last_utxo bc)"
    unfolding P_def by auto
  then show thesis by (intro that [of m']) (simp_all add: GetUTXOForAmt_def Let_def)
qed

lemma marked_keys: "gget m' = marked K m \<Longrightarrow> set (gkeys m') = set (gkeys m)"
  by (auto simp: set_eq_iff in_gkeys_iff marked_def split: if_splits)

lemma marked_abs: "gget m' = marked K m \<Longrightarrow> utxo_abs m' = utxo_abs m"
  by (auto simp: utxo_abs_def marked_def fun_eq_iff unmark_def [abs_def] option.map_comp comp_def)

lemma GetUTXOForAmt_inv:
  assumes "chain_inv H bc" "range_order (last_utxo bc) ks" "GetUTXOForAmt ks amt pk bc = Inr (bc', infos, change, ok)"
  shows "chain_inv H bc' \<and> LastBlock bc' = LastBlock bc \<and> blocks bc' = blocks bc
    \<and> utxo_abs (last_utxo bc') = utxo_abs (last_utxo bc)"
proof -
  from GetUTXOForAmt_eq [OF assms(1,2)] obtain m' where m': "gm_ok m'"
      "gget m' = marked (set (picked amt pk (last_utxo bc) 0 ks)) (last_utxo bc)"
    and "GetUTXOForAmt ks amt pk bc = (let bc' = bc\<lparr>utxo_mem := (utxo_mem bc)[utxo (LastBlock bc) := m']\<rparr>;
         cur = sum_list (map (worth (last_utxo bc)) (picked amt pk (last_utxo bc) 0 ks))
       in if cur < amt then Inr (bc', [], 0, False)
          else Inr (bc', map (info_for (last_utxo bc)) (picked amt pk (last_utxo bc) 0 ks), cur - amt, True))"
    by metis
  with assms(3) have bc': "bc' = bc\<lparr>utxo_mem := (utxo_mem bc)[utxo (LastBlock bc) := m']\<rparr>"
    by (simp add: Let_def split: if_splits)
  have l: "utxo_mem bc' ! 0 = m'" "length (utxo_mem bc') = 1"
    using chain_inv_last [OF assms(1)] by (simp_all add: bc')
  have "utxo_keys_ok H m'"
    using chain_inv_last(5) [OF assms(1)] marked_keys [OF m'(2)] by (simp add: utxo_keys_ok_def)
  then have "chain_inv H bc'" using assms(1) m'(1) l by (simp add: chain_inv_def bc')
  moreover have "utxo_abs (last_utxo bc') = utxo_abs (last_utxo bc)"
    using marked_abs [OF m'(2)] chain_inv_last [OF assms(1)] l by (simp add: bc')
  ultimately show ?thesis by (simp add: bc')
qed

section \<open>Runs\<close>

text \<open>
  The states a chain passes through: made from a configuration, given an address, extended by
  blocks, and asked for outputs. The index is the list of the blocks added so far, in their order.
\<close>

inductive chain_run :: "(byte list \<Rightarrow> byte list) \<Rightarrow> bc_Config \<Rightarrow> Block list \<Rightarrow> Blockchain \<Rightarrow> bool" for H conf where
  run_new: "Blockchain_New H conf = Inr bc \<Longrightarrow> chain_run H conf [] bc"
| run_add: "chain_run H conf bs bc \<Longrightarrow> Blockchain_Add H (Some b) bc = Inr bc' \<Longrightarrow> chain_run H conf (bs @ [b]) bc'"
| run_addr: "chain_run H conf bs bc \<Longrightarrow> chain_run H conf bs (Blockchain_SetAddr a bc)"
| run_reserve: "chain_run H conf bs bc \<Longrightarrow> range_order (last_utxo bc) ks
    \<Longrightarrow> GetUTXOForAmt ks amt pk bc = Inr (bc', infos, change, ok) \<Longrightarrow> chain_run H conf bs bc'"

lemma SetAddr_simps [simp]:
  "chain_inv H (Blockchain_SetAddr a bc) = chain_inv H bc" "LastBlock (Blockchain_SetAddr a bc) = LastBlock bc"
  "blocks (Blockchain_SetAddr a bc) = blocks bc" "utxo_mem (Blockchain_SetAddr a bc) = utxo_mem bc"
  by (simp_all add: Blockchain_SetAddr_def chain_inv_def)

lemma run_inv: "chain_run H conf bs bc \<Longrightarrow> chain_inv H bc"
proof (induction rule: chain_run.induct)
  case (run_new bc)
  then show ?case by (rule New_inv)
next
  case (run_add bs bc b bc')
  then show ?case using Add_inv by blast
next
  case (run_reserve bs bc ks amt pk bc' infos change ok)
  then show ?case using GetUTXOForAmt_inv by blast
qed simp

text \<open>
  The contract a chain offers its clients: adding a block keeps the invariant, and the main chain
  stays or is replaced by a chain that is one block longer and ends in the new block.
\<close>

locale append_chain =
  fixes inv :: "'c \<Rightarrow> bool"
    and chain :: "'c \<Rightarrow> 'b list"
    and add :: "'b \<Rightarrow> 'c \<Rightarrow> 'c go"
  assumes add_inv: "inv c \<Longrightarrow> add b c = Inr c' \<Longrightarrow> inv c'"
    and add_chain: "inv c \<Longrightarrow> add b c = Inr c' \<Longrightarrow>
      chain c' = chain c \<or> (\<exists>pre. chain c' = pre @ [b] \<and> length pre = length (chain c))"
begin

lemma adds_inv: "inv c \<Longrightarrow> go_fold add bs c = Inr c' \<Longrightarrow> inv c'"
  using go_fold_inv [of inv add] add_inv by blast

lemma adds_length:
  "inv c \<Longrightarrow> go_fold add bs c = Inr c' \<Longrightarrow>
     length (chain c) \<le> length (chain c') \<and> length (chain c') \<le> length (chain c) + length bs"
proof (induction bs arbitrary: c)
  case (Cons b bs)
  then obtain d where d: "add b c = Inr d" "go_fold add bs d = Inr c'" by (auto simp: go_simps)
  have "length (chain d) = length (chain c) \<or> length (chain d) = length (chain c) + 1"
    using add_chain [OF Cons.prems(1) d(1)] by auto
  with Cons.IH [OF add_inv [OF Cons.prems(1) d(1)] d(2)] show ?case by auto
qed simp

lemma adds_same:
  "inv c \<Longrightarrow> go_fold add bs c = Inr c' \<Longrightarrow> length (chain c') \<le> length (chain c) \<Longrightarrow> chain c' = chain c"
proof (induction bs arbitrary: c)
  case (Cons b bs)
  then obtain d where d: "add b c = Inr d" "go_fold add bs d = Inr c'" by (auto simp: go_simps)
  have "chain d = chain c"
    using add_chain [OF Cons.prems(1) d(1)] adds_length [OF add_inv [OF Cons.prems(1) d(1)] d(2)] Cons.prems(3) by auto
  with Cons.IH [OF add_inv [OF Cons.prems(1) d(1)] d(2)] Cons.prems(3) show ?case by simp
qed simp

end

lemma Add_chain:
  assumes inv: "chain_inv H bc" and add: "Blockchain_Add H (Some b) bc = Inr bc'"
  shows "chain_of (LastBlock bc') = chain_of (LastBlock bc) \<or>
    (\<exists>pre. chain_of (LastBlock bc') = pre @ [b] \<and> length pre = length (chain_of (LastBlock bc)))"
proof -
  from add obtain p where p: "gget (blocks bc) (PrvBlkHsh (Hdr b)) = Some p"
    and bc': "LastBlock bc' = (if depth p + 1 > depth (LastBlock bc) then BlockchainNode b (Some p) (utxo p) (depth p + 1) else LastBlock bc)"
    by (rule Add_cases) simp
  note pn = chain_inv_node [OF inv p]
  have "int (length (chain_of p)) = int (length (chain_of (LastBlock bc)))" if "depth p + 1 > depth (LastBlock bc)"
    using length_chain_of [OF pn(2)] length_chain_of [OF chain_inv_last(1) [OF inv]] pn(4) that by simp
  then show ?thesis by (auto simp: bc')
qed

interpretation bch: append_chain "chain_inv H" "\<lambda>bc. chain_of (LastBlock bc)" "\<lambda>b bc. Blockchain_Add H (Some b) bc" for H
  by unfold_locales (rule Add_inv, assumption+, rule Add_chain, assumption+)

lemma run_root: "chain_run H conf bs bc \<Longrightarrow>
    hd (chain_of (LastBlock bc)) = gen_block conf \<and> (\<forall>h n. gget (blocks bc) h = Some n \<longrightarrow> hd (chain_of n) = gen_block conf)"
proof (induction rule: chain_run.induct)
  case (run_new bc)
  then show ?case by (auto simp: Blockchain_New_eq split: if_splits)
next
  case (run_add bs bc b bc')
  from run_add.hyps(2) show ?case
  proof (rule Add_cases)
    fix p assume p: "gget (blocks bc) (PrvBlkHsh (Hdr b)) = Some p"
      and bc': "bc' = bc\<lparr>utxo_mem := (utxo_mem bc)[utxo p := foldl (utxo_apply_tx H) (node_utxo bc p) (Transactions b)],
        blocks := gset (Block_Hash H b) (BlockchainNode b (Some p) (utxo p) (depth p + 1)) (blocks bc),
        LastBlock := (if depth p + 1 > depth (LastBlock bc) then BlockchainNode b (Some p) (utxo p) (depth p + 1) else LastBlock bc)\<rparr>"
    have "hd (chain_of p) = gen_block conf" using run_add.IH p by blast
    then show ?case using run_add.IH by (simp add: bc')
  qed
next
  case (run_reserve bs bc ks amt pk bc' infos change ok)
  then show ?case using GetUTXOForAmt_inv [OF run_inv] by metis
qed simp

lemma run_ledger: "chain_run H conf bs bc \<Longrightarrow> utxo_abs (utxo_mem bc ! 0) = ledger_of H (gen_block conf # bs)"
proof (induction rule: chain_run.induct)
  case (run_new bc)
  then show ?case
    by (auto simp: Blockchain_New_eq gen_block_def utxo_abs_def ledger_of_def ledger_tx_def tx_created_def tx_locs_def unmark_def)
next
  case (run_add bs bc b bc')
  from run_add.hyps(2) obtain p where p: "gget (blocks bc) (PrvBlkHsh (Hdr b)) = Some p"
    and mem: "utxo_mem bc' = (utxo_mem bc)[utxo p := foldl (utxo_apply_tx H) (node_utxo bc p) (Transactions b)]"
    by (rule Add_cases) simp
  have "utxo p = 0" "length (utxo_mem bc) = 1"
    using chain_inv_node [OF run_inv [OF run_add.hyps(1)] p] chain_inv_last [OF run_inv [OF run_add.hyps(1)]] by simp_all
  then show ?case using run_add.IH mem by (simp add: us.look_foldl ledger_of_def)
next
  case (run_reserve bs bc ks amt pk bc' infos change ok)
  have "LastBlock bc' = LastBlock bc" "utxo_abs (last_utxo bc') = utxo_abs (last_utxo bc)"
    using GetUTXOForAmt_inv [OF run_inv [OF run_reserve.hyps(1)] run_reserve.hyps(2,3)] by blast+
  then show ?case using chain_inv_last(2) [OF run_inv [OF run_reserve.hyps(1)]] run_reserve.IH by simp
qed simp

lemma run_list: "chain_run H conf bs bc \<Longrightarrow> Blockchain_List bc = Inr (chain_of (LastBlock bc))"
  using List_loop_chain [OF chain_inv_last(1) [OF run_inv], of H conf bs bc "[]"] by (simp add: Blockchain_List_def)

lemma run_utxo:
  assumes "chain_run H conf bs bc"
  shows "utxo_abs (last_utxo bc) = ledger_of H (gen_block conf # bs)"
    "gget (blocks bc) h = Some n \<Longrightarrow> utxo_abs (node_utxo bc n) = ledger_of H (gen_block conf # bs)"
  using run_ledger [OF assms] chain_inv_last(2) [OF run_inv [OF assms]] chain_inv_node(3) [OF run_inv [OF assms]] by simp_all

section \<open>Properties of the chain\<close>

text \<open>
  A chain for witnesses: a block on the genesis block, and a second block on the genesis
  block. The numbers \<open>v\<close> and \<open>n\<close> tell blocks and transactions apart.
\<close>

definition demo_conf :: bc_Config where
  "demo_conf = \<lparr>HasChn = True, InitSbsdy = 9, GenPK = ''aa''\<rparr>"

definition demo_cb :: "u32 \<Rightarrow> u32 \<Rightarrow> string \<Rightarrow> u32 \<Rightarrow> Transaction" where
  "demo_cb v n pk amt =
     \<lparr>tx_Version = v, tx_Inputs = [], tx_Outputs = [\<lparr>txo_Amount = amt, txo_LockingScript = pk, txo_Liminal = False\<rparr>], tx_LockTime = n\<rparr>"

definition demo_next :: "Block \<Rightarrow> u32 \<Rightarrow> u32 \<Rightarrow> string \<Rightarrow> u32 \<Rightarrow> Block" where
  "demo_next prev v n pk amt =
     \<lparr>Hdr = \<lparr>Ver = v, PrvBlkHsh = Block_Hash length_digest prev, MrklRt = [], Timestamp = 0, DiffTarg = [], Nonce = n\<rparr>,
      Transactions = [demo_cb v n pk amt]\<rparr>"

definition demo_b1 :: Block where
  "demo_b1 = demo_next (gen_block demo_conf) 0 10 ''bbb'' 7"

definition demo_fork :: Block where
  "demo_fork = demo_next (gen_block demo_conf) 10 10 ''aa'' 5"

definition demo_start :: Blockchain where
  "demo_start = projr (Blockchain_New length_digest demo_conf)"

definition demo_chain :: Blockchain where
  "demo_chain = projr (Blockchain_Add length_digest (Some demo_b1) demo_start)"

definition demo_n0 :: BlockchainNode where
  "demo_n0 = BlockchainNode (gen_block demo_conf) None 0 0"

definition demo_n1 :: BlockchainNode where
  "demo_n1 = BlockchainNode demo_b1 (Some demo_n0) 0 1"

definition num_hash :: "byte \<Rightarrow> string" where
  "num_hash n = hex_EncodeToString (replicate 31 0 @ [n])"

lemma num_hash_inj [simp]: "num_hash a = num_hash b \<longleftrightarrow> a = b"
  by (simp add: num_hash_def hex_Encode_inj)

lemma demo_hash:
  "Block_Hash length_digest (gen_block demo_conf) = num_hash 10"
  "Block_Hash length_digest demo_b1 = num_hash 75" "Block_Hash length_digest demo_fork = num_hash 76"
  "Transaction_Hash length_digest (demo_cb 0 10 ''bbb'' 7) = num_hash 70"
  "Transaction_Hash length_digest (demo_cb 10 10 ''aa'' 5) = num_hash 71"
  "Transaction_Hash length_digest (Transactions (gen_block demo_conf) ! 0) = num_hash 69"
  by (simp_all add: Block_Hash_def utils_Hash_def length_digest_def gen_block_def demo_next_def Header_fmt_def
      demo_b1_def demo_fork_def demo_cb_def Transaction_Hash_def Transaction_data_def TransactionOutput_Hash_def num_hash_def eval_simps)

lemma demo_prev:
  "PrvBlkHsh (Hdr demo_b1) = num_hash 10" "PrvBlkHsh (Hdr demo_fork) = num_hash 10"
  "Transactions demo_b1 = [demo_cb 0 10 ''bbb'' 7]" "Transactions demo_fork = [demo_cb 10 10 ''aa'' 5]"
  by (simp_all add: demo_b1_def demo_fork_def demo_next_def demo_hash)

lemma demo_apply:
  "utxo_apply_tx H m (demo_cb v n pk amt) =
     gset (MkTXOLoc (Transaction_Hash H (demo_cb v n pk amt)) 0) \<lparr>txo_Amount = amt, txo_LockingScript = pk, txo_Liminal = False\<rparr> m"
  by (simp add: utxo_apply_tx_def demo_cb_def)

lemma demo_start_eq:
  "demo_start = \<lparr>bc_Addr = [], blocks = [(num_hash 10, demo_n0)], LastBlock = demo_n0,
     utxo_mem = [[(MkTXOLoc (num_hash 69) 0, \<lparr>txo_Amount = 9, txo_LockingScript = ''aa'', txo_Liminal = False\<rparr>)]]\<rparr>"
  by (simp add: demo_start_def Blockchain_New_eq demo_hash demo_n0_def) (simp add: gen_block_def demo_conf_def)

lemma demo_chain_add: "Blockchain_Add length_digest (Some demo_b1) demo_start = Inr demo_chain"
  by (simp add: demo_chain_def demo_start_eq Blockchain_Add_def demo_prev Let_def)

lemma demo_chain_eq:
  "demo_chain = \<lparr>bc_Addr = [], blocks = [(num_hash 10, demo_n0), (num_hash 75, demo_n1)], LastBlock = demo_n1,
     utxo_mem = [[(MkTXOLoc (num_hash 69) 0, \<lparr>txo_Amount = 9, txo_LockingScript = ''aa'', txo_Liminal = False\<rparr>),
                  (MkTXOLoc (num_hash 70) 0, \<lparr>txo_Amount = 7, txo_LockingScript = ''bbb'', txo_Liminal = False\<rparr>)]]\<rparr>"
  by (simp add: demo_chain_def demo_start_eq Blockchain_Add_def demo_prev Let_def demo_hash demo_apply demo_n1_def)
     (simp add: demo_n0_def)

lemma demo_start_run: "chain_run length_digest demo_conf [] demo_start"
  by (rule run_new) (simp add: demo_start_def Blockchain_New_eq)

lemma demo_chain_run: "chain_run length_digest demo_conf [demo_b1] demo_chain"
  using run_add [OF demo_start_run demo_chain_add] by simp

lemmas demo_nodes = demo_n0_def demo_n1_def

text \<open>
  C9: The main chain. In every state a chain can reach, \<open>List\<close> returns without a panic; its
  result starts with the genesis block, ends with the last block, links every block to the hash
  of the block before it, and has \<open>Length\<close> blocks; and no known block is deeper than the last
  block of the main chain.
\<close>

theorem main_chain_invariant:
  assumes "chain_run H conf bs bc"
  shows "\<exists>chain. Blockchain_List bc = Inr chain \<and> chain \<noteq> [] \<and> hd chain = gen_block conf \<and> last chain = GetLastBlock bc
    \<and> linked H chain \<and> int (length chain) = Blockchain_Length bc \<and> (\<forall>h. IndexOf bc h < Blockchain_Length bc)"
proof (intro exI conjI allI)
  note inv = run_inv [OF assms]
  show "Blockchain_List bc = Inr (chain_of (LastBlock bc))" by (rule run_list [OF assms])
  show "hd (chain_of (LastBlock bc)) = gen_block conf" using run_root [OF assms] by blast
  show "linked H (chain_of (LastBlock bc))" by (rule linked_chain_of [OF chain_inv_last(1) [OF inv]])
  show len: "int (length (chain_of (LastBlock bc))) = Blockchain_Length bc"
    using length_chain_of [OF chain_inv_last(1) [OF inv]] by (simp add: Blockchain_Length_def)
  show "IndexOf bc h < Blockchain_Length bc" for h
    using chain_inv_node(4) [OF inv, of h] len
    by (auto simp: IndexOf_def Blockchain_Length_def split: option.splits)
qed (simp_all add: GetLastBlock_def)

theorem main_chain_invariant_witness:
  "\<exists>chain. Blockchain_List demo_chain = Inr chain \<and> hd chain = gen_block demo_conf \<and> int (length chain) = 2"
proof -
  have "Blockchain_Length demo_chain = 2"
    by (simp add: demo_chain_eq demo_nodes Blockchain_Length_def)
  with main_chain_invariant [OF demo_chain_run] show ?thesis by auto
qed

text \<open>
  Adding a block, every branch. A nil block changes nothing. A block whose parent is unknown
  dereferences nil. Otherwise the block becomes known at one more than its parent's index, and the
  main chain either stays as it was, or, exactly when the new index exceeds the old height,
  becomes a chain that ends in the new block and is one block longer.
\<close>

theorem Blockchain_Add_outcomes:
  assumes "chain_run H conf bs bc"
  shows "Blockchain_Add H None bc = Inr bc
    \<and> (Blockchain_Add H (Some b) bc = Inl e \<longleftrightarrow> IndexOf bc (PrvBlkHsh (Hdr b)) = -1 \<and> e = NilDeref)
    \<and> (Blockchain_Add H (Some b) bc = Inr bc' \<longrightarrow>
        IndexOf bc' (Block_Hash H b) = IndexOf bc (PrvBlkHsh (Hdr b)) + 1
        \<and> (if IndexOf bc (PrvBlkHsh (Hdr b)) + 1 < Blockchain_Length bc then Blockchain_List bc' = Blockchain_List bc
           else \<exists>pre. Blockchain_List bc' = Inr (pre @ [b]) \<and> int (length pre) = Blockchain_Length bc))"
proof (intro conjI impI)
  note inv = run_inv [OF assms]
  have pos: "depth n \<ge> 0" if "gget (blocks bc) h = Some n" for h n
    using length_chain_of [OF chain_inv_node(2) [OF inv that]] by (cases "chain_of n") auto
  show "Blockchain_Add H (Some b) bc = Inl e \<longleftrightarrow> IndexOf bc (PrvBlkHsh (Hdr b)) = -1 \<and> e = NilDeref"
    using pos by (fastforce simp: Blockchain_Add_def IndexOf_def Let_def split: option.splits)
  assume add: "Blockchain_Add H (Some b) bc = Inr bc'"
  then obtain p where p: "gget (blocks bc) (PrvBlkHsh (Hdr b)) = Some p"
    and bl: "blocks bc' = gset (Block_Hash H b) (BlockchainNode b (Some p) (utxo p) (depth p + 1)) (blocks bc)"
    and la: "LastBlock bc' = (if depth p + 1 > depth (LastBlock bc) then BlockchainNode b (Some p) (utxo p) (depth p + 1) else LastBlock bc)"
    by (rule Add_cases) simp
  show "IndexOf bc' (Block_Hash H b) = IndexOf bc (PrvBlkHsh (Hdr b)) + 1" by (simp add: IndexOf_def bl p)
  have l: "Blockchain_List bc' = Inr (chain_of (LastBlock bc'))" "Blockchain_List bc = Inr (chain_of (LastBlock bc))"
    using run_list [OF run_add [OF assms add]] run_list [OF assms] by simp_all
  have "int (length (chain_of p)) = depth p + 1" by (rule length_chain_of [OF chain_inv_node(2) [OF inv p]])
  then show "if IndexOf bc (PrvBlkHsh (Hdr b)) + 1 < Blockchain_Length bc then Blockchain_List bc' = Blockchain_List bc
      else \<exists>pre. Blockchain_List bc' = Inr (pre @ [b]) \<and> int (length pre) = Blockchain_Length bc"
    using chain_inv_node(4) [OF inv p] by (simp add: IndexOf_def p l la Blockchain_Length_def)
qed (simp add: Blockchain_Add_def)

theorem Blockchain_Add_outcomes_witness:
  "IndexOf demo_chain (Block_Hash length_digest demo_b1) = 1 \<and> (\<exists>pre. Blockchain_List demo_chain = Inr (pre @ [demo_b1]))"
proof -
  have "IndexOf demo_start (PrvBlkHsh (Hdr demo_b1)) = 0" "Blockchain_Length demo_start = 1"
    by (simp_all add: demo_start_eq demo_nodes demo_prev Blockchain_Length_def IndexOf_def)
  with Blockchain_Add_outcomes [OF demo_start_run, of demo_b1 NilDeref demo_chain] demo_chain_add show ?thesis by auto
qed

text \<open>
  \<open>Slice\<close> cuts the main chain. In every reachable state \<open>Slice s e\<close> is the part of \<open>List\<close>
  from index \<open>s\<close> (or 0, for a negative \<open>s\<close>) up to but not including index \<open>e\<close>, and the whole
  chain is \<open>Slice 0 Length\<close>.
\<close>

theorem Slice_of_List:
  assumes "chain_run H conf bs bc" "Blockchain_List bc = Inr chain"
  shows "Blockchain_Slice bc s e = drop (nat s) (take (nat e) chain) \<and> Blockchain_Slice bc 0 (Blockchain_Length bc) = chain"
proof -
  note ok = chain_inv_last(1) [OF run_inv [OF assms(1)]]
  have c: "chain = chain_of (LastBlock bc)" using run_list [OF assms(1)] assms(2) by simp
  have "nat (Blockchain_Length bc) = length chain" using length_chain_of [OF ok] by (simp add: c Blockchain_Length_def)
  then show ?thesis using Slice_loop_chain [OF ok, of _ _ "[]"] by (simp add: c Blockchain_Slice_def)
qed

theorem Slice_of_List_witness: "Blockchain_Slice demo_chain 1 2 = [demo_b1]"
proof -
  have "Blockchain_List demo_chain = Inr [gen_block demo_conf, demo_b1]"
    by (simp add: run_list [OF demo_chain_run]) (simp add: demo_chain_eq demo_nodes)
  from Slice_of_List [OF demo_chain_run this, of 1 2] show ?thesis by simp
qed

lemma linear_run:
  assumes "chain_run H conf bs bc" "linked H (gen_block conf # bs)" "distinct (map (Block_Hash H) (gen_block conf # bs))"
  shows "chain_of (LastBlock bc) = gen_block conf # bs
    \<and> gget (blocks bc) (Block_Hash H (last (gen_block conf # bs))) = Some (LastBlock bc)"
  using assms
proof (induction rule: chain_run.induct)
  case (run_new bc)
  then show ?case by (auto simp: Blockchain_New_eq)
next
  case (run_add bs bc b bc')
  have lk: "linked H (gen_block conf # bs)" "PrvBlkHsh (Hdr b) = Block_Hash H (last (gen_block conf # bs))"
    using run_add.prems(1) linked_snoc [of H "gen_block conf # bs" b] by simp_all
  have IH: "chain_of (LastBlock bc) = gen_block conf # bs"
      "gget (blocks bc) (PrvBlkHsh (Hdr b)) = Some (LastBlock bc)"
    using run_add.IH lk run_add.prems(2) by simp_all
  from run_add.hyps(2) obtain p where p: "gget (blocks bc) (PrvBlkHsh (Hdr b)) = Some p"
    and bl: "blocks bc' = gset (Block_Hash H b) (BlockchainNode b (Some p) (utxo p) (depth p + 1)) (blocks bc)"
    and la: "LastBlock bc' = (if depth p + 1 > depth (LastBlock bc) then BlockchainNode b (Some p) (utxo p) (depth p + 1) else LastBlock bc)"
    by (rule Add_cases) simp
  from p IH(2) have "p = LastBlock bc" by simp
  with IH show ?case by (simp add: bl la)
next
  case (run_reserve bs bc ks amt pk bc' infos change ok)
  have "LastBlock bc' = LastBlock bc" "blocks bc' = blocks bc"
    using GetUTXOForAmt_inv [OF run_inv [OF run_reserve.hyps(1)] run_reserve.hyps(2,3)] by blast+
  with run_reserve show ?case by simp
qed simp

text \<open>
  C10: Without forks the unspent outputs are those of the main chain. When every added block was
  linked to the one added before it and no two blocks have the same hash, \<open>List\<close> is the genesis
  block followed by the added blocks, and the map of unspent outputs, without its marks, is the
  ledger of \<open>List\<close>: each transaction in order removed the outputs it spends and added its own.
\<close>

theorem utxo_refines_ledger:
  assumes "chain_run H conf bs bc" "linked H (gen_block conf # bs)" "distinct (map (Block_Hash H) (gen_block conf # bs))"
  shows "Blockchain_List bc = Inr (gen_block conf # bs) \<and> utxo_abs (last_utxo bc) = ledger_of H (gen_block conf # bs)"
  using linear_run [OF assms] run_list [OF assms(1)] run_utxo(1) [OF assms(1)] by simp

theorem utxo_refines_ledger_witness:
  "Blockchain_List demo_chain = Inr [gen_block demo_conf, demo_b1]
   \<and> utxo_abs (last_utxo demo_chain) = ledger_of length_digest [gen_block demo_conf, demo_b1]"
proof (rule utxo_refines_ledger [OF demo_chain_run])
  show "linked length_digest (gen_block demo_conf # [demo_b1])" by (simp add: demo_prev demo_hash)
  show "distinct (map (Block_Hash length_digest) (gen_block demo_conf # [demo_b1]))"
    by (simp add: demo_hash)
qed

text \<open>
  With forks it is not. In every reachable state all known blocks share one map: the map of
  every block, on the main chain or not, is the ledger of all blocks ever added in the order of
  their arrival. The doc of \<^verbatim>\<open>BlockchainNode\<close> promises the unspent outputs of the chain up to
  that block.
\<close>

theorem utxo_shared_by_forks:
  assumes "chain_run H conf bs bc"
  shows "utxo_abs (last_utxo bc) = ledger_of H (gen_block conf # bs)
    \<and> (\<forall>h n. gget (blocks bc) h = Some n \<longrightarrow> node_utxo bc n = last_utxo bc)"
  using run_utxo(1) [OF assms] chain_inv_node(3) [OF run_inv [OF assms]] chain_inv_last(2) [OF run_inv [OF assms]] by auto

theorem utxo_shared_by_forks_witness: "node_utxo demo_chain demo_n0 = last_utxo demo_chain"
proof -
  have "gget (blocks demo_chain) (num_hash 10) = Some demo_n0" by (simp add: demo_chain_eq)
  with utxo_shared_by_forks [OF demo_chain_run] show ?thesis by blast
qed

lemma GetBalance_sum:
  "Blockchain_GetBalance bc ks pk = sum_list (map (worth (last_utxo bc))
     (filter (\<lambda>k. \<exists>v. gget (last_utxo bc) k = Some v \<and> txo_LockingScript v = pk) ks))"
proof -
  have "foldl (\<lambda>bal k. case gget m k of None \<Rightarrow> bal | Some v \<Rightarrow> if txo_LockingScript v = pk then bal + txo_Amount v else bal) a ks
      = a + sum_list (map (worth m) (filter (\<lambda>k. \<exists>v. gget m k = Some v \<and> txo_LockingScript v = pk) ks))" for a m
    by (induction ks arbitrary: a) (auto simp: worth_def add.assoc split: option.splits)
  then show ?thesis by (simp add: Blockchain_GetBalance_def)
qed

lemma worth_abs: "worth m k = (case utxo_abs m k of None \<Rightarrow> 0 | Some v \<Rightarrow> txo_Amount v)"
  by (simp add: worth_def utxo_abs_def unmark_def split: option.splits)

lemma owned_abs: "(\<exists>v. gget m k = Some v \<and> txo_LockingScript v = pk) \<longleftrightarrow> (\<exists>v. utxo_abs m k = Some v \<and> txo_LockingScript v = pk)"
  by (auto simp: utxo_abs_def unmark_def)

text \<open>
  C27: Balances are read off the ledger. In every reachable state, whatever order the map is
  iterated in, \<open>GetBalance\<close> is the sum, modulo \<open>2 ^ 32\<close>, of the amounts of the outputs locked to the key in
  the ledger of all blocks added so far; outputs reserved for a payment count.
\<close>

theorem GetBalance_ledger:
  assumes "chain_run H conf bs bc" "range_order (last_utxo bc) ks"
  defines "L \<equiv> ledger_of H (gen_block conf # bs)"
  shows "Blockchain_GetBalance bc ks pk =
    (\<Sum>k \<in> {k. \<exists>v. L k = Some v \<and> txo_LockingScript v = pk}. case L k of None \<Rightarrow> 0 | Some v \<Rightarrow> txo_Amount v)"
proof -
  note L = run_utxo(1) [OF assms(1), folded L_def]
  let ?own = "\<lambda>k. \<exists>v. L k = Some v \<and> txo_LockingScript v = pk"
  have d: "distinct (filter ?own ks)"
    using range_order_distinct [OF assms(2) chain_inv_last(4) [OF run_inv [OF assms(1)]]] by simp
  have "k \<in> set ks" if own: "?own k" for k
  proof -
    from own have "utxo_abs (last_utxo bc) k \<noteq> None" by (auto simp: L)
    then show ?thesis using range_order_set [OF assms(2)] by (simp add: utxo_abs_def in_gkeys_iff)
  qed
  then have "set (filter ?own ks) = {k. ?own k}" by auto
  with sum_list_distinct_conv_sum_set [OF d, of "worth (last_utxo bc)"]
  have "(\<Sum>k \<in> {k. ?own k}. worth (last_utxo bc) k) = sum_list (map (worth (last_utxo bc)) (filter ?own ks))"
    by simp
  then show ?thesis by (simp only: GetBalance_sum owned_abs L worth_abs)
qed

theorem GetBalance_ledger_witness:
  "Blockchain_GetBalance demo_chain (gkeys (last_utxo demo_chain)) ''bbb'' =
    (\<Sum>k \<in> {k. \<exists>v. ledger_of length_digest [gen_block demo_conf, demo_b1] k = Some v \<and> txo_LockingScript v = ''bbb''}.
       case ledger_of length_digest [gen_block demo_conf, demo_b1] k of None \<Rightarrow> 0 | Some v \<Rightarrow> txo_Amount v)
   \<and> Blockchain_GetBalance demo_chain (gkeys (last_utxo demo_chain)) ''bbb'' = 7"
proof (intro conjI)
  show "Blockchain_GetBalance demo_chain (gkeys (last_utxo demo_chain)) ''bbb'' = 7"
    by (simp add: Blockchain_GetBalance_def demo_chain_eq demo_nodes gkeys_def)
qed (rule GetBalance_ledger [OF demo_chain_run range_order_refl])

text \<open>
  C35: A block off the main chain changes the main chain's balances. When a block that is not
  deeper than the last block carries only a coinbase that pays \<open>amt\<close> to \<open>pk\<close> under a locator
  that is not in use, then after \<open>Add\<close> the main chain is the same and the balance of \<open>pk\<close> has grown
  by \<open>amt\<close>.
\<close>

theorem fork_changes_balance:
  assumes "chain_run H conf bs bc" "Blockchain_Add H (Some b) bc = Inr bc'"
    and "IndexOf bc (PrvBlkHsh (Hdr b)) + 1 < Blockchain_Length bc"
    and "Transactions b = [demo_cb v n pk amt]"
    and "gget (last_utxo bc) (MkTXOLoc (Transaction_Hash H (demo_cb v n pk amt)) 0) = None"
    and "range_order (last_utxo bc) ks" "range_order (last_utxo bc') ks'"
  shows "Blockchain_List bc' = Blockchain_List bc
    \<and> Blockchain_GetBalance bc' ks' pk = Blockchain_GetBalance bc ks pk + amt"
proof -
  let ?loc = "MkTXOLoc (Transaction_Hash H (demo_cb v n pk amt)) 0"
  let ?o = "\<lparr>txo_Amount = amt, txo_LockingScript = pk, txo_Liminal = False\<rparr>"
  note inv = run_inv [OF assms(1)]
  from assms(2) obtain p where p: "gget (blocks bc) (PrvBlkHsh (Hdr b)) = Some p"
    and mem: "utxo_mem bc' = (utxo_mem bc)[utxo p := foldl (utxo_apply_tx H) (node_utxo bc p) (Transactions b)]"
    and la: "LastBlock bc' = (if depth p + 1 > depth (LastBlock bc) then BlockchainNode b (Some p) (utxo p) (depth p + 1) else LastBlock bc)"
    by (rule Add_cases) simp
  have same: "LastBlock bc' = LastBlock bc" using assms(3) by (simp add: la IndexOf_def p Blockchain_Length_def)
  have new: "last_utxo bc' = gset ?loc ?o (last_utxo bc)"
    using chain_inv_last(2,3) [OF inv] chain_inv_node(3) [OF inv p] by (simp add: same mem assms(4) demo_apply)
  let ?own = "\<lambda>m k. \<exists>v. gget m k = Some v \<and> txo_LockingScript v = pk"
  have nloc: "?loc \<notin> set (gkeys (last_utxo bc))" using assms(5) by (simp add: gget_None_iff)
  have "mset ks' = add_mset ?loc (mset ks)"
    using assms(6,7) mset_gkeys_gset [OF nloc, of ?o] by (simp add: range_order_def new)
  then have "mset ks' = mset (?loc # ks)" by simp
  then have "mset (map (worth (last_utxo bc')) (filter (?own (last_utxo bc')) ks'))
      = mset (map (worth (last_utxo bc')) (filter (?own (last_utxo bc')) (?loc # ks)))"
    by (simp only: mset_filter mset_map)
  from sum_list_mset_eq [OF this]
  have "Blockchain_GetBalance bc' ks' pk = sum_list (map (worth (last_utxo bc')) (filter (?own (last_utxo bc')) (?loc # ks)))"
    by (simp only: GetBalance_sum)
  also have "\<dots> = amt + sum_list (map (worth (last_utxo bc')) (filter (?own (last_utxo bc')) ks))"
    by (simp add: new worth_def)
  also have "filter (?own (last_utxo bc')) ks = filter (?own (last_utxo bc)) ks"
    using nloc range_order_set [OF assms(6)] by (intro filter_cong) (auto simp: new)
  also have "map (worth (last_utxo bc')) (filter (?own (last_utxo bc)) ks) = map (worth (last_utxo bc)) (filter (?own (last_utxo bc)) ks)"
    using nloc range_order_set [OF assms(6)] by (auto simp: new worth_def)
  finally have "Blockchain_GetBalance bc' ks' pk = Blockchain_GetBalance bc ks pk + amt" by (simp add: GetBalance_sum)
  with same show ?thesis by (simp add: Blockchain_List_def)
qed

theorem fork_changes_balance_witness:
  "\<exists>bc'. Blockchain_Add length_digest (Some demo_fork) demo_chain = Inr bc' \<and> Blockchain_List bc' = Blockchain_List demo_chain
     \<and> Blockchain_GetBalance bc' (gkeys (last_utxo bc')) ''aa'' = Blockchain_GetBalance demo_chain (gkeys (last_utxo demo_chain)) ''aa'' + 5"
proof -
  let ?bc = "projr (Blockchain_Add length_digest (Some demo_fork) demo_chain)"
  have add: "Blockchain_Add length_digest (Some demo_fork) demo_chain = Inr ?bc"
    by (simp add: Blockchain_Add_def demo_chain_eq demo_prev Let_def)
  have "Blockchain_List ?bc = Blockchain_List demo_chain
      \<and> Blockchain_GetBalance ?bc (gkeys (last_utxo ?bc)) ''aa'' = Blockchain_GetBalance demo_chain (gkeys (last_utxo demo_chain)) ''aa'' + 5"
    by (rule fork_changes_balance [OF demo_chain_run add _ demo_prev(4)])
      (simp_all add: IndexOf_def demo_prev demo_hash Blockchain_Length_def, simp_all add: demo_chain_eq demo_nodes)
  with add show ?thesis by blast
qed

lemma GetUTXOForAmt_spec:
  assumes "chain_run H conf bs bc" "range_order (last_utxo bc) ks" "avail_value (last_utxo bc) pk < 2 ^ 32"
  shows "\<exists>bc' infos change ok. GetUTXOForAmt ks amt pk bc = Inr (bc', infos, change, ok)
    \<and> (ok \<longleftrightarrow> unat amt \<le> avail_value (last_utxo bc) pk)
    \<and> (ok \<longrightarrow> (\<exists>locs. distinct locs \<and> infos = map (info_for (last_utxo bc)) locs
          \<and> (\<forall>k \<in> set locs. avail (last_utxo bc) pk k \<and> MkTXOLoc (TxHsh (info_for (last_utxo bc) k)) (OutIdx (info_for (last_utxo bc) k)) = k)
          \<and> sum_list (map (unat \<circ> Amt) infos) = unat amt + unat change
          \<and> (infos \<noteq> [] \<longrightarrow> sum_list (map (unat \<circ> Amt) (butlast infos)) < unat amt)
          \<and> gget (last_utxo bc') = marked (set locs) (last_utxo bc)))"
proof -
  note inv = run_inv [OF assms(1)]
  let ?m = "last_utxo bc" and ?P = "picked amt pk (last_utxo bc) 0 ks"
  let ?v = "\<lambda>k. unat (worth ?m k)"
  obtain m' where m': "gget m' = marked (set ?P) ?m" and eq: "GetUTXOForAmt ks amt pk bc =
      (let bc' = bc\<lparr>utxo_mem := (utxo_mem bc)[utxo (LastBlock bc) := m']\<rparr>; cur = sum_list (map (worth ?m) ?P)
       in if cur < amt then Inr (bc', [], 0, False) else Inr (bc', map (info_for ?m) ?P, cur - amt, True))"
    using GetUTXOForAmt_eq [OF inv assms(2)] by metis
  let ?cur = "sum_list (map (worth ?m) ?P)" and ?bc = "bc\<lparr>utxo_mem := (utxo_mem bc)[utxo (LastBlock bc) := m']\<rparr>"
  have ps: "unat ?cur = sum_list (map ?v ?P)" "unat amt \<le> sum_list (map ?v ?P) \<longleftrightarrow> unat amt \<le> avail_value ?m pk"
      "?P \<noteq> [] \<longrightarrow> sum_list (map ?v (butlast ?P)) < unat amt"
    using picked_sum [of 0 ?m pk ks amt] assms(3) by (simp_all add: avail_value_order [OF assms(2)])
  have ok: "\<not> ?cur < amt \<longleftrightarrow> unat amt \<le> avail_value ?m pk" using ps by (simp add: word_less_nat_alt not_less)
  have parse: "MkTXOLoc (TxHsh (info_for ?m k)) (OutIdx (info_for ?m k)) = k" "Amt (info_for ?m k) = worth ?m k" if "k \<in> set ?P" for k
  proof -
    have "k \<in> set (gkeys ?m)" using that picked_sub range_order_set [OF assms(2)] by fastforce
    then obtain t i where "k = MkTXOLoc (Transaction_Hash H t) i" using chain_inv_last(5) [OF inv] by (auto simp: utxo_keys_ok_def)
    then have "PrsTXOLoc k = Inr (Transaction_Hash H t, i)" "k = MkTXOLoc (Transaction_Hash H t) i" by (simp_all add: PrsTXOLoc_MkTXOLoc minus_not_hash)
    then show "MkTXOLoc (TxHsh (info_for ?m k)) (OutIdx (info_for ?m k)) = k" "Amt (info_for ?m k) = worth ?m k"
      by (simp_all add: info_for_def)
  qed
  have vals: "map (unat \<circ> Amt) (map (info_for ?m) ?P) = map ?v ?P"
      "map (unat \<circ> Amt) (butlast (map (info_for ?m) ?P)) = map ?v (butlast ?P)"
    using parse(2) by (auto simp: map_butlast [symmetric] in_set_butlastD)
  have d: "distinct ?P" by (rule picked_distinct [OF range_order_distinct [OF assms(2) chain_inv_last(4) [OF inv]]])
  have u: "gget (last_utxo ?bc) = marked (set ?P) ?m" using chain_inv_last(2,3) [OF inv] m' by simp
  show ?thesis
  proof (cases "?cur < amt")
    case True
    then show ?thesis using eq ok by (auto simp: Let_def)
  next
    case False
    have "unat (?cur - amt) = unat ?cur - unat amt" using False by (simp add: unat_diff_le not_less)
    then have "sum_list (map ?v ?P) = unat amt + unat (?cur - amt)" using False ps(1) by (simp add: word_less_nat_alt)
    moreover have "GetUTXOForAmt ks amt pk bc = Inr (?bc, map (info_for ?m) ?P, ?cur - amt, True)" using eq False by (simp add: Let_def)
    ultimately show ?thesis using ok False d u ps(3) parse(1) picked_avail vals
      by (intro exI [of _ ?bc] exI [of _ "map (info_for ?m) ?P"] exI [of _ "?cur - amt"] exI [of _ True]) (auto intro!: exI [of _ ?P] simp del: map_map)
  qed
qed

text \<open>
  C26: Outputs for a payment. In a reachable state, for every iteration order and as long as the
  outputs available to the key are worth less than \<open>2 ^ 32\<close>, \<open>GetUTXOForAmt\<close> returns, and succeeds
  exactly when they cover the amount. On success the outputs are distinct unspent outputs of the key that
  were not reserved, their amounts add up to the amount and the change, no proper prefix of them
  covers the amount, and exactly they are now marked as reserved.
\<close>

theorem GetUTXOForAmt_selects:
  assumes "chain_run H conf bs bc" "range_order (last_utxo bc) ks" "avail_value (last_utxo bc) pk < 2 ^ 32"
  shows "\<exists>bc' infos change ok. GetUTXOForAmt ks amt pk bc = Inr (bc', infos, change, ok)
    \<and> (ok \<longleftrightarrow> unat amt \<le> avail_value (last_utxo bc) pk)
    \<and> (ok \<longrightarrow> (\<exists>locs. distinct locs \<and> infos = map (info_for (last_utxo bc)) locs
          \<and> (\<forall>k \<in> set locs. avail (last_utxo bc) pk k \<and> MkTXOLoc (TxHsh (info_for (last_utxo bc) k)) (OutIdx (info_for (last_utxo bc) k)) = k)
          \<and> sum_list (map (unat \<circ> Amt) infos) = unat amt + unat change
          \<and> (infos \<noteq> [] \<longrightarrow> sum_list (map (unat \<circ> Amt) (butlast infos)) < unat amt)
          \<and> gget (last_utxo bc') = marked (set locs) (last_utxo bc)))"
  by (rule GetUTXOForAmt_spec [OF assms])

theorem GetUTXOForAmt_selects_witness:
  "\<exists>bc' infos change. GetUTXOForAmt (gkeys (last_utxo demo_chain)) 6 ''bbb'' demo_chain = Inr (bc', infos, change, True)
     \<and> sum_list (map (unat \<circ> Amt) infos) = 6 + unat change"
proof -
  have v: "avail_value (last_utxo demo_chain) ''bbb'' = 7"
    by (simp add: avail_value_def demo_chain_eq demo_nodes gkeys_def avail_def worth_def)
  show ?thesis using GetUTXOForAmt_selects [OF demo_chain_run range_order_refl, of "''bbb''" 6] by (auto simp: v)
qed

text \<open>
  A refused request keeps the outputs. When the outputs available to a key do not cover the
  amount, \<open>GetUTXOForAmt\<close> answers that there is not enough and leaves every one of them marked:
  afterwards nothing is available to the key, so any later request for a positive amount is
  refused too.
\<close>

theorem refused_request_reserves_all:
  assumes "chain_run H conf bs bc" "range_order (last_utxo bc) ks" "avail_value (last_utxo bc) pk < 2 ^ 32"
    and "GetUTXOForAmt ks amt pk bc = Inr (bc', infos, change, False)" "range_order (last_utxo bc') ks'" "amt' > 0"
  shows "avail_value (last_utxo bc') pk = 0 \<and> (\<exists>bc''. GetUTXOForAmt ks' amt' pk bc' = Inr (bc'', [], 0, False))"
proof -
  note inv = run_inv [OF assms(1)]
  let ?m = "last_utxo bc" and ?P = "picked amt pk (last_utxo bc) 0 ks"
  obtain m' where m': "gget m' = marked (set ?P) ?m" and eq: "GetUTXOForAmt ks amt pk bc =
      (let bc' = bc\<lparr>utxo_mem := (utxo_mem bc)[utxo (LastBlock bc) := m']\<rparr>; cur = sum_list (map (worth ?m) ?P)
       in if cur < amt then Inr (bc', [], 0, False) else Inr (bc', map (info_for ?m) ?P, cur - amt, True))"
    using GetUTXOForAmt_eq [OF inv assms(2)] by metis
  have c: "sum_list (map (worth ?m) ?P) < amt" and bc': "bc' = bc\<lparr>utxo_mem := (utxo_mem bc)[utxo (LastBlock bc) := m']\<rparr>"
    using eq assms(4) by (simp_all add: Let_def split: if_splits)
  have "?P = filter (avail ?m pk) ks"
    using picked_sum [of 0 ?m pk ks amt] c assms(3) by (simp add: avail_value_order [OF assms(2)] word_less_nat_alt)
  then have P: "set ?P = {k \<in> set (gkeys ?m). avail ?m pk k}" using range_order_set [OF assms(2)] by auto
  have lu: "last_utxo bc' = m'" using chain_inv_last(2,3) [OF inv] by (simp add: bc')
  have none: "\<not> avail m' pk k" for k
    using P in_gkeys_iff [of k ?m] by (auto simp: avail_def m' marked_def split: option.splits if_splits)
  then have z: "avail_value (last_utxo bc') pk = 0" by (simp add: lu avail_value_def)
  have inv': "chain_inv H bc'" using GetUTXOForAmt_inv [OF inv assms(2,4)] by blast
  have none': "\<not> avail (last_utxo bc') pk k" for k using none by (simp add: lu)
  have "picked amt' pk (last_utxo bc') 0 ks' = []" using picked_avail [of _ amt' pk "last_utxo bc'" 0 ks'] none'
    by (metis list.set_intros(1) neq_Nil_conv)
  then show ?thesis using z GetUTXOForAmt_eq [OF inv' assms(5), of amt' pk] assms(6) by (auto simp: Let_def)
qed

theorem refused_request_reserves_all_witness:
  "\<exists>bc' bc''. GetUTXOForAmt (gkeys (last_utxo demo_chain)) 8 ''bbb'' demo_chain = Inr (bc', [], 0, False)
     \<and> GetUTXOForAmt (gkeys (last_utxo bc')) 1 ''bbb'' bc' = Inr (bc'', [], 0, False)"
proof -
  let ?bc = "fst (projr (GetUTXOForAmt (gkeys (last_utxo demo_chain)) 8 ''bbb'' demo_chain))"
  have v: "avail_value (last_utxo demo_chain) ''bbb'' = 7"
    by (simp add: avail_value_def demo_chain_eq demo_nodes gkeys_def avail_def worth_def)
  have prs: "PrsTXOLoc (MkTXOLoc (num_hash n) 0) = Inr (num_hash n, 0)" for n
    by (rule PrsTXOLoc_MkTXOLoc) (simp add: num_hash_def hex_Encode_no_char)
  have g: "GetUTXOForAmt (gkeys (last_utxo demo_chain)) 8 ''bbb'' demo_chain = Inr (?bc, [], 0, False)"
    by (simp add: GetUTXOForAmt_def demo_chain_eq demo_nodes gkeys_def prs Let_def)
  show ?thesis
    using refused_request_reserves_all [OF demo_chain_run range_order_refl _ g range_order_refl, of 1] g v by auto
qed

lemma ChkChainsUTXO_inputs_iff:
  "ChkChainsUTXO_inputs m is \<longleftrightarrow> (\<forall>i \<in> set is. gget m (MkTXOLoc (txi_TransactionHash i) (txi_OutputIndex i)) \<noteq> None)"
  by (induction "is") (auto split: option.splits)

lemma ChkChainsUTXO_txs_iff: "ChkChainsUTXO_txs m txs \<longleftrightarrow> (\<forall>t \<in> set txs. ChkChainsUTXO_inputs m (tx_Inputs t))"
  by (induction txs) auto

text \<open>
  What the check of a block's inputs checks. In every reachable state, whatever previous
  hash is given (a block of the main chain, of a fork, or an unknown one), \<open>ChkChainsUTXO\<close> holds
  exactly when every input refers to an entry of the ledger of all blocks added so far. The chain
  the block extends plays no part, and neither does the order or the number of times an
  output is spent within the block: repeating transactions does not change the answer.
\<close>

theorem ChkChainsUTXO_ledger:
  assumes "chain_run H conf bs bc"
  shows "(ChkChainsUTXO bc txs h \<longleftrightarrow> (\<forall>t \<in> set txs. tx_spent t \<subseteq> dom (ledger_of H (gen_block conf # bs))))
    \<and> (ChkChainsUTXO bc (txs @ txs) h' \<longleftrightarrow> ChkChainsUTXO bc txs h)"
proof -
  have "utxo_abs (node_utxo bc (case gget (blocks bc) h of None \<Rightarrow> LastBlock bc | Some n \<Rightarrow> n)) = ledger_of H (gen_block conf # bs)" for h
    using run_utxo [OF assms] by (auto split: option.splits)
  then have d: "gget (node_utxo bc (case gget (blocks bc) h of None \<Rightarrow> LastBlock bc | Some n \<Rightarrow> n)) k \<noteq> None
      \<longleftrightarrow> k \<in> dom (ledger_of H (gen_block conf # bs))" for h k
    by (metis domIff map_option_is_None utxo_abs_def)
  have "ChkChainsUTXO bc txs h \<longleftrightarrow> (\<forall>t \<in> set txs. tx_spent t \<subseteq> dom (ledger_of H (gen_block conf # bs)))" for txs h
    unfolding ChkChainsUTXO_def Let_def ChkChainsUTXO_txs_iff ChkChainsUTXO_inputs_iff d tx_spent_def by blast
  then show ?thesis by simp
qed

definition demo_spend :: "byte \<Rightarrow> u32 \<Rightarrow> Transaction" where
  "demo_spend h amt = (demo_cb 0 0 ''cc'' amt)\<lparr>tx_Inputs :=
     [\<lparr>txi_TransactionHash = num_hash h, txi_OutputIndex = 0, txi_UnlockingScript = [], txi_Amount = amt\<rparr>]\<rparr>"

theorem ChkChainsUTXO_ledger_witness:
  "ChkChainsUTXO demo_chain [demo_spend 69 9, demo_spend 69 9] ''unknown''
   \<and> tx_spent (demo_spend 69 9) \<subseteq> dom (ledger_of length_digest [gen_block demo_conf, demo_b1])"
proof -
  have "ChkChainsUTXO demo_chain [demo_spend 69 9] (num_hash 10)"
    by (simp add: ChkChainsUTXO_def demo_chain_eq demo_nodes demo_spend_def)
  then show ?thesis using ChkChainsUTXO_ledger [OF demo_chain_run, of "[demo_spend 69 9]" "num_hash 10" "''unknown''"] by simp
qed

text \<open>
  Looking up a block. In every reachable state a hash that is known gives the block with
  that hash at a non-negative index and on an unknown hash \<open>Get\<close> dereferences nil, it does not
  return nil; the last block and every block that was just added are known.
\<close>

theorem Blockchain_Get_outcomes:
  assumes "chain_run H conf bs bc"
  shows "(Blockchain_Get bc h = Inl e \<longleftrightarrow> IndexOf bc h = -1 \<and> e = NilDeref)
    \<and> (Blockchain_Get bc h = Inr b \<longrightarrow> Block_Hash H b = h \<and> IndexOf bc h \<ge> 0)
    \<and> (\<exists>b. Blockchain_Get bc (Block_Hash H (GetLastBlock bc)) = Inr b)
    \<and> (Blockchain_Add H (Some b) bc = Inr bc' \<longrightarrow> Blockchain_Get bc' (Block_Hash H b) = Inr b)"
proof -
  note inv = run_inv [OF assms]
  have pos: "depth n \<ge> 0" if "gget (blocks bc) h = Some n" for h n
    using length_chain_of [OF chain_inv_node(2) [OF inv that]] by (cases "chain_of n") auto
  have 1: "Blockchain_Get bc h = Inl e \<longleftrightarrow> IndexOf bc h = -1 \<and> e = NilDeref"
    using pos by (fastforce simp: Blockchain_Get_def IndexOf_def split: option.splits)
  have 2: "Blockchain_Get bc h = Inr b \<longrightarrow> Block_Hash H b = h \<and> IndexOf bc h \<ge> 0"
    using pos chain_inv_node(1) [OF inv] by (auto simp: Blockchain_Get_def IndexOf_def split: option.splits)
  have "Block_Hash H (node_Block (LastBlock bc)) \<in> set (gkeys (blocks bc))" using inv by (simp add: chain_inv_def)
  then have 3: "\<exists>b. Blockchain_Get bc (Block_Hash H (GetLastBlock bc)) = Inr b"
    by (auto simp: in_gkeys_iff Blockchain_Get_def GetLastBlock_def)
  have 4: "Blockchain_Add H (Some b) bc = Inr bc' \<longrightarrow> Blockchain_Get bc' (Block_Hash H b) = Inr b"
    by (auto simp: Blockchain_Get_def elim!: Add_cases)
  from 1 2 3 4 show ?thesis by blast
qed

theorem Blockchain_Get_outcomes_witness:
  "Blockchain_Get demo_chain ''zz'' = Inl NilDeref \<and> Blockchain_Get demo_chain (num_hash 75) = Inr demo_b1"
proof -
  have "''zz'' \<noteq> num_hash n" for n
  proof
    assume "''zz'' = num_hash n"
    then have "length ''zz'' = length (num_hash n)" by (rule arg_cong)
    then show False by (simp add: num_hash_def)
  qed
  then have "IndexOf demo_chain ''zz'' = -1" by (simp add: IndexOf_def demo_chain_eq)
  with Blockchain_Get_outcomes [OF demo_chain_run, of "''zz''" NilDeref]
    Blockchain_Get_outcomes [OF demo_start_run, of "[]" NilDeref demo_b1 demo_chain] demo_chain_add
  show ?thesis by (simp add: demo_hash)
qed

end
