(* ===== verification/Validation.thy ===== *)
theory Validation
  imports Blockchain
begin

text \<open>
  The validity checks of \<^verbatim>\<open>pkg/validation.go\<close>: \<^verbatim>\<open>ChkTx\<close> and \<^verbatim>\<open>ChkBlk\<close> of a node. They read
  the node's chain and its maximum block size, which are arguments here.

  A check may panic: \<^verbatim>\<open>IsUnlckd\<close> does on a locking script with a key of another kind, and the
  log line of a rejected transaction prints its name tag. The tests for nil input and output
  slices never apply, see the theory of transactions.

  Lemmas: what the two checks accept, exactly; what follows for accepted blocks; and what the
  checks leave open.
\<close>

fun ChkTx_inputs ::
    "('pk, 'sk) ecdsa \<Rightarrow> (byte list \<Rightarrow> byte list) \<Rightarrow> Blockchain \<Rightarrow> TransactionInput list \<Rightarrow> bool go" where
  "ChkTx_inputs ec H bc [] = Inr True"
| "ChkTx_inputs ec H bc (i # is) =
     (if IsInvalidInput bc i then Inr False
      else case GetUTXO bc i of
        None \<Rightarrow> Inr False
      | Some u \<Rightarrow>
          go_bind (IsUnlckd ec H u (txi_UnlockingScript i)) (\<lambda>ok.
            if \<not> ok then Inr False else ChkTx_inputs ec H bc is))"

definition ChkTx ::
    "('pk, 'sk) ecdsa \<Rightarrow> (byte list \<Rightarrow> byte list) \<Rightarrow> u32 \<Rightarrow> Blockchain \<Rightarrow> Transaction option \<Rightarrow> bool go" where
  "ChkTx ec H MxBlkSz bc t =
     (case t of
        None \<Rightarrow> Inr False
      | Some t \<Rightarrow>
          if SumOutputs t = 0 then Inr False
          else if SumOutputs t > SumInputs t then Inr False
          else go_bind (ChkTx_inputs ec H bc (tx_Inputs t)) (\<lambda>ok.
                 if \<not> ok then Inr False
                 else if Transaction_Sz t > MxBlkSz then Inr False
                 else Inr True))"

fun ChkBlk_txs ::
    "('pk, 'sk) ecdsa \<Rightarrow> (byte list \<Rightarrow> byte list) \<Rightarrow> u32 \<Rightarrow> Blockchain \<Rightarrow> Transaction list \<Rightarrow> bool go" where
  "ChkBlk_txs ec H MxBlkSz bc [] = Inr True"
| "ChkBlk_txs ec H MxBlkSz bc (t # ts) =
     go_bind (ChkTx ec H MxBlkSz bc (Some t)) (\<lambda>ok.
       if \<not> ok then go_bind (Transaction_NameTag H t) (\<lambda>_. Inr False)
       else ChkBlk_txs ec H MxBlkSz bc ts)"

definition ChkBlk ::
    "('pk, 'sk) ecdsa \<Rightarrow> (byte list \<Rightarrow> byte list) \<Rightarrow> u32 \<Rightarrow> Blockchain \<Rightarrow> Block option \<Rightarrow> bool go" where
  "ChkBlk ec H MxBlkSz bc b =
     (case b of
        None \<Rightarrow> Inr False
      | Some b \<Rightarrow>
          (case Transactions b of
             [] \<Rightarrow> Inr False
           | t0 # ts \<Rightarrow>
               if \<not> IsCoinbase t0 then Inr False
               else if \<not> ChkChainsUTXO bc ts (PrvBlkHsh (Hdr b)) then Inr False
               else go_bind (ChkBlk_txs ec H MxBlkSz bc ts) (\<lambda>ok.
                      if \<not> ok then Inr False
                      else if Block_Sz b > MxBlkSz then Inr False
                      else if \<not> SatisfiesPOW H b (DiffTarg (Hdr b)) then Inr False
                      else if SumOutputs t0 = 0 then Inr False
                      else if Transaction_Sz t0 > MxBlkSz then Inr False
                      else Inr True)))"

section \<open>What is accepted\<close>

text \<open>An input that may be spent: its output is unspent and its script unlocks it.\<close>

definition input_ok ::
    "('pk, 'sk) ecdsa \<Rightarrow> (byte list \<Rightarrow> byte list) \<Rightarrow> Blockchain \<Rightarrow> TransactionInput \<Rightarrow> bool" where
  "input_ok ec H bc i \<longleftrightarrow> (\<exists>u. GetUTXO bc i = Some u \<and> IsUnlckd ec H u (txi_UnlockingScript i) = Inr True)"

lemma ChkTx_inputs_iff: "ChkTx_inputs ec H bc is = Inr True \<longleftrightarrow> (\<forall>i \<in> set is. input_ok ec H bc i)"
  by (induction "is") (auto simp: input_ok_def IsInvalidInput_def GetUTXO_def go_simps split: option.splits if_splits)

lemma ChkTx_iff:
  "ChkTx ec H mx bc (Some t) = Inr True \<longleftrightarrow>
     SumOutputs t \<noteq> 0 \<and> SumOutputs t \<le> SumInputs t \<and> (\<forall>i \<in> set (tx_Inputs t). input_ok ec H bc i) \<and> Transaction_Sz t \<le> mx"
  by (auto simp: ChkTx_def go_simps ChkTx_inputs_iff split: if_splits)

lemma ChkTx_not_coinbase: "ChkTx ec H mx bc (Some t) = Inr True \<Longrightarrow> \<not> IsCoinbase t"
  using IsCoinbase_SumInputs [of t] by (auto simp: ChkTx_iff)

lemma ChkBlk_txs_iff: "ChkBlk_txs ec H mx bc ts = Inr True \<longleftrightarrow> (\<forall>t \<in> set ts. ChkTx ec H mx bc (Some t) = Inr True)"
  by (induction ts) (auto simp: go_simps split: if_splits)

lemma input_ok_ChkChains:
  "chain_run H conf bs bc \<Longrightarrow> (\<And>t i. t \<in> set ts \<Longrightarrow> i \<in> set (tx_Inputs t) \<Longrightarrow> input_ok ec H bc i) \<Longrightarrow> ChkChainsUTXO bc ts h"
  using chain_inv_node(3) [OF run_inv, of H conf bs bc h] chain_inv_last(2) [OF run_inv, of H conf bs bc]
  by (fastforce simp: ChkChainsUTXO_def ChkChainsUTXO_txs_iff ChkChainsUTXO_inputs_iff input_ok_def GetUTXO_def Let_def
      split: option.splits)

lemma ChkBlk_iff:
  "ChkBlk ec H mx bc (Some b) = Inr True \<longleftrightarrow>
     (\<exists>t0 ts. Transactions b = t0 # ts \<and> IsCoinbase t0 \<and> ChkChainsUTXO bc ts (PrvBlkHsh (Hdr b))
        \<and> (\<forall>t \<in> set ts. ChkTx ec H mx bc (Some t) = Inr True)
        \<and> Block_Sz b \<le> mx \<and> SatisfiesPOW H b (DiffTarg (Hdr b)) \<and> SumOutputs t0 \<noteq> 0 \<and> Transaction_Sz t0 \<le> mx)"
  by (cases "Transactions b") (auto simp: ChkBlk_def go_simps ChkBlk_txs_iff not_less split: if_splits)

section \<open>Properties\<close>

text \<open>
  What \<open>ChkTx\<close> accepts. A nil transaction is rejected. A transaction is accepted exactly when
  the sum of its outputs is not zero and not above the sum of its claimed input amounts, each
  input refers to an unspent output and unlocks it, and it fits into a block; in particular it
  is no coinbase.
\<close>

theorem ChkTx_accepts:
  "ChkTx ec H mx bc None = Inr False \<and>
   (ChkTx ec H mx bc (Some t) = Inr True \<longleftrightarrow>
      SumOutputs t \<noteq> 0 \<and> SumOutputs t \<le> SumInputs t \<and> Transaction_Sz t \<le> mx \<and>
      (\<forall>i \<in> set (tx_Inputs t). \<exists>u. GetUTXO bc i = Some u \<and> IsUnlckd ec H u (txi_UnlockingScript i) = Inr True)) \<and>
   (ChkTx ec H mx bc (Some t) = Inr True \<longrightarrow> \<not> IsCoinbase t)"
  using ChkTx_not_coinbase [of ec H mx bc t] by (auto simp: ChkTx_iff input_ok_def) (simp add: ChkTx_def)

text \<open>A payment of the genesis output of the example chain, for witnesses.\<close>

definition demo_pay :: "u32 \<Rightarrow> u32 \<Rightarrow> Transaction" where
  "demo_pay claim amt = (demo_cb 0 0 ''cc'' amt)\<lparr>tx_Inputs :=
     [\<lparr>txi_TransactionHash = num_hash 69, txi_OutputIndex = 0,
       txi_UnlockingScript = hex_EncodeToString (0xaa # replicate 31 0 @ [4]), txi_Amount = claim\<rparr>]\<rparr>"

lemma demo_pay_unlocks:
  "IsUnlckd echo_ecdsa length_digest \<lparr>txo_Amount = 9, txo_LockingScript = ''aa'', txo_Liminal = False\<rparr>
     (hex_EncodeToString (0xaa # replicate 31 0 @ [4])) = Inr True"
proof -
  have "hex_DecodeString ''aa'' = ([0xaa], None)" by (simp add: fromHexChar_def)
  then show ?thesis
    by (simp add: IsUnlckd_def Byt2PK_def echo_ecdsa_def TransactionOutput_Hash_def TransactionOutput_data_def length_digest_def eval_simps)
qed

lemma demo_pay_fields:
  "SumOutputs (demo_pay c a) = a" "SumInputs (demo_pay c a) = c" "Transaction_Sz (demo_pay c a) = 68"
  "i \<in> set (tx_Inputs (demo_pay c a)) \<Longrightarrow> GetUTXO demo_chain i = Some \<lparr>txo_Amount = 9, txo_LockingScript = ''aa'', txo_Liminal = False\<rparr>
     \<and> txi_UnlockingScript i = hex_EncodeToString (0xaa # replicate 31 0 @ [4])"
  by (simp_all add: demo_pay_def demo_cb_def SumOutputs_def SumInputs_def Transaction_Sz_eq GetUTXO_def demo_chain_eq demo_nodes)

theorem ChkTx_accepts_witness: "ChkTx echo_ecdsa length_digest 1000 demo_chain (Some (demo_pay 9 8)) = Inr True"
proof -
  have "\<forall>i \<in> set (tx_Inputs (demo_pay 9 8)). \<exists>u. GetUTXO demo_chain i = Some u \<and> IsUnlckd echo_ecdsa length_digest u (txi_UnlockingScript i) = Inr True"
    using demo_pay_fields(4) [of _ 9 8] demo_pay_unlocks by auto
  then show ?thesis
    using ChkTx_accepts [of echo_ecdsa length_digest 1000 demo_chain "demo_pay 9 8"] by (simp add: demo_pay_fields)
qed

lemma demo_pay_ok: "a \<noteq> 0 \<Longrightarrow> a \<le> c \<Longrightarrow> ChkTx echo_ecdsa length_digest 1000 demo_chain (Some (demo_pay c a)) = Inr True"
  using demo_pay_fields(4) [of _ c a] demo_pay_unlocks by (auto simp: ChkTx_iff input_ok_def demo_pay_fields(1-3))

text \<open>
  C33: An accepted transaction vouches for neither its outputs nor its amounts. Take an accepted
  transaction and any other one whose inputs name the same outputs with the same scripts, whatever
  amounts they claim. As long as its outputs are not zero in sum, do not exceed the claimed amounts and
  it fits into a block, it is accepted too. So the claimed amounts may exceed what the spent outputs
  hold, and a script that was published once unlocks its output for any other payment.
\<close>

theorem ChkTx_amounts_unchecked:
  assumes "ChkTx ec H mx bc (Some t) = Inr True"
    and "map (\<lambda>i. i\<lparr>txi_Amount := 0\<rparr>) (tx_Inputs t') = map (\<lambda>i. i\<lparr>txi_Amount := 0\<rparr>) (tx_Inputs t)"
    and "SumOutputs t' \<noteq> 0" "SumOutputs t' \<le> SumInputs t'" "Transaction_Sz t' \<le> mx"
  shows "ChkTx ec H mx bc (Some t') = Inr True"
proof -
  have "input_ok ec H bc i" if i: "i \<in> set (tx_Inputs t')" for i
  proof -
    have "i\<lparr>txi_Amount := 0\<rparr> \<in> set (map (\<lambda>i. i\<lparr>txi_Amount := 0\<rparr>) (tx_Inputs t))" using i assms(2) by (metis image_eqI list.set_map)
    then obtain j where j: "j \<in> set (tx_Inputs t)" "i\<lparr>txi_Amount := 0\<rparr> = j\<lparr>txi_Amount := 0\<rparr>" by auto
    then have "input_ok ec H bc j" using assms(1) by (simp add: ChkTx_iff)
    moreover have "txi_TransactionHash i = txi_TransactionHash j" "txi_OutputIndex i = txi_OutputIndex j"
        "txi_UnlockingScript i = txi_UnlockingScript j"
      using j(2) by (cases i; cases j; simp)+
    ultimately show ?thesis by (simp add: input_ok_def GetUTXO_def)
  qed
  with assms(3-) show ?thesis by (simp add: ChkTx_iff)
qed

theorem ChkTx_amounts_unchecked_witness:
  "ChkTx echo_ecdsa length_digest 1000 demo_chain (Some (demo_pay 4000000000 4000000000)) = Inr True
   \<and> Blockchain_GetBalance demo_chain (gkeys (last_utxo demo_chain)) ''aa'' = 9"
proof (intro conjI)
  show "Blockchain_GetBalance demo_chain (gkeys (last_utxo demo_chain)) ''aa'' = 9"
    by (simp add: Blockchain_GetBalance_def demo_chain_eq demo_nodes gkeys_def)
  show "ChkTx echo_ecdsa length_digest 1000 demo_chain (Some (demo_pay 4000000000 4000000000)) = Inr True"
    by (rule ChkTx_amounts_unchecked [OF demo_pay_ok [of 8 9]]) (simp_all add: demo_pay_fields, simp add: demo_pay_def)
qed

text \<open>
  What \<open>ChkBlk\<close> accepts. A nil block is rejected. A block is accepted exactly when its first
  transaction is a coinbase with a non-zero sum that fits into a block, all others are accepted by
  \<open>ChkTx\<close> and by \<open>ChkChainsUTXO\<close>, the block is not too large and its hash satisfies its own target.
  An accepted block has exactly one coinbase.
\<close>

theorem ChkBlk_accepts:
  "ChkBlk ec H mx bc None = Inr False \<and>
   (ChkBlk ec H mx bc (Some b) = Inr True \<longleftrightarrow>
     (\<exists>t0 ts. Transactions b = t0 # ts \<and> IsCoinbase t0 \<and> SumOutputs t0 \<noteq> 0 \<and> Transaction_Sz t0 \<le> mx
        \<and> ChkChainsUTXO bc ts (PrvBlkHsh (Hdr b)) \<and> list_all (\<lambda>t. ChkTx ec H mx bc (Some t) = Inr True) ts
        \<and> Block_Sz b \<le> mx \<and> SatisfiesPOW H b (DiffTarg (Hdr b)))) \<and>
   (ChkBlk ec H mx bc (Some b) = Inr True \<longrightarrow> filter IsCoinbase (Transactions b) = [Transactions b ! 0])"
proof (intro conjI impI)
  assume "ChkBlk ec H mx bc (Some b) = Inr True"
  then obtain t0 ts where "Transactions b = t0 # ts" "IsCoinbase t0" "\<forall>t \<in> set ts. \<not> IsCoinbase t"
    by (auto simp: ChkBlk_iff dest: ChkTx_not_coinbase)
  then show "filter IsCoinbase (Transactions b) = [Transactions b ! 0]" by simp
qed (auto simp: ChkBlk_iff list_all_iff, simp add: ChkBlk_def)

text \<open>A block that spends the genesis output, for witnesses; the target is 33 bytes of ones.\<close>

definition easy_target :: string where
  "easy_target = replicate 66 (CHR ''f'')"

definition demo_blk :: "string \<Rightarrow> Transaction list \<Rightarrow> Block" where
  "demo_blk prev ts =
     \<lparr>Hdr = \<lparr>Ver = 0, PrvBlkHsh = prev, MrklRt = [], Timestamp = 0, DiffTarg = easy_target, Nonce = 0\<rparr>, Transactions = ts\<rparr>"

lemma easy_target_decode: "hex_DecodeString easy_target = (replicate 33 (- 1), None)"
proof -
  have "hex_DecodeString (replicate (2 * n) (CHR ''f'')) = (replicate n (- 1), None)" for n
    by (induction n) (simp_all add: fromHexChar_def)
  from this [of 33] show ?thesis by (simp add: easy_target_def)
qed

lemma easy_target_POW: "length (H (bytes_of_string (Header_fmt (Hdr b)))) = 32 \<Longrightarrow> SatisfiesPOW H b easy_target"
  by (simp add: SatisfiesPOW_iff easy_target_decode bytes_Compare_ff)

lemma demo_blk_sz: "Block_Sz (demo_blk p ts) = sum_list (map Transaction_Sz ts) + 44"
  by (simp add: Block_Sz_eq demo_blk_def)

lemma demo_blk_ok:
  "ChkBlk echo_ecdsa length_digest 1000 demo_chain (Some (demo_blk p [demo_cb 0 0 ''bb'' 5, demo_pay 9 8])) = Inr True"
proof -
  have "ChkChainsUTXO demo_chain [demo_pay 9 8] p"
    using input_ok_ChkChains [OF demo_chain_run, of "[demo_pay 9 8]" echo_ecdsa p] demo_pay_ok [of 8 9] by (simp add: ChkTx_iff)
  moreover have "Block_Sz (demo_blk p [demo_cb 0 0 ''bb'' 5, demo_pay 9 8]) \<le> 1000"
    by (simp add: demo_blk_sz demo_pay_fields) (simp add: Transaction_Sz_eq demo_cb_def)
  moreover have "SatisfiesPOW length_digest (demo_blk p [demo_cb 0 0 ''bb'' 5, demo_pay 9 8]) easy_target" by (simp add: easy_target_POW)
  ultimately show ?thesis using demo_pay_ok [of 8 9]
    by (simp add: ChkBlk_iff demo_blk_def) (simp add: demo_cb_def IsCoinbase_def SumOutputs_def Transaction_Sz_eq)
qed

theorem ChkBlk_accepts_witness:
  "filter IsCoinbase (Transactions (demo_blk (num_hash 75) [demo_cb 0 0 ''bb'' 5, demo_pay 9 8])) = [demo_cb 0 0 ''bb'' 5]"
proof -
  have "filter IsCoinbase (Transactions (demo_blk (num_hash 75) [demo_cb 0 0 ''bb'' 5, demo_pay 9 8]))
      = [Transactions (demo_blk (num_hash 75) [demo_cb 0 0 ''bb'' 5, demo_pay 9 8]) ! 0]"
    using ChkBlk_accepts demo_blk_ok by blast
  then show ?thesis by (simp add: demo_blk_def)
qed

text \<open>
  Neither the work nor the Merkle root of an accepted block means anything. For a digest of
  32 bytes, take any accepted block, give its header a target of 33 bytes of ones and any version,
  Merkle root, timestamp and nonce: the result is accepted. \<open>ChkBlk\<close> compares the hash with the target
  the block brings along, and never computes the Merkle root of its transactions.
\<close>

theorem ChkBlk_trusts_header:
  assumes "\<And>v. length (H v) = 32" "ChkBlk ec H mx bc (Some b) = Inr True"
  shows "ChkBlk ec H mx bc (Some (b\<lparr>Hdr := (Hdr b)\<lparr>DiffTarg := easy_target, Ver := v, MrklRt := r, Timestamp := ts, Nonce := n\<rparr>\<rparr>)) = Inr True"
    (is "ChkBlk ec H mx bc (Some ?b) = _")
proof -
  have "SatisfiesPOW H ?b easy_target" using assms(1) by (simp add: easy_target_POW)
  moreover have "Block_Sz ?b = Block_Sz b" by (simp add: Block_Sz_eq)
  ultimately show ?thesis using assms(2) by (auto simp: ChkBlk_iff)
qed

theorem ChkBlk_trusts_header_witness:
  "ChkBlk echo_ecdsa length_digest 1000 demo_chain (Some ((demo_blk (num_hash 75) [demo_cb 0 0 ''bb'' 5, demo_pay 9 8])
     \<lparr>Hdr := (Hdr (demo_blk (num_hash 75) [demo_cb 0 0 ''bb'' 5, demo_pay 9 8]))\<lparr>DiffTarg := easy_target, Ver := 1,
        MrklRt := ''made up'', Timestamp := 2, Nonce := 3\<rparr>\<rparr>)) = Inr True"
  by (rule ChkBlk_trusts_header [OF length_length_digest demo_blk_ok])

text \<open>
  C34: A block may spend the same output twice. Take an accepted block whose transactions after the
  coinbase are repeated as often as one likes. When the result still fits into a block and its target is the one
  of 33 bytes of ones, it is accepted, although every output of the original is spent several times.
\<close>

theorem ChkBlk_double_spend:
  assumes "\<And>v. length (H v) = 32" "ChkBlk ec H mx bc (Some b) = Inr True" "Transactions b = t0 # ts"
    and "set ts' = set ts" "DiffTarg (Hdr b) = easy_target" "Block_Sz (b\<lparr>Transactions := t0 # ts'\<rparr>) \<le> mx"
  shows "ChkBlk ec H mx bc (Some (b\<lparr>Transactions := t0 # ts'\<rparr>)) = Inr True"
proof -
  have "SatisfiesPOW H (b\<lparr>Transactions := t0 # ts'\<rparr>) easy_target" using assms(1) by (simp add: easy_target_POW)
  moreover have "ChkChainsUTXO bc ts' h \<longleftrightarrow> ChkChainsUTXO bc ts h" for h
    using assms(4) by (simp add: ChkChainsUTXO_def ChkChainsUTXO_txs_iff)
  ultimately show ?thesis using assms(2-6) by (simp add: ChkBlk_iff)
qed

theorem ChkBlk_double_spend_witness:
  "ChkBlk echo_ecdsa length_digest 1000 demo_chain
     (Some (demo_blk (num_hash 75) [demo_cb 0 0 ''bb'' 5, demo_pay 9 8, demo_pay 9 8])) = Inr True"
proof -
  have "Block_Sz (demo_blk p [demo_cb 0 0 ''bb'' 5, demo_pay 9 8, demo_pay 9 8]) \<le> 1000" for p
    by (simp add: demo_blk_sz demo_pay_fields) (simp add: Transaction_Sz_eq demo_cb_def)
  then show ?thesis
    using ChkBlk_double_spend [OF length_length_digest demo_blk_ok, where ts' = "[demo_pay 9 8, demo_pay 9 8]"]
    by (simp add: demo_blk_def)
qed

end
