(* ===== verification/Miner.thy ===== *)
theory Miner
  imports Tx_Pool Validation
begin

text \<open>
  \<^verbatim>\<open>pkg/miner/miner.go\<close>, \<^verbatim>\<open>mining_pool.go\<close> and \<^verbatim>\<open>mine.go\<close>: the miner's state, its handlers, the
  choice of transactions, the coinbase and the search for a nonce.

  A miner talks to its own loop and to the node over two unbuffered channels and starts
  goroutines. Handlers return the state together with the list of the events they cause, in
  order: \<open>PoolUpdatedEv\<close> and \<open>SendBlkEv\<close> are sends, \<open>CancelEv\<close> cancels the search under way,
  \<open>SpawnMineEv\<close> and \<open>SpawnAttemptEv\<close> start the loop and one search. A send or a close on a closed
  channel panics.
\<close>

datatype mnr_event = PoolUpdatedEv | SendBlkEv Block | CancelEv | SpawnMineEv | SpawnAttemptEv

record ('pk, 'sk) Miner =
  mnr_Conf :: mnr_Config
  mnr_Id :: "('pk, 'sk) SimpleID"
  TxP :: TxPool
  MiningPool :: "Transaction list"
  PrvHsh :: string
  mnr_Addr :: string
  ChnLen :: u32
  Active :: bool
  Mining :: bool
  mnr_closed :: bool

type_synonym ('pk, 'sk) mnr_result = "(('pk, 'sk) Miner \<times> mnr_event list) go"

section \<open>miner.go\<close>

definition Miner_New ::
    "(byte list \<Rightarrow> byte list) \<Rightarrow> mnr_Config \<Rightarrow> ('pk, 'sk) SimpleID \<Rightarrow> ('pk, 'sk) Miner option go" where
  "Miner_New H c i =
     (if \<not> HasMnr c then Inr None
      else go_bind (GenesisBlock bc_DefaultConfig) (\<lambda>g.
        Inr (Some \<lparr>mnr_Conf = c, mnr_Id = i, TxP = NewTxPool c, MiningPool = [], PrvHsh = Block_Hash H g,
                   mnr_Addr = [], ChnLen = 1, Active = False, Mining = False, mnr_closed = False\<rparr>)))"

definition Miner_SetAddr :: "string \<Rightarrow> ('pk, 'sk) Miner \<Rightarrow> ('pk, 'sk) Miner" where
  "Miner_SetAddr a m = m\<lparr>mnr_Addr := a\<rparr>"

text \<open>The send on \<^verbatim>\<open>PoolUpdated\<close>.\<close>

definition send_update :: "('pk, 'sk) Miner \<Rightarrow> ('pk, 'sk) mnr_result" where
  "send_update m = (if mnr_closed m then Inl ChanClosed else Inr (m, [PoolUpdatedEv]))"

definition StartMiner :: "('pk, 'sk) Miner \<Rightarrow> ('pk, 'sk) mnr_result" where
  "StartMiner m =
     go_bind (send_update (m\<lparr>Active := True\<rparr>)) (\<lambda>(m, ev). Inr (m, SpawnMineEv # ev))"

definition SetChnLen :: "u32 \<Rightarrow> ('pk, 'sk) Miner \<Rightarrow> ('pk, 'sk) Miner" where
  "SetChnLen l m = m\<lparr>ChnLen := l\<rparr>"

definition SetHash :: "string \<Rightarrow> ('pk, 'sk) Miner \<Rightarrow> ('pk, 'sk) Miner" where
  "SetHash h m = m\<lparr>PrvHsh := h\<rparr>"

definition IncChnLen :: "('pk, 'sk) Miner \<Rightarrow> ('pk, 'sk) Miner" where
  "IncChnLen m = m\<lparr>ChnLen := ChnLen m + 1\<rparr>"

definition HndlChkBlk :: "(byte list \<Rightarrow> byte list) \<Rightarrow> Block \<Rightarrow> ('pk, 'sk) Miner \<Rightarrow> ('pk, 'sk) mnr_result" where
  "HndlChkBlk H b m =
     (let m = m\<lparr>TxP := TxPool_ChkTxs H (map Some (Transactions b)) (TxP m)\<rparr>
      in if Active m then send_update m else Inr (m, []))"

definition Miner_HndlBlk :: "(byte list \<Rightarrow> byte list) \<Rightarrow> Block option \<Rightarrow> ('pk, 'sk) Miner \<Rightarrow> ('pk, 'sk) mnr_result" where
  "Miner_HndlBlk H b m =
     (case b of
        None \<Rightarrow> Inr (m, [])
      | Some b \<Rightarrow> go_bind (HndlChkBlk H b m) (\<lambda>(m, ev). Inr (IncChnLen (SetHash (Block_Hash H b) m), ev)))"

definition Miner_HndlTx :: "Transaction option \<Rightarrow> ('pk, 'sk) Miner \<Rightarrow> ('pk, 'sk) mnr_result" where
  "Miner_HndlTx t m =
     (if t = None then Inr (m, [])
      else let m = m\<lparr>TxP := TxPool_Add t (TxP m)\<rparr>
           in if Active m then send_update m else Inr (m, []))"

text \<open>\<^verbatim>\<open>Pause\<close> and \<^verbatim>\<open>Resume\<close> end with a log line that formats the address.\<close>

definition Miner_Pause :: "('pk, 'sk) Miner \<Rightarrow> ('pk, 'sk) mnr_result" where
  "Miner_Pause m =
     go_bind (send_update (m\<lparr>Active := False\<rparr>)) (\<lambda>r. go_bind (FmtAddr (mnr_Addr m)) (\<lambda>_. Inr r))"

definition Miner_Resume :: "('pk, 'sk) Miner \<Rightarrow> ('pk, 'sk) mnr_result" where
  "Miner_Resume m =
     go_bind (send_update (m\<lparr>Active := True\<rparr>)) (\<lambda>r. go_bind (FmtAddr (mnr_Addr m)) (\<lambda>_. Inr r))"

definition Miner_Kill :: "('pk, 'sk) Miner \<Rightarrow> ('pk, 'sk) mnr_result" where
  "Miner_Kill m = (if mnr_closed m then Inl ChanClosed else Inr (m\<lparr>Active := False, mnr_closed := True\<rparr>, []))"

section \<open>mining_pool.go\<close>

fun NewMiningPool_loop :: "u32 \<Rightarrow> u32 \<Rightarrow> Heap \<Rightarrow> Transaction list" where
  "NewMiningPool_loop blkSz lim [] = []"
| "NewMiningPool_loop blkSz lim (n # rankings) =
     (let blkSz = blkSz + Transaction_Sz (hn_T n)
      in if blkSz < lim then hn_T n # NewMiningPool_loop blkSz lim rankings else [])"

definition NewMiningPool :: "('pk, 'sk) Miner \<Rightarrow> Transaction list" where
  "NewMiningPool m = NewMiningPool_loop 100 (BlkSz (mnr_Conf m)) (TxQ (TxP m))"

section \<open>mine.go\<close>

definition DifTrg :: "('pk, 'sk) Miner \<Rightarrow> string" where
  "DifTrg m = InitPOWD (mnr_Conf m)"

text \<open>The halving loop; \<open>q\<close> is the quotient \<^verbatim>\<open>ChnLen / SubsdyHlvRt\<close>.\<close>

function reward_loop :: "u32 \<Rightarrow> u32 \<Rightarrow> u32 \<Rightarrow> u32 \<Rightarrow> u32" where
  "reward_loop i q mx reward = (if i < q \<and> i < mx then reward_loop (i + 1) q mx (reward div 2) else reward)"
  by pat_completeness auto
termination
proof (relation "measure (\<lambda>(i, q, mx, reward). unat mx - unat i)")
  fix i q mx reward :: u32 assume "i < q \<and> i < mx"
  then have "i < mx" by simp
  then have "unat (i + 1) = unat i + 1"
    using unat_u32_less [of mx] by (simp add: word_less_nat_alt unat_word_ariths)
  then show "((i + 1, q, mx, reward div 2), i, q, mx, reward) \<in> measure (\<lambda>(i, q, mx, reward). unat mx - unat i)"
    using \<open>i < mx\<close> by (simp add: word_less_nat_alt)
qed simp

declare reward_loop.simps [simp del]

definition GenCBTx :: "('pk, 'sk) Miner \<Rightarrow> Transaction option list \<Rightarrow> Transaction option go" where
  "GenCBTx m txs =
     (if txs = [] then Inr None
      else if None \<in> set txs then Inr None
      else let fee = foldl (\<lambda>fee t. fee + (SumInputs (the t) - SumOutputs (the t))) 0 txs
           in if SubsdyHlvRt (mnr_Conf m) = 0 then Inl DivideByZero
              else let reward = reward_loop 0 (ChnLen m div SubsdyHlvRt (mnr_Conf m)) (MxHlvgs (mnr_Conf m)) (InitSubsdy (mnr_Conf m));
                       output = NewTxOutpt (fee + reward) (hex_EncodeToString (GetPublicKeyBytes (mnr_Id m)));
                       ts = NewTx (mc_Ver (mnr_Conf m)) [] [output] (DefLckTm (mnr_Conf m))
                   in Inr (Some (Transaction_Deserialize ts)))"

text \<open>
  The search for a nonce, from \<open>i\<close> on. \<open>stop i\<close>: the context is found cancelled at iteration \<open>i\<close>. The
  block is changed in place; its last nonce stays when the search fails.
\<close>

function CalcNonce_loop ::
    "(byte list \<Rightarrow> byte list) \<Rightarrow> (u32 \<Rightarrow> bool) \<Rightarrow> u32 \<Rightarrow> string \<Rightarrow> u32 \<Rightarrow> Block \<Rightarrow> bool \<times> Block" where
  "CalcNonce_loop H stop lim trg i b =
     (if i < lim
      then if stop i then (False, b)
           else let b = b\<lparr>Hdr := (Hdr b)\<lparr>Nonce := i\<rparr>\<rparr>
                in if SatisfiesPOW H b trg then (True, b) else CalcNonce_loop H stop lim trg (i + 1) b
      else (False, b))"
  by pat_completeness auto
termination
proof (relation "measure (\<lambda>(H, stop, lim, trg, i, b). unat lim - unat i)")
  fix H :: "byte list \<Rightarrow> byte list" and stop :: "u32 \<Rightarrow> bool" and lim i :: u32 and trg :: string and b x :: Block
  assume "i < lim"
  then have "unat (i + 1) = unat i + 1"
    using unat_u32_less [of lim] by (simp add: word_less_nat_alt unat_word_ariths)
  then show "((H, stop, lim, trg, i + 1, x), H, stop, lim, trg, i, b) \<in> measure (\<lambda>(H, stop, lim, trg, i, b). unat lim - unat i)"
    using \<open>i < lim\<close> by (simp add: word_less_nat_alt)
qed simp

declare CalcNonce_loop.simps [simp del]

definition CalcNonce :: "(byte list \<Rightarrow> byte list) \<Rightarrow> (u32 \<Rightarrow> bool) \<Rightarrow> ('pk, 'sk) Miner \<Rightarrow> Block \<Rightarrow> bool \<times> Block" where
  "CalcNonce H stop m b = CalcNonce_loop H stop (NncLim (mnr_Conf m)) (DifTrg m) 0 b"

text \<open>
  One round of the loop of \<^verbatim>\<open>Mine\<close>, after a receive from \<^verbatim>\<open>PoolUpdated\<close>, and the body of the
  goroutine it starts. \<open>None\<close>: the goroutine never ends. The log line of a mined
  block formats the address and names the block and its transactions.
\<close>

definition Mine_round :: "('pk, 'sk) Miner \<Rightarrow> mnr_event list" where
  "Mine_round m = CancelEv # (if Active m then [SpawnAttemptEv] else [])"

definition Mine_found :: "(byte list \<Rightarrow> byte list) \<Rightarrow> Block \<Rightarrow> ('pk, 'sk) Miner \<Rightarrow> ('pk, 'sk) mnr_result" where
  "Mine_found H b m =
     go_bind (FmtAddr (mnr_Addr m)) (\<lambda>_.
     go_bind (Block_NameTag H b) (\<lambda>_.
     go_bind (Block_Summarize H b) (\<lambda>_.
       if mnr_closed m then Inl ChanClosed
       else go_bind (Miner_HndlBlk H (Some b) m) (\<lambda>(m, ev). Inr (m, SendBlkEv b # ev)))))"

definition Mine_search ::
    "(byte list \<Rightarrow> byte list) \<Rightarrow> (u32 \<Rightarrow> bool) \<Rightarrow> Block \<Rightarrow> ('pk, 'sk) Miner \<Rightarrow> ('pk, 'sk) mnr_result" where
  "Mine_search H stop b m =
     (case CalcNonce H stop m b of (result, b) \<Rightarrow>
        let m = m\<lparr>Mining := False\<rparr>
        in if result then Mine_found H b m else Inr (m, []))"

definition Mine_attempt ::
    "(byte list \<Rightarrow> byte list) \<Rightarrow> (u32 \<Rightarrow> bool) \<Rightarrow> ('pk, 'sk) Miner \<Rightarrow> ('pk, 'sk) mnr_result option" where
  "Mine_attempt H stop m =
     (if \<not> PriMet (TxP m) then Some (Inr (m, []))
      else let m = m\<lparr>Mining := True\<rparr>; m = m\<lparr>MiningPool := NewMiningPool m\<rparr>
           in case GenCBTx m (map Some (MiningPool m)) of
                Inl e \<Rightarrow> Some (Inl e)
              | Inr cb \<Rightarrow>
                  map_option (\<lambda>r. go_bind r (\<lambda>b. Mine_search H stop b m))
                    (Block_New H (PrvHsh m) (cb # map Some (MiningPool m)) (DifTrg m)))"

section \<open>Lemmas\<close>

lemma unat_suc: "i < (n :: u32) \<Longrightarrow> unat (i + 1) = unat i + 1"
  using unat_u32_less [of n] by (simp add: word_less_nat_alt unat_word_ariths)

lemma reward_loop_value:
  "unat i \<le> min (unat q) (unat mx) \<Longrightarrow> unat (reward_loop i q mx r) = unat r div 2 ^ (min (unat q) (unat mx) - unat i)"
proof (induction i q mx r rule: reward_loop.induct)
  case (1 i q mx r)
  show ?case
  proof (cases "i < q \<and> i < mx")
    case True
    have u: "unat (i + 1) = unat i + 1" using True unat_suc [of i q] by simp
    have le: "unat (i + 1) \<le> min (unat q) (unat mx)" using True u by (simp add: word_less_nat_alt)
    then have s: "min (unat q) (unat mx) - unat i = Suc (min (unat q) (unat mx) - unat (i + 1))" using u by arith
    have "unat (reward_loop i q mx r) = unat (reward_loop (i + 1) q mx (r div 2))" using True by (simp add: reward_loop.simps [of i])
    also have "\<dots> = unat (r div 2) div 2 ^ (min (unat q) (unat mx) - unat (i + 1))" by (rule "1.IH" [OF True le])
    finally show ?thesis unfolding s by (simp add: unat_div div_mult2_eq)
  next
    case False
    then have "min (unat q) (unat mx) - unat i = 0" using "1.prems" by (auto simp: word_less_nat_alt)
    then show ?thesis using False by (auto simp: reward_loop.simps [of i])
  qed
qed

text \<open>The subsidy of a block: the initial one, halved once per \<open>rate\<close> blocks, at most \<open>mx\<close> times.\<close>

definition subsidy :: "mnr_Config \<Rightarrow> u32 \<Rightarrow> u32" where
  "subsidy c len = reward_loop 0 (len div SubsdyHlvRt c) (MxHlvgs c) (InitSubsdy c)"

lemma unat_subsidy:
  "unat (subsidy c len) = unat (InitSubsdy c) div 2 ^ min (unat len div unat (SubsdyHlvRt c)) (unat (MxHlvgs c))"
  using reward_loop_value [of 0 "len div SubsdyHlvRt c" "MxHlvgs c" "InitSubsdy c"] by (simp add: subsidy_def unat_div)

definition cb_tx :: "('pk, 'sk) Miner \<Rightarrow> Transaction list \<Rightarrow> Transaction" where
  "cb_tx m ts = \<lparr>tx_Version = mc_Ver (mnr_Conf m), tx_Inputs = [],
     tx_Outputs = [\<lparr>txo_Amount = sum_list (map (\<lambda>t. SumInputs t - SumOutputs t) ts) + subsidy (mnr_Conf m) (ChnLen m),
        txo_LockingScript = hex_EncodeToString (GetPublicKeyBytes (mnr_Id m)), txo_Liminal = False\<rparr>],
     tx_LockTime = DefLckTm (mnr_Conf m)\<rparr>"

lemma GenCBTx_eq:
  "ts \<noteq> [] \<Longrightarrow> SubsdyHlvRt (mnr_Conf m) \<noteq> 0 \<Longrightarrow> GenCBTx m (map Some ts) = Inr (Some (cb_tx m ts))"
  using foldl_add_sum_list [of "\<lambda>t. SumInputs (the t) - SumOutputs (the t)" 0 "map Some ts"]
  by (auto simp: GenCBTx_def Let_def cb_tx_def subsidy_def wire_defs comp_def)

lemma cb_tx_fields:
  "IsCoinbase (cb_tx m ts)" "Transaction_Sz (cb_tx m ts) = 28" "clear_liminal (cb_tx m ts) = cb_tx m ts"
  "SumOutputs (cb_tx m ts) = sum_list (map (\<lambda>t. SumInputs t - SumOutputs t) ts) + subsidy (mnr_Conf m) (ChnLen m)"
  by (simp_all add: cb_tx_def IsCoinbase_def Transaction_Sz_eq clear_liminal_def SumOutputs_def)

lemma CalcNonce_loop_found:
  assumes "CalcNonce_loop H stop lim trg i b = (True, b')"
  shows "\<exists>n. i \<le> n \<and> n < lim \<and> b' = b\<lparr>Hdr := (Hdr b)\<lparr>Nonce := n\<rparr>\<rparr> \<and> SatisfiesPOW H b' trg
    \<and> (\<forall>j. i \<le> j \<and> j < n \<longrightarrow> \<not> SatisfiesPOW H (b\<lparr>Hdr := (Hdr b)\<lparr>Nonce := j\<rparr>\<rparr>) trg) \<and> (\<forall>j. i \<le> j \<and> j \<le> n \<longrightarrow> \<not> stop j)"
  using assms
proof (induction H stop lim trg i b rule: CalcNonce_loop.induct)
  case (1 H stop lim trg i b)
  let ?b = "b\<lparr>Hdr := (Hdr b)\<lparr>Nonce := i\<rparr>\<rparr>"
  have lim: "i < lim" "\<not> stop i" using "1.prems" by (auto simp: CalcNonce_loop.simps [of H stop lim trg i b] split: if_splits)
  show ?case
  proof (cases "SatisfiesPOW H ?b trg")
    case True
    then have "b' = ?b" using "1.prems" lim by (simp add: CalcNonce_loop.simps [of H stop lim trg i b])
    with True lim show ?thesis by (intro exI [of _ i]) auto
  next
    case False
    have "CalcNonce_loop H stop lim trg (i + 1) ?b = (True, b')"
      using "1.prems" lim False by (simp add: CalcNonce_loop.simps [of H stop lim trg i b])
    from "1.IH" [OF lim refl False this] obtain n where n: "i + 1 \<le> n" "n < lim" "b' = b\<lparr>Hdr := (Hdr b)\<lparr>Nonce := n\<rparr>\<rparr>"
      "SatisfiesPOW H b' trg" "\<forall>j. i + 1 \<le> j \<and> j < n \<longrightarrow> \<not> SatisfiesPOW H (b\<lparr>Hdr := (Hdr b)\<lparr>Nonce := j\<rparr>\<rparr>) trg"
      "\<forall>j. i + 1 \<le> j \<and> j \<le> n \<longrightarrow> \<not> stop j" by auto
    have step: "j = i \<or> i + 1 \<le> j" if "i \<le> j" for j
      using that unat_suc [OF lim(1)] by (auto simp: word_le_nat_alt word_unat_eq_iff)
    have "i \<le> n" using n(1) unat_suc [OF lim(1)] by (simp add: word_le_nat_alt)
    with n step lim False show ?thesis by (intro exI [of _ n]) blast
  qed
qed

lemma CalcNonce_loop_finds:
  assumes "i \<le> n" "n < lim" "SatisfiesPOW H (b\<lparr>Hdr := (Hdr b)\<lparr>Nonce := n\<rparr>\<rparr>) trg" "\<forall>j. i \<le> j \<and> j \<le> n \<longrightarrow> \<not> stop j"
  shows "fst (CalcNonce_loop H stop lim trg i b)"
  using assms
proof (induction H stop lim trg i b rule: CalcNonce_loop.induct)
  case (1 H stop lim trg i b)
  let ?b = "b\<lparr>Hdr := (Hdr b)\<lparr>Nonce := i\<rparr>\<rparr>"
  have lim: "i < lim" "\<not> stop i" using "1.prems" by auto
  show ?case
  proof (cases "SatisfiesPOW H ?b trg")
    case False
    then have "i \<noteq> n" using "1.prems"(3) by auto
    then have "i + 1 \<le> n" using "1.prems"(1) unat_suc [OF lim(1)] by (auto simp: word_le_nat_alt word_unat_eq_iff)
    moreover have "\<forall>j. i + 1 \<le> j \<and> j \<le> n \<longrightarrow> \<not> stop j"
      using "1.prems"(4) unat_suc [OF lim(1)] by (auto simp: word_le_nat_alt)
    ultimately have "fst (CalcNonce_loop H stop lim trg (i + 1) ?b)"
      using "1.IH" [OF lim refl False _ "1.prems"(2)] "1.prems"(3) by simp
    then show ?thesis using lim False by (simp add: CalcNonce_loop.simps [of H stop lim trg i b])
  qed (use lim in \<open>simp add: CalcNonce_loop.simps [of H stop lim trg i b]\<close>)
qed

lemma Block_New_Some:
  assumes "ts \<noteq> []"
  obtains root where "CalcMrklRt H ts = Some root"
    and "Block_New H p (map Some ts) trg = Some (Inr \<lparr>Hdr = \<lparr>Ver = 0, PrvBlkHsh = p, MrklRt = root, Timestamp = 0, DiffTarg = trg, Nonce = 0\<rparr>,
           Transactions = map clear_liminal ts\<rparr>)"
proof -
  obtain root where root: "CalcMrklRt H ts = Some root"
    using merkle_loop_total [of "map (Transaction_Hash H) ts" H] assms by (auto simp: CalcMrklRt_loop_eq)
  have "go_map (\<lambda>t. case t of None \<Rightarrow> Inl NilDeref | Some t \<Rightarrow> Inr (Transaction_Serialize t)) (map Some ts) = Inr (map Transaction_Serialize ts)"
    by (subst go_map_Inr [where g = "\<lambda>t. Transaction_Serialize (the t)"]) (auto simp: comp_def)
  with root show thesis
    by (intro that [OF root]) (simp add: Block_New_def Block_Deserialize_def comp_def Transaction_Deserialize_Serialize)
qed

lemma Block_New_nil: "Block_New H p (None # ts) trg = Some (Inl NilDeref)"
  by (simp add: Block_New_def)

lemma CalcMrklRt_clear: "CalcMrklRt H (map clear_liminal ts) = CalcMrklRt H ts"
  by (simp add: CalcMrklRt_loop_eq comp_def)

lemma HndlBlk_open: "\<not> mnr_closed m \<Longrightarrow> Miner_HndlBlk H (Some b) m =
    Inr (m\<lparr>TxP := TxPool_ChkTxs H (map Some (Transactions b)) (TxP m), PrvHsh := Block_Hash H b, ChnLen := ChnLen m + 1\<rparr>,
         if Active m then [PoolUpdatedEv] else [])"
  by (simp add: Miner_HndlBlk_def HndlChkBlk_def send_update_def Let_def IncChnLen_def SetHash_def)

lemma NameTag_ok: "(\<And>v. length (H v) = 32) \<Longrightarrow> (\<exists>s. Transaction_NameTag H t = Inr s) \<and> (\<exists>s. Block_NameTag H b = Inr s)"
  by (simp add: Transaction_NameTag_def Block_NameTag_def Let_def Transaction_Hash_def Block_Hash_def utils_Hash_def)

lemma Summarize_ok:
  assumes "\<And>v. length (H v) = 32" "length (PrvBlkHsh (Hdr b)) \<ge> 10"
  shows "\<exists>s. Block_Summarize H b = Inr s"
proof -
  have "Transaction_NameTag H t = Inr (projr (Transaction_NameTag H t))" for t using NameTag_ok [of H t b, OF assms(1)] by (metis sum.sel(2))
  then have "go_map (Transaction_NameTag H) (Transactions b) = Inr (map (\<lambda>t. projr (Transaction_NameTag H t)) (Transactions b))"
    by (rule go_map_Inr)
  then show ?thesis using assms(2) by (simp add: Block_Summarize_def Let_def)
qed

text \<open>The block a search works on, before a nonce is found.\<close>

definition candidate :: "(byte list \<Rightarrow> byte list) \<Rightarrow> ('pk, 'sk) Miner \<Rightarrow> Block" where
  "candidate H m =
     \<lparr>Hdr = \<lparr>Ver = 0, PrvBlkHsh = PrvHsh m, MrklRt = the (CalcMrklRt H (cb_tx m (NewMiningPool m) # NewMiningPool m)),
             Timestamp = 0, DiffTarg = DifTrg m, Nonce = 0\<rparr>,
      Transactions = cb_tx m (NewMiningPool m) # map clear_liminal (NewMiningPool m)\<rparr>"

text \<open>What a miner needs for a search to run without a panic.\<close>

definition ready :: "('pk, 'sk) Miner \<Rightarrow> bool" where
  "ready m \<longleftrightarrow> PriMet (TxP m) \<and> NewMiningPool m \<noteq> [] \<and> SubsdyHlvRt (mnr_Conf m) \<noteq> 0
     \<and> \<not> mnr_closed m \<and> length (PrvHsh m) \<ge> 10 \<and> (\<exists>a. FmtAddr (mnr_Addr m) = Inr a)"

lemma Mine_found_ready:
  assumes "\<And>v. length (H v) = 32" "\<not> mnr_closed m" "length (PrvBlkHsh (Hdr b)) \<ge> 10" "FmtAddr (mnr_Addr m) = Inr a"
  shows "Mine_found H b m = Inr (m\<lparr>TxP := TxPool_ChkTxs H (map Some (Transactions b)) (TxP m), PrvHsh := Block_Hash H b, ChnLen := ChnLen m + 1\<rparr>,
    SendBlkEv b # (if Active m then [PoolUpdatedEv] else []))"
proof -
  obtain s1 s2 where "Block_Summarize H b = Inr s1" "Block_NameTag H b = Inr s2"
    using Summarize_ok [of H b, OF assms(1,3)] NameTag_ok [of H undefined b, OF assms(1)] by auto
  then show ?thesis using assms(2,4) by (simp add: Mine_found_def HndlBlk_open)
qed

text \<open>The steps of a search up to the block without a nonce.\<close>

lemma ready_candidate:
  assumes "ready m"
  shows "GenCBTx (m\<lparr>Mining := True, MiningPool := NewMiningPool m\<rparr>) (map Some (NewMiningPool m)) = Inr (Some (cb_tx m (NewMiningPool m)))" (is ?cb)
    and "Block_New H (PrvHsh m) (Some (cb_tx m (NewMiningPool m)) # map Some (NewMiningPool m)) (DifTrg m) = Some (Inr (candidate H m))" (is ?blk)
proof -
  let ?p = "NewMiningPool m"
  show ?cb using assms GenCBTx_eq [of ?p "m\<lparr>Mining := True, MiningPool := ?p\<rparr>"] by (simp add: ready_def cb_tx_def)
  obtain root where root: "CalcMrklRt H (cb_tx m ?p # ?p) = Some root"
    and bn: "Block_New H (PrvHsh m) (map Some (cb_tx m ?p # ?p)) (DifTrg m) = Some (Inr \<lparr>Hdr = \<lparr>Ver = 0, PrvBlkHsh = PrvHsh m, MrklRt = root,
        Timestamp = 0, DiffTarg = DifTrg m, Nonce = 0\<rparr>, Transactions = map clear_liminal (cb_tx m ?p # ?p)\<rparr>)"
    by (rule Block_New_Some [of "cb_tx m ?p # ?p"]) simp
  then show ?blk by (simp add: candidate_def cb_tx_fields)
qed

lemma Mine_attempt_ready:
  assumes "\<And>v. length (H v) = 32" "ready m"
  shows "Mine_attempt H stop m = Some (Inr (case CalcNonce H stop m (candidate H m) of (found, b) \<Rightarrow>
    let m1 = m\<lparr>MiningPool := NewMiningPool m, Mining := False\<rparr>
    in if \<not> found then (m1, [])
       else (m1\<lparr>TxP := TxPool_ChkTxs H (map Some (Transactions b)) (TxP m), PrvHsh := Block_Hash H b, ChnLen := ChnLen m + 1\<rparr>,
             SendBlkEv b # (if Active m then [PoolUpdatedEv] else []))))"
proof -
  let ?p = "NewMiningPool m"
  define m' where "m' = m\<lparr>Mining := True, MiningPool := ?p\<rparr>"
  have np: "NewMiningPool (m\<lparr>Mining := True\<rparr>) = ?p" by (simp add: NewMiningPool_def)
  have cb: "GenCBTx m' (map Some ?p) = Inr (Some (cb_tx m ?p))" using ready_candidate(1) [OF assms(2)] by (simp add: m'_def)
  have b0: "Block_New H (PrvHsh m') (Some (cb_tx m ?p) # map Some ?p) (DifTrg m') = Some (Inr (candidate H m))"
    using ready_candidate(2) [OF assms(2)] by (simp add: m'_def DifTrg_def)
  have at: "Mine_attempt H stop m = Some (Mine_search H stop (candidate H m) m')"
    using assms(2) cb b0 by (simp add: Mine_attempt_def Let_def np m'_def [symmetric] ready_def) (simp add: m'_def)
  obtain found b where cn: "CalcNonce H stop m (candidate H m) = (found, b)" by fastforce
  have cn': "CalcNonce H stop m' (candidate H m) = (found, b)" using cn by (simp add: CalcNonce_def DifTrg_def m'_def)
  show ?thesis
  proof (cases found)
    case True
    then have "PrvBlkHsh (Hdr b) = PrvHsh m"
      using cn CalcNonce_loop_found unfolding CalcNonce_def by (fastforce simp: candidate_def)
    moreover obtain a where "FmtAddr (mnr_Addr m) = Inr a" using assms(2) by (auto simp: ready_def)
    ultimately have "Mine_found H b (m'\<lparr>Mining := False\<rparr>) = Inr (m'\<lparr>Mining := False, TxP := TxPool_ChkTxs H (map Some (Transactions b)) (TxP m),
        PrvHsh := Block_Hash H b, ChnLen := ChnLen m + 1\<rparr>, SendBlkEv b # (if Active m then [PoolUpdatedEv] else []))"
      using assms(2) Mine_found_ready [of H "m'\<lparr>Mining := False\<rparr>" b a, OF assms(1)] by (simp add: m'_def ready_def)
    then show ?thesis using True by (simp add: at Mine_search_def cn cn') (simp add: m'_def)
  next
    case False
    then show ?thesis by (simp add: at Mine_search_def cn cn') (simp add: m'_def)
  qed
qed

lemma NewMiningPool_loop_sz:
  assumes "\<forall>n \<in> set q. unat (Transaction_Sz (hn_T n)) + unat lim < 2 ^ 32" "unat sz < unat lim \<or> NewMiningPool_loop sz lim q = []"
  shows "unat sz + sum_list (map (\<lambda>t. unat (Transaction_Sz t)) (NewMiningPool_loop sz lim q)) < max (unat lim) (unat sz + 1)
    \<and> set (NewMiningPool_loop sz lim q) \<subseteq> hn_T ` set q"
  using assms
proof (induction q arbitrary: sz)
  case (Cons n q)
  let ?sz = "sz + Transaction_Sz (hn_T n)"
  show ?case
  proof (cases "?sz < lim")
    case True
    then have "unat sz < unat lim" using Cons.prems(2) by (auto simp: Let_def)
    moreover have "unat (Transaction_Sz (hn_T n)) + unat lim < 2 ^ 32" using Cons.prems(1) by simp
    ultimately have u: "unat ?sz = unat sz + unat (Transaction_Sz (hn_T n))" by (simp add: unat_word_ariths)
    have "unat ?sz < unat lim" using True by (simp add: word_less_nat_alt)
    with Cons.IH [of ?sz] Cons.prems(1) have "unat ?sz + sum_list (map (\<lambda>t. unat (Transaction_Sz t)) (NewMiningPool_loop ?sz lim q)) < unat lim"
        "set (NewMiningPool_loop ?sz lim q) \<subseteq> hn_T ` set q" by auto
    with True u show ?thesis by (auto simp: Let_def)
  qed (auto simp: Let_def)
qed simp

lemma NewMiningPool_prefix:
  "\<exists>k. NewMiningPool_loop sz lim q = map hn_T (take k q)"
proof (induction q arbitrary: sz)
  case (Cons n q)
  obtain k where "NewMiningPool_loop (sz + Transaction_Sz (hn_T n)) lim q = map hn_T (take k q)" using Cons.IH by blast
  then show ?case
    by (cases "sz + Transaction_Sz (hn_T n) < lim") (auto simp: Let_def intro: exI [of _ "Suc k"] exI [of _ 0])
qed simp

section \<open>Properties\<close>

text \<open>
  C39: The coinbase. For a non-empty list of transactions without nil, and a halving rate that is not
  zero, the coinbase has no inputs and one output, locked to the miner's public key, of the sum of
  the fees plus the subsidy, modulo \<open>2 ^ 32\<close>; the subsidy is the initial one divided by 2 to the number of
  halvings, one per \<open>SubsdyHlvRt\<close> blocks and at most \<open>MxHlvgs\<close>. A rate of zero divides by zero; no
  transactions, or a nil one anywhere in the list, give nil.
\<close>

theorem GenCBTx_reward:
  "(ts \<noteq> [] \<and> SubsdyHlvRt (mnr_Conf m) \<noteq> 0 \<longrightarrow>
      (\<exists>cb r. GenCBTx m (map Some ts) = Inr (Some cb) \<and> IsCoinbase cb
         \<and> tx_Outputs cb = [\<lparr>txo_Amount = sum_list (map (\<lambda>t. SumInputs t - SumOutputs t) ts) + r,
              txo_LockingScript = hex_EncodeToString (GetPublicKeyBytes (mnr_Id m)), txo_Liminal = False\<rparr>]
         \<and> unat r = unat (InitSubsdy (mnr_Conf m)) div 2 ^ min (unat (ChnLen m) div unat (SubsdyHlvRt (mnr_Conf m))) (unat (MxHlvgs (mnr_Conf m)))))
   \<and> (ts \<noteq> [] \<and> SubsdyHlvRt (mnr_Conf m) = 0 \<longrightarrow> GenCBTx m (map Some ts) = Inl DivideByZero)
   \<and> GenCBTx m [] = Inr None \<and> (None \<in> set os \<longrightarrow> GenCBTx m os = Inr None)"
proof (intro conjI impI)
  assume "ts \<noteq> [] \<and> SubsdyHlvRt (mnr_Conf m) \<noteq> 0"
  then show "\<exists>cb r. GenCBTx m (map Some ts) = Inr (Some cb) \<and> IsCoinbase cb
         \<and> tx_Outputs cb = [\<lparr>txo_Amount = sum_list (map (\<lambda>t. SumInputs t - SumOutputs t) ts) + r,
              txo_LockingScript = hex_EncodeToString (GetPublicKeyBytes (mnr_Id m)), txo_Liminal = False\<rparr>]
         \<and> unat r = unat (InitSubsdy (mnr_Conf m)) div 2 ^ min (unat (ChnLen m) div unat (SubsdyHlvRt (mnr_Conf m))) (unat (MxHlvgs (mnr_Conf m)))"
    using GenCBTx_eq [of ts m] cb_tx_fields(1) unat_subsidy [of "mnr_Conf m" "ChnLen m"]
    by (intro exI [of _ "cb_tx m ts"] exI [of _ "subsidy (mnr_Conf m) (ChnLen m)"]) (simp add: cb_tx_def)
qed (auto simp: GenCBTx_def)

text \<open>A miner whose pool holds one payment, for witnesses.\<close>

definition demo_id :: "(byte, byte) SimpleID" where
  "demo_id = the (CreateSimpleID echo_ecdsa 9)"

definition demo_mnr :: "(byte, byte) Miner" where
  "demo_mnr = \<lparr>mnr_Conf = (mnr_DefaultConfig 3)\<lparr>InitPOWD := easy_target\<rparr>, mnr_Id = demo_id,
     TxP = \<lparr>CurPri = 1, tp_PriLim = 1, TxQ = [\<lparr>hn_P = CalcPri (Some (demo_pay 9 8)), hn_T = demo_pay 9 8\<rparr>], Ct = 1, Cap = 5\<rparr>,
     MiningPool = [], PrvHsh = num_hash 75, mnr_Addr = [], ChnLen = 25, Active = True, Mining = False, mnr_closed = False\<rparr>"

theorem GenCBTx_reward_witness:
  "\<exists>cb. GenCBTx demo_mnr (map Some [demo_pay 9 8]) = Inr (Some cb) \<and> SumOutputs cb = 3"
proof -
  have "SubsdyHlvRt (mnr_Conf demo_mnr) \<noteq> 0" by (simp add: demo_mnr_def mnr_DefaultConfig_def)
  then obtain cb r where cb: "GenCBTx demo_mnr (map Some [demo_pay 9 8]) = Inr (Some cb)"
      "tx_Outputs cb = [\<lparr>txo_Amount = sum_list (map (\<lambda>t. SumInputs t - SumOutputs t) [demo_pay 9 8]) + r,
              txo_LockingScript = hex_EncodeToString (GetPublicKeyBytes (mnr_Id demo_mnr)), txo_Liminal = False\<rparr>]"
      "unat r = unat (InitSubsdy (mnr_Conf demo_mnr)) div 2 ^ min (unat (ChnLen demo_mnr) div unat (SubsdyHlvRt (mnr_Conf demo_mnr))) (unat (MxHlvgs (mnr_Conf demo_mnr)))"
    using GenCBTx_reward [of "[demo_pay 9 8]" demo_mnr "[]"] by auto
  have "r = 2" using cb(3) by (simp add: demo_mnr_def mnr_DefaultConfig_def word_unat_eq_iff)
  moreover have "sum_list (map (\<lambda>t. SumInputs t - SumOutputs t) [demo_pay 9 8]) = 1" by (simp add: demo_pay_fields)
  ultimately show ?thesis using cb(1,2) by (simp only: SumOutputs_def) simp
qed

text \<open>
  C38: The search for a nonce. It always ends. It succeeds with the smallest nonce below the limit
  whose block satisfies the target, if there is one and the search is not stopped up to
  then; a success changes the nonce and nothing else of the block.
\<close>

theorem CalcNonce_finds_least:
  "(CalcNonce H stop m b = (True, b') \<longrightarrow>
      (\<exists>n < NncLim (mnr_Conf m). b' = b\<lparr>Hdr := (Hdr b)\<lparr>Nonce := n\<rparr>\<rparr> \<and> SatisfiesPOW H b' (DifTrg m)
         \<and> (\<forall>j < n. \<not> SatisfiesPOW H (b\<lparr>Hdr := (Hdr b)\<lparr>Nonce := j\<rparr>\<rparr>) (DifTrg m))))
   \<and> ((\<exists>n < NncLim (mnr_Conf m). SatisfiesPOW H (b\<lparr>Hdr := (Hdr b)\<lparr>Nonce := n\<rparr>\<rparr>) (DifTrg m) \<and> (\<forall>j \<le> n. \<not> stop j))
       \<longleftrightarrow> (\<exists>b'. CalcNonce H stop m b = (True, b')))"
proof (intro conjI impI iffI)
  assume "CalcNonce H stop m b = (True, b')"
  from CalcNonce_loop_found [OF this [unfolded CalcNonce_def]]
  show "\<exists>n < NncLim (mnr_Conf m). b' = b\<lparr>Hdr := (Hdr b)\<lparr>Nonce := n\<rparr>\<rparr> \<and> SatisfiesPOW H b' (DifTrg m)
         \<and> (\<forall>j < n. \<not> SatisfiesPOW H (b\<lparr>Hdr := (Hdr b)\<lparr>Nonce := j\<rparr>\<rparr>) (DifTrg m))" by auto
next
  assume "\<exists>n < NncLim (mnr_Conf m). SatisfiesPOW H (b\<lparr>Hdr := (Hdr b)\<lparr>Nonce := n\<rparr>\<rparr>) (DifTrg m) \<and> (\<forall>j \<le> n. \<not> stop j)"
  then have "fst (CalcNonce H stop m b)" unfolding CalcNonce_def using CalcNonce_loop_finds [of 0] by auto
  then show "\<exists>b'. CalcNonce H stop m b = (True, b')" by (metis (full_types) prod.collapse)
next
  assume "\<exists>b'. CalcNonce H stop m b = (True, b')"
  then obtain b' where "CalcNonce H stop m b = (True, b')" ..
  from CalcNonce_loop_found [OF this [unfolded CalcNonce_def]]
  show "\<exists>n < NncLim (mnr_Conf m). SatisfiesPOW H (b\<lparr>Hdr := (Hdr b)\<lparr>Nonce := n\<rparr>\<rparr>) (DifTrg m) \<and> (\<forall>j \<le> n. \<not> stop j)" by auto
qed

lemma demo_target: "DifTrg demo_mnr = easy_target" "NncLim (mnr_Conf demo_mnr) = 2 ^ 20"
  by (simp_all add: DifTrg_def demo_mnr_def mnr_DefaultConfig_def)

theorem CalcNonce_finds_least_witness:
  "\<exists>b'. CalcNonce length_digest (\<lambda>i. i = 5) demo_mnr (demo_block 7) = (True, b')"
proof -
  have "\<exists>n < NncLim (mnr_Conf demo_mnr). SatisfiesPOW length_digest ((demo_block 7)\<lparr>Hdr := (Hdr (demo_block 7))\<lparr>Nonce := n\<rparr>\<rparr>) (DifTrg demo_mnr)
      \<and> (\<forall>j \<le> n. \<not> j = 5)"
    by (intro exI [of _ 0]) (simp add: demo_target easy_target_POW)
  then show ?thesis using CalcNonce_finds_least [of length_digest "\<lambda>i. i = 5" demo_mnr "demo_block 7"] by blast
qed

text \<open>
  The choice of transactions. The mining pool is a prefix of the queue's array. When every
  queued transaction and the block limit together stay below 4 GiB and the limit is above the 100
  bytes kept for the coinbase, the chosen transactions and these 100 bytes are smaller than the limit.
\<close>

theorem NewMiningPool_fits:
  assumes "\<forall>n \<in> set (TxQ (TxP m)). unat (Transaction_Sz (hn_T n)) + unat (BlkSz (mnr_Conf m)) < 2 ^ 32"
    and "BlkSz (mnr_Conf m) > 100"
  shows "(\<exists>k. NewMiningPool m = map hn_T (take k (TxQ (TxP m))))
    \<and> 100 + sum_list (map (\<lambda>t. unat (Transaction_Sz t)) (NewMiningPool m)) < unat (BlkSz (mnr_Conf m))"
proof -
  have "unat (100 :: u32) < unat (BlkSz (mnr_Conf m))" using assms(2) by (simp add: word_less_nat_alt)
  then show ?thesis
    using NewMiningPool_loop_sz [OF assms(1), of 100] NewMiningPool_prefix [of 100 "BlkSz (mnr_Conf m)" "TxQ (TxP m)"]
    by (simp add: NewMiningPool_def)
qed

lemma demo_queue: "TxQ (TxP demo_mnr) = [\<lparr>hn_P = CalcPri (Some (demo_pay 9 8)), hn_T = demo_pay 9 8\<rparr>]" "BlkSz (mnr_Conf demo_mnr) = 1000"
  by (simp_all add: demo_mnr_def mnr_DefaultConfig_def)

lemma demo_PriMet: "PriMet (TxP demo_mnr)"
  by (simp add: demo_mnr_def PriMet_def)

lemma demo_pool: "NewMiningPool demo_mnr = [demo_pay 9 8]"
  by (simp add: NewMiningPool_def demo_queue demo_pay_fields)

theorem NewMiningPool_fits_witness: "100 + sum_list (map (\<lambda>t. unat (Transaction_Sz t)) (NewMiningPool demo_mnr)) < 1000"
  using NewMiningPool_fits [of demo_mnr] by (simp add: demo_queue demo_pay_fields)

text \<open>
  An empty mining pool stops the process. When the priority limit is met and the transaction in
  front of the queue does not fit below the block limit together with the 100 bytes for the coinbase, nothing is
  chosen, the coinbase is nil and building the block dereferences it.
\<close>

theorem oversized_front_panics:
  assumes "PriMet (TxP m)" "TxQ (TxP m) = n # q" "100 + Transaction_Sz (hn_T n) \<ge> BlkSz (mnr_Conf m)"
  shows "NewMiningPool m = [] \<and> Mine_attempt H stop m = Some (Inl NilDeref)"
proof -
  have "NewMiningPool (m\<lparr>Mining := b\<rparr>) = []" for b using assms(2,3) by (simp add: NewMiningPool_def Let_def not_less)
  from this this [of "Mining m"] show ?thesis using assms(1) by (simp add: Mine_attempt_def Let_def GenCBTx_def Block_New_nil)
qed

theorem oversized_front_panics_witness:
  "Mine_attempt length_digest (\<lambda>_. False)
     (demo_mnr\<lparr>mnr_Conf := (mnr_Conf demo_mnr)\<lparr>BlkSz := 168\<rparr>\<rparr>) = Some (Inl NilDeref)"
  using oversized_front_panics [of "demo_mnr\<lparr>mnr_Conf := (mnr_Conf demo_mnr)\<lparr>BlkSz := 168\<rparr>\<rparr>" _ "[]" length_digest "\<lambda>_. False"]
  by (simp add: demo_queue demo_PriMet demo_pay_fields)

lemma ChkTx_clear [simp]: "ChkTx ec H mx bc (Some (clear_liminal t)) = ChkTx ec H mx bc (Some t)"
  by (simp add: ChkTx_def clear_liminal_def SumOutputs_sum SumInputs_sum Transaction_Sz_eq comp_def)

lemma Transaction_Sz_clear [simp]: "Transaction_Sz (clear_liminal t) = Transaction_Sz t"
  by (simp add: Transaction_Sz_eq clear_liminal_def)

lemma candidate_Sz:
  assumes "100 + sum_list (map (\<lambda>t. unat (Transaction_Sz t)) (NewMiningPool m)) < unat lim"
  shows "Block_Sz (candidate H m) \<le> lim"
proof -
  let ?s = "sum_list (map Transaction_Sz (NewMiningPool m))"
  have less: "sum_list (map (\<lambda>t. unat (Transaction_Sz t)) (NewMiningPool m)) + 100 < 2 ^ 32"
    using assms unat_u32_less [of lim] by simp
  have "unat ?s = sum_list (map (\<lambda>t. unat (Transaction_Sz t)) (NewMiningPool m))"
    using unat_sum_list_exact [of "map Transaction_Sz (NewMiningPool m)"] less by (simp add: comp_def)
  moreover have "Block_Sz (candidate H m) = ?s + 72" by (simp add: Block_Sz_eq candidate_def cb_tx_fields comp_def)
  ultimately show ?thesis using assms less by (simp add: word_le_nat_alt unat_word_ariths)
qed

lemma Mine_attempt_valid:
  assumes "\<And>v. length (H v) = 32" "ready m" "Mine_attempt H stop m = Some (Inr (m', ev))" "SendBlkEv b \<in> set ev"
    and "chain_run H conf bs bc" "\<forall>t \<in> set (NewMiningPool m). ChkTx ec H mx bc (Some t) = Inr True"
    and "\<forall>n \<in> set (TxQ (TxP m)). unat (Transaction_Sz (hn_T n)) + unat (BlkSz (mnr_Conf m)) < 2 ^ 32"
    and "100 < BlkSz (mnr_Conf m)" "BlkSz (mnr_Conf m) \<le> mx"
    and "sum_list (map (\<lambda>t. SumInputs t - SumOutputs t) (NewMiningPool m)) + subsidy (mnr_Conf m) (ChnLen m) \<noteq> 0"
  shows "ChkBlk ec H mx bc (Some b) = Inr True \<and> PrvBlkHsh (Hdr b) = PrvHsh m
    \<and> CalcMrklRt H (Transactions b) = Some (MrklRt (Hdr b))
    \<and> Transactions b = cb_tx m (NewMiningPool m) # map clear_liminal (NewMiningPool m)
    \<and> PrvHsh m' = Block_Hash H b \<and> ChnLen m' = ChnLen m + 1"
proof -
  obtain found b0 where cn: "CalcNonce H stop m (candidate H m) = (found, b0)" by fastforce
  have found: "found" "b0 = b" and m': "PrvHsh m' = Block_Hash H b" "ChnLen m' = ChnLen m + 1"
    using assms(3,4) unfolding Mine_attempt_ready [OF assms(1,2)] cn by (auto simp: Let_def split: if_splits)
  obtain n where b: "b = (candidate H m)\<lparr>Hdr := (Hdr (candidate H m))\<lparr>Nonce := n\<rparr>\<rparr>" and pow: "SatisfiesPOW H b (DifTrg m)"
    using CalcNonce_loop_found [of H stop "NncLim (mnr_Conf m)" "DifTrg m" 0 "candidate H m" b] cn found by (auto simp: CalcNonce_def)
  let ?p = "NewMiningPool m"
  have txs: "Transactions b = cb_tx m ?p # map clear_liminal ?p" and hdr: "PrvBlkHsh (Hdr b) = PrvHsh m" "DiffTarg (Hdr b) = DifTrg m"
      "MrklRt (Hdr b) = the (CalcMrklRt H (cb_tx m ?p # ?p))"
    by (simp_all add: b candidate_def)
  obtain root where "CalcMrklRt H (cb_tx m ?p # ?p) = Some root" by (rule Block_New_Some [of "cb_tx m ?p # ?p"]) simp
  moreover have "CalcMrklRt H (Transactions b) = CalcMrklRt H (cb_tx m ?p # ?p)"
    using CalcMrklRt_clear [of H "cb_tx m ?p # ?p"] by (simp add: txs cb_tx_fields)
  ultimately have root: "CalcMrklRt H (Transactions b) = Some (MrklRt (Hdr b))" by (simp add: hdr)
  have fits: "100 + sum_list (map (\<lambda>t. unat (Transaction_Sz t)) ?p) < unat (BlkSz (mnr_Conf m))"
    using NewMiningPool_loop_sz [OF assms(7), of 100] assms(8) by (simp add: NewMiningPool_def word_less_nat_alt)
  then have "Block_Sz b \<le> mx"
    using candidate_Sz [OF fits, of H] assms(9) by (simp add: b Block_Sz_eq)
  moreover have "28 \<le> mx" using assms(8,9) by (simp add: word_le_nat_alt word_less_nat_alt)
  moreover have ok: "\<forall>t \<in> set (map clear_liminal ?p). ChkTx ec H mx bc (Some t) = Inr True" using assms(6) by simp
  moreover have "ChkChainsUTXO bc (map clear_liminal ?p) (PrvBlkHsh (Hdr b))"
    by (rule input_ok_ChkChains [OF assms(5)]) (use ok in \<open>auto simp: ChkTx_iff\<close>)
  ultimately have "ChkBlk ec H mx bc (Some b) = Inr True"
    using pow assms(10) by (simp add: ChkBlk_iff txs hdr cb_tx_fields)
  then show ?thesis using hdr(1) root txs m' by simp
qed

text \<open>
  C15: A miner mines valid blocks. Suppose a miner is ready, every transaction it chooses is
  accepted by \<open>ChkTx\<close> on a reachable chain, sizes do not wrap around, the miner's block limit is not above the
  node's, and the reward does not wrap to zero. Then every block it sends is accepted by \<open>ChkBlk\<close> on that chain,
  extends the hash the miner was told, carries the Merkle root of its transactions and a
  coinbase of the fees and the subsidy; and afterwards the miner works on top of the new block.
\<close>

theorem mined_block_valid:
  assumes "\<And>v. length (H v) = 32" "ready m" "Mine_attempt H stop m = Some (Inr (m', ev))" "SendBlkEv b \<in> set ev"
    and "chain_run H conf bs bc" "\<forall>t \<in> set (NewMiningPool m). ChkTx ec H mx bc (Some t) = Inr True"
    and "\<forall>n \<in> set (TxQ (TxP m)). unat (Transaction_Sz (hn_T n)) + unat (BlkSz (mnr_Conf m)) < 2 ^ 32"
    and "100 < BlkSz (mnr_Conf m)" "BlkSz (mnr_Conf m) \<le> mx"
    and "sum_list (map (\<lambda>t. SumInputs t - SumOutputs t) (NewMiningPool m)) + subsidy (mnr_Conf m) (ChnLen m) \<noteq> 0"
  shows "ChkBlk ec H mx bc (Some b) = Inr True \<and> PrvBlkHsh (Hdr b) = PrvHsh m
    \<and> CalcMrklRt H (Transactions b) = Some (MrklRt (Hdr b))
    \<and> Transactions b = cb_tx m (NewMiningPool m) # map clear_liminal (NewMiningPool m)
    \<and> PrvHsh m' = Block_Hash H b \<and> ChnLen m' = ChnLen m + 1"
  by (rule Mine_attempt_valid [OF assms])

lemma demo_ready: "ready demo_mnr"
  by (simp add: ready_def demo_pool) (simp add: demo_mnr_def mnr_DefaultConfig_def PriMet_def num_hash_def FmtAddr_def)

lemma demo_attempt:
  obtains m' ev b where "Mine_attempt length_digest (\<lambda>_. False) demo_mnr = Some (Inr (m', ev))" "SendBlkEv b \<in> set ev"
proof -
  have "\<exists>n < NncLim (mnr_Conf demo_mnr). SatisfiesPOW length_digest ((candidate length_digest demo_mnr)\<lparr>Hdr := (Hdr (candidate length_digest demo_mnr))\<lparr>Nonce := n\<rparr>\<rparr>) (DifTrg demo_mnr)
      \<and> (\<forall>j \<le> n. \<not> False)"
    by (intro exI [of _ 0]) (simp add: demo_target easy_target_POW)
  then have "fst (CalcNonce length_digest (\<lambda>_. False) demo_mnr (candidate length_digest demo_mnr))"
    unfolding CalcNonce_def using CalcNonce_loop_finds [of 0] by auto
  then obtain b where cn: "CalcNonce length_digest (\<lambda>_. False) demo_mnr (candidate length_digest demo_mnr) = (True, b)" by (metis (full_types) prod.collapse)
  then show thesis
    using Mine_attempt_ready [OF length_length_digest demo_ready, where stop = "\<lambda>_. False"] that by simp
qed

theorem mined_block_valid_witness:
  "\<exists>m' ev b. Mine_attempt length_digest (\<lambda>_. False) demo_mnr = Some (Inr (m', ev)) \<and> SendBlkEv b \<in> set ev
     \<and> ChkBlk echo_ecdsa length_digest 1000 demo_chain (Some b) = Inr True \<and> PrvBlkHsh (Hdr b) = num_hash 75"
proof -
  obtain m' ev b where at: "Mine_attempt length_digest (\<lambda>_. False) demo_mnr = Some (Inr (m', ev))" "SendBlkEv b \<in> set ev"
    by (rule demo_attempt)
  have "unat (subsidy (mnr_Conf demo_mnr) (ChnLen demo_mnr)) = 2"
    by (simp add: unat_subsidy) (simp add: demo_mnr_def mnr_DefaultConfig_def)
  then have "subsidy (mnr_Conf demo_mnr) (ChnLen demo_mnr) = 2" by (simp add: word_unat_eq_iff)
  then have "ChkBlk echo_ecdsa length_digest 1000 demo_chain (Some b) = Inr True \<and> PrvBlkHsh (Hdr b) = PrvHsh demo_mnr"
    using mined_block_valid [OF length_length_digest demo_ready at demo_chain_run, of echo_ecdsa 1000] demo_pay_ok [of 8 9]
    by (simp add: demo_pool demo_queue demo_pay_fields)
  with at show ?thesis by (auto simp: demo_mnr_def)
qed

end
