(* ===== verification/Wallet.thy ===== *)
theory Wallet
  imports Tx_Heap Validation
begin

text \<open>
  The package \<^verbatim>\<open>pkg/wallet\<close>: \<^verbatim>\<open>config.go\<close>, \<^verbatim>\<open>liminal_txs.go\<close> and \<^verbatim>\<open>wallet.go\<close>. The wallet
  builds transactions from requests, keeps them as liminal until a block deep enough confirms
  them, and sends them again when that takes too long.

  The chain is shared with the node: \<open>HndlTxReq\<close> takes it and returns it. The channel \<^verbatim>\<open>SendTx\<close> is
  never closed; handlers return the list of the transactions they send, in order. The draws of
  the signer are an argument, one per input. A transaction that is sent again is the Go object
  that was sent before, with its lock time raised in place; the model gives the new value to
  the queue and to the receiver.
\<close>

section \<open>config.go\<close>

record wt_Config =
  HasWt :: bool
  wc_TxRplyThresh :: u32
  SafeBlkAmt :: int
  TxVer :: u32
  wc_DefLckTm :: u32

definition wt_DefaultConfig :: wt_Config where
  "wt_DefaultConfig = \<lparr>HasWt = True, wc_TxRplyThresh = 3, SafeBlkAmt = 5, TxVer = 0, wc_DefLckTm = 0\<rparr>"

definition wt_NilConfig :: wt_Config where
  "wt_NilConfig = \<lparr>HasWt = False, wc_TxRplyThresh = 0, SafeBlkAmt = 0, TxVer = 0, wc_DefLckTm = 0\<rparr>"

section \<open>liminal\_txs.go\<close>

record LiminalTxs =
  lt_TxQ :: Heap
  TxRplyThresh :: u32

definition NewLmnlTxs :: "wt_Config \<Rightarrow> LiminalTxs" where
  "NewLmnlTxs c = \<lparr>lt_TxQ = NewTxHeap, TxRplyThresh = wc_TxRplyThresh c\<rparr>"

text \<open>The result: the transactions that are too old, and those that were in the block.\<close>

definition LiminalTxs_ChkTxs ::
    "(byte list \<Rightarrow> byte list) \<Rightarrow> Transaction option list \<Rightarrow> LiminalTxs \<Rightarrow> Transaction list \<times> Transaction list \<times> LiminalTxs" where
  "LiminalTxs_ChkTxs H txs l =
     (case Rmv H (lt_TxQ l) txs of (duplicates, q) \<Rightarrow>
        let q = IncAll q
        in case RemAbv H q (TxRplyThresh l) of (removedTxs, q) \<Rightarrow> (removedTxs, duplicates, l\<lparr>lt_TxQ := q\<rparr>))"

definition LiminalTxs_Add :: "Transaction option \<Rightarrow> LiminalTxs \<Rightarrow> LiminalTxs" where
  "LiminalTxs_Add t l = l\<lparr>lt_TxQ := Heap_Add 0 t (lt_TxQ l)\<rparr>"

section \<open>wallet.go\<close>

record TxReq =
  PubK :: "byte list"
  req_Amt :: u32
  Fee :: u32

record ('pk, 'sk) Wallet =
  wt_Conf :: wt_Config
  wt_Id :: "('pk, 'sk) SimpleID"
  LmnlTxs :: LiminalTxs
  wt_Addr :: string

definition Wallet_SetAddr :: "string \<Rightarrow> ('pk, 'sk) Wallet \<Rightarrow> ('pk, 'sk) Wallet" where
  "Wallet_SetAddr a w = w\<lparr>wt_Addr := a\<rparr>"

definition Wallet_New :: "wt_Config \<Rightarrow> ('pk, 'sk) SimpleID \<Rightarrow> ('pk, 'sk) Wallet option" where
  "Wallet_New c i =
     (if \<not> HasWt c then None else Some \<lparr>wt_Conf = c, wt_Id = i, LmnlTxs = NewLmnlTxs c, wt_Addr = []\<rparr>)"

fun HndlBlk_resend :: "Transaction list \<Rightarrow> LiminalTxs \<Rightarrow> Transaction list \<Rightarrow> LiminalTxs \<times> Transaction list" where
  "HndlBlk_resend [] l sent = (l, sent)"
| "HndlBlk_resend (t # ts) l sent =
     (let t = t\<lparr>tx_LockTime := tx_LockTime t + 1\<rparr>
      in HndlBlk_resend ts (LiminalTxs_Add (Some t) l) (sent @ [t]))"

definition Wallet_HndlBlk ::
    "(byte list \<Rightarrow> byte list) \<Rightarrow> Block option \<Rightarrow> ('pk, 'sk) Wallet \<Rightarrow> ('pk, 'sk) Wallet \<times> Transaction list" where
  "Wallet_HndlBlk H b w =
     (case b of
        None \<Rightarrow> (w, [])
      | Some b \<Rightarrow>
          (case LiminalTxs_ChkTxs H (map Some (Transactions b)) (LmnlTxs w) of (txsTobeResent, _, l) \<Rightarrow>
             case HndlBlk_resend txsTobeResent l [] of (l, sent) \<Rightarrow> (w\<lparr>LmnlTxs := l\<rparr>, sent)))"

definition HndlTxReq_input ::
    "('pk, 'sk) ecdsa \<Rightarrow> (byte list \<Rightarrow> byte list) \<Rightarrow> ('pk, 'sk) SimpleID \<Rightarrow> nat \<times> UTXOInfo \<Rightarrow> proto_TransactionInput go" where
  "HndlTxReq_input ec H i = (\<lambda>(r, ut).
     go_bind (MkSig ec H r (info_UTXO ut) i) (\<lambda>sign. Inr (NewTxInpt (TxHsh ut) (OutIdx ut) sign (Amt ut))))"

definition HndlTxReq ::
    "('pk, 'sk) ecdsa \<Rightarrow> (byte list \<Rightarrow> byte list) \<Rightarrow> string list \<Rightarrow> (nat \<Rightarrow> nat) \<Rightarrow> TxReq \<Rightarrow> ('pk, 'sk) Wallet \<Rightarrow> Blockchain
     \<Rightarrow> (('pk, 'sk) Wallet \<times> Blockchain \<times> Transaction list) go" where
  "HndlTxReq ec H ks draw txR w bc =
     (if req_Amt txR \<le> 0 then Inr (w, bc, [])
      else
        let myPubKey = hex_EncodeToString (GetPublicKeyBytes (wt_Id w))
        in go_bind (GetUTXOForAmt ks (req_Amt txR + Fee txR) myPubKey bc) (\<lambda>(bc, utxo, change, engh).
             if \<not> engh then Inr (w, bc, [])
             else go_bind (go_map (HndlTxReq_input ec H (wt_Id w)) (map (\<lambda>(j, ut). (draw j, ut)) (enumerate 0 utxo))) (\<lambda>inpts.
               let outpts = [NewTxOutpt (req_Amt txR) (hex_EncodeToString (PubK txR))];
                   outpts = (if change > 0 then outpts @ [NewTxOutpt change (hex_EncodeToString (GetPublicKeyBytes (wt_Id w)))] else outpts);
                   newTx = Transaction_Deserialize (NewTx (TxVer (wt_Conf w)) inpts outpts (wc_DefLckTm (wt_Conf w)))
               in Inr (w\<lparr>LmnlTxs := LiminalTxs_Add (Some newTx) (LmnlTxs w)\<rparr>, bc, [newTx]))))"

section \<open>Liminal transactions\<close>

lemma resend_eq:
  "HndlBlk_resend ts l sent =
     (foldl (\<lambda>l t. LiminalTxs_Add (Some (t\<lparr>tx_LockTime := tx_LockTime t + 1\<rparr>)) l) l ts,
      sent @ map (\<lambda>t. t\<lparr>tx_LockTime := tx_LockTime t + 1\<rparr>) ts)"
  by (induction ts l sent rule: HndlBlk_resend.induct) (simp_all add: Let_def)

lemma resend_mset:
  "mset (lt_TxQ (foldl (\<lambda>l t. LiminalTxs_Add (Some (f t)) l) l ts)) = image_mset (\<lambda>t. \<lparr>hn_P = 0, hn_T = f t\<rparr>) (mset ts) + mset (lt_TxQ l)"
  by (induction ts arbitrary: l) (simp_all add: LiminalTxs_Add_def)

lemma resend_thresh [simp]: "TxRplyThresh (foldl (\<lambda>l t. LiminalTxs_Add (Some (f t)) l) l ts) = TxRplyThresh l"
  by (induction ts arbitrary: l) (simp_all add: LiminalTxs_Add_def)

lemma resend_heap: "pri_heap (lt_TxQ l) \<Longrightarrow> pri_heap (lt_TxQ (foldl (\<lambda>l t. LiminalTxs_Add (Some (f t)) l) l ts))"
  by (induction ts arbitrary: l) (simp_all add: LiminalTxs_Add_def Heap_Add_heap)

text \<open>
  C37: Liminal transactions are confirmed, aged or sent again. Let the liminal transactions have distinct
  hashes. Handling a block takes out those the block contains and ages the others by one; those that
  then reach the threshold are sent again with their lock time raised by one and queued anew at age 0, and
  all others stay in the queue. The queue stays a heap.
\<close>

theorem Wallet_HndlBlk_resends:
  assumes "distinct (map (node_hash H) (lt_TxQ (LmnlTxs w)))" "Wallet_HndlBlk H (Some b) w = (w', sent)"
  defines "again \<equiv> \<lambda>t. t\<lparr>tx_LockTime := tx_LockTime t + 1\<rparr>"
  shows "\<exists>left. mset left \<subseteq># mset (lt_TxQ (LmnlTxs w))
    \<and> mset (map (node_hash H) left) = mset (map (node_hash H) (lt_TxQ (LmnlTxs w))) - mset (map (Transaction_Hash H) (Transactions b))
    \<and> mset sent = mset (map (again \<circ> hn_T) (filter (\<lambda>n. hn_P n + 1 \<ge> TxRplyThresh (LmnlTxs w)) left))
    \<and> mset (lt_TxQ (LmnlTxs w')) = mset (map (\<lambda>t. \<lparr>hn_P = 0, hn_T = t\<rparr>) sent)
        + mset (map (\<lambda>n. n\<lparr>hn_P := hn_P n + 1\<rparr>) (filter (\<lambda>n. hn_P n + 1 < TxRplyThresh (LmnlTxs w)) left))
    \<and> pri_heap (lt_TxQ (LmnlTxs w'))"
proof -
  let ?k = "TxRplyThresh (LmnlTxs w)"
  obtain dups left where rm: "Rmv H (lt_TxQ (LmnlTxs w)) (map Some (Transactions b)) = (dups, left)" by fastforce
  obtain old q where ra: "RemAbv H (IncAll left) ?k = (old, q)" by fastforce
  have w': "w' = w\<lparr>LmnlTxs := foldl (\<lambda>l t. LiminalTxs_Add (Some (again t)) l) ((LmnlTxs w)\<lparr>lt_TxQ := q\<rparr>) old\<rparr>"
      and sent: "sent = map again old"
    using assms(2) by (auto simp: Wallet_HndlBlk_def LiminalTxs_ChkTxs_def rm ra resend_eq again_def)
  have sub: "mset left \<subseteq># mset (lt_TxQ (LmnlTxs w))" by (rule hq.rmv_sub [OF rm])
  have "mset (map (node_hash H) left) \<subseteq># mset (map (node_hash H) (lt_TxQ (LmnlTxs w)))"
    using image_mset_subseteq_mono [OF sub] by simp
  then have cnt: "count (image_mset (node_hash H) (mset (IncAll left))) x \<le> 1" for x
    using distinct_map_count [OF assms(1), of x] mset_subset_eq_count [of _ _ x]
    by (simp add: IncAll_def image_mset.compositionality comp_def) (meson order_trans)
  have old: "mset old = image_mset hn_T (filter_mset (\<lambda>n. hn_P n \<ge> ?k) (mset (IncAll left)))" by (rule ha.rem_result [OF ra])
  have q: "mset q = filter_mset (\<lambda>n. hn_P n < ?k) (mset (IncAll left))" by (rule ha.rem_nodes [OF ra cnt])
  have "mset (lt_TxQ (LmnlTxs w')) = mset (map (\<lambda>t. \<lparr>hn_P = 0, hn_T = t\<rparr>) sent) + mset q"
    by (simp add: w' resend_mset sent image_mset.compositionality comp_def)
  moreover have "mset q = mset (map (\<lambda>n. n\<lparr>hn_P := hn_P n + 1\<rparr>) (filter (\<lambda>n. hn_P n + 1 < ?k) left))"
    by (simp add: q IncAll_def filter_mset_image_mset)
  moreover have "mset sent = mset (map (again \<circ> hn_T) (filter (\<lambda>n. hn_P n + 1 \<ge> ?k) left))"
    by (simp add: sent old IncAll_def filter_mset_image_mset image_mset.compositionality comp_def)
  moreover have "pri_heap (lt_TxQ (LmnlTxs w'))"
    using resend_heap [of "(LmnlTxs w)\<lparr>lt_TxQ := q\<rparr>" again old] ha.rem_ok [OF ra] by (simp add: w')
  ultimately show ?thesis using sub hq.rmv_hashes [OF rm] by (intro exI [of _ left]) simp
qed

text \<open>A wallet with one liminal transaction, for witnesses.\<close>

definition demo_wallet :: "u32 \<Rightarrow> (byte, byte) Wallet" where
  "demo_wallet age = \<lparr>wt_Conf = wt_DefaultConfig, wt_Id = the (CreateSimpleID echo_ecdsa 0xaa),
     LmnlTxs = \<lparr>lt_TxQ = [\<lparr>hn_P = age, hn_T = demo_tx 1\<rparr>], TxRplyThresh = 3\<rparr>, wt_Addr = []\<rparr>"

theorem Wallet_HndlBlk_resends_witness:
  "mset (snd (Wallet_HndlBlk length_digest (Some (demo_next (gen_block demo_conf) 10 10 ''aa'' 5)) (demo_wallet 2))) = {#demo_tx 2#}"
proof -
  let ?b = "demo_next (gen_block demo_conf) 10 10 ''aa'' 5"
  have h: "Transaction_Hash length_digest (demo_tx 1) \<noteq> Transaction_Hash length_digest (demo_cb 10 10 ''aa'' 5)"
    by (simp add: Transaction_Hash_def utils_Hash_inj Transaction_data_def demo_tx_def demo_cb_def length_digest_def
        TransactionOutput_Hash_def utils_Hash_def hex_Encode_inj eval_simps)
  obtain w' sent where ws: "Wallet_HndlBlk length_digest (Some ?b) (demo_wallet 2) = (w', sent)" by fastforce
  from Wallet_HndlBlk_resends [OF _ this] obtain left where
      left: "mset left \<subseteq># mset (lt_TxQ (LmnlTxs (demo_wallet 2)))"
      "mset (map (node_hash length_digest) left) = mset (map (node_hash length_digest) (lt_TxQ (LmnlTxs (demo_wallet 2)))) - mset (map (Transaction_Hash length_digest) (Transactions ?b))"
      "mset sent = mset (map ((\<lambda>t. t\<lparr>tx_LockTime := tx_LockTime t + 1\<rparr>) \<circ> hn_T) (filter (\<lambda>n. hn_P n + 1 \<ge> TxRplyThresh (LmnlTxs (demo_wallet 2))) left))"
    by (auto simp: demo_wallet_def)
  have "size (mset left) = 1" using arg_cong [OF left(2), of size] h by (simp add: demo_wallet_def demo_next_def)
  then have "left = [\<lparr>hn_P = 2, hn_T = demo_tx 1\<rparr>]"
    using left(1) by (cases left) (auto simp: demo_wallet_def)
  then show ?thesis using left(3) by (simp add: ws) (simp add: demo_wallet_def demo_tx_def)
qed

section \<open>Payments\<close>

text \<open>What a wallet relies on of its signer: it returns a signature, and not an empty one.\<close>

definition signs_always :: "('pk, 'sk) ecdsa \<Rightarrow> bool" where
  "signs_always ec \<longleftrightarrow> (\<forall>r sk h. \<exists>sig. SignASN1 ec r sk h = Some sig \<and> sig \<noteq> [])"

lemma IsUnlckd_liminal [simp]: "IsUnlckd ec H (u\<lparr>txo_Liminal := l\<rparr>) sig = IsUnlckd ec H u sig"
  by (simp only: IsUnlckd_def TransactionOutput_Hash_liminal) simp

lemma MkSig_total:
  assumes "key_codec ec" "signs_verify ec" "signs_always ec" "CreateSimpleID ec r0 = Some i"
    and "txo_LockingScript u = hex_EncodeToString (GetPublicKeyBytes i)"
  shows "\<exists>sig. MkSig ec H r u i = Inr sig \<and> IsUnlckd ec H u sig = Inr True"
proof -
  obtain sk where sk: "GetPrivateKey i = Some sk" using CreateSimpleID_keys(3) [OF assms(1,4)] by blast
  obtain sigB where "SignASN1 ec r sk (H (bytes_of_string (TransactionOutput_data u))) = Some sigB" "sigB \<noteq> []"
    using assms(3) unfolding signs_always_def by blast
  then have "MkSig ec H r u i = Inr (hex_EncodeToString sigB)" "hex_EncodeToString sigB \<noteq> []"
    using sk by (auto simp: MkSig_def TransactionOutput_Hash_def utils_Sign_def) (metis length_0_conv length_hex_Encode mult_is_0 zero_neq_numeral)
  with MkSig_verifies [OF assms(1,2,4,5)] show ?thesis by blast
qed

lemma pay_inputs:
  assumes "key_codec ec" "signs_verify ec" "signs_always ec" "CreateSimpleID ec r0 = Some i"
    and "\<And>ut. ut \<in> set uts \<Longrightarrow> txo_LockingScript (info_UTXO ut) = hex_EncodeToString (GetPublicKeyBytes i)"
  shows "\<exists>inpts. go_map (HndlTxReq_input ec H i) (map (\<lambda>(j, ut). (draw j, ut)) (enumerate k uts)) = Inr inpts
    \<and> list_all2 (\<lambda>p ut. pti_TransactionHash p = TxHsh ut \<and> pti_OutputIndex p = OutIdx ut \<and> pti_Amount p = Amt ut
        \<and> IsUnlckd ec H (info_UTXO ut) (pti_UnlockingScript p) = Inr True) inpts uts"
  using assms(5)
proof (induction uts arbitrary: k)
  case (Cons ut uts)
  from Cons.IH [of "Suc k"] Cons.prems obtain inpts where IH:
      "go_map (HndlTxReq_input ec H i) (map (\<lambda>(j, ut). (draw j, ut)) (enumerate (Suc k) uts)) = Inr inpts"
      "list_all2 (\<lambda>p ut. pti_TransactionHash p = TxHsh ut \<and> pti_OutputIndex p = OutIdx ut \<and> pti_Amount p = Amt ut
        \<and> IsUnlckd ec H (info_UTXO ut) (pti_UnlockingScript p) = Inr True) inpts uts" by auto
  obtain sig where "MkSig ec H (draw k) (info_UTXO ut) i = Inr sig" "IsUnlckd ec H (info_UTXO ut) sig = Inr True"
    using MkSig_total [OF assms(1-4)] Cons.prems by fastforce
  with IH show ?case by (auto simp: HndlTxReq_input_def NewTxInpt_def)
qed simp

lemma info_for_fields:
  assumes "avail m pk k" "MkTXOLoc (TxHsh (info_for m k)) (OutIdx (info_for m k)) = k" "PrsTXOLoc k = Inr hi"
  shows "\<exists>v. gget m k = Some v \<and> info_UTXO (info_for m k) = v\<lparr>txo_Liminal := True\<rparr> \<and> Amt (info_for m k) = txo_Amount v \<and> txo_LockingScript v = pk"
  using assms by (auto simp: avail_def info_for_def worth_def split: option.splits prod.splits)

lemma pay_sums:
  fixes amt change v lt :: u32 and pk me :: string
  assumes "list_all2 (\<lambda>p ut. pti_TransactionHash p = TxHsh ut \<and> pti_OutputIndex p = OutIdx ut \<and> pti_Amount p = Amt ut
        \<and> IsUnlckd ec H (info_UTXO ut) (pti_UnlockingScript p) = Inr True) inpts infos"
    and "sum_list (map (unat \<circ> Amt) infos) = unat tot + unat change" "unat tot + unat change < 2 ^ 32"
    and "unat tot = unat amt + unat fee"
  defines "t \<equiv> Transaction_Deserialize (NewTx v inpts
      (if change > 0 then [NewTxOutpt amt pk] @ [NewTxOutpt change me] else [NewTxOutpt amt pk]) lt)"
  shows "unat (SumInputs t) = unat amt + unat fee + unat change \<and> unat (SumOutputs t) = unat amt + unat change"
proof
  have "map pti_Amount inpts = map Amt infos" using assms(1) by (induction rule: list_all2_induct) simp_all
  then have "SumInputs t = sum_list (map Amt infos)"
    by (simp add: t_def SumInputs_sum Transaction_Deserialize_maps NewTx_def TransactionInput_Deserialize_def comp_def)
  then show "unat (SumInputs t) = unat amt + unat fee + unat change"
    using unat_sum_list_exact [of "map Amt infos"] assms(2-4) by simp
  have "SumOutputs t = amt + change" if "change > 0"
    using that by (simp add: t_def SumOutputs_sum Transaction_Deserialize_maps NewTx_def NewTxOutpt_def TransactionOutput_Deserialize_def)
  moreover have "SumOutputs t = amt" if "\<not> change > 0"
    using that by (simp add: t_def SumOutputs_sum Transaction_Deserialize_maps NewTx_def NewTxOutpt_def TransactionOutput_Deserialize_def)
  moreover have "unat (amt + change) = unat amt + unat change" using assms(3,4) by (simp add: unat_word_ariths)
  ultimately show "unat (SumOutputs t) = unat amt + unat change" by (cases "change > 0") (simp_all add: word_less_nat_alt)
qed

lemma run_locs_parse:
  assumes "chain_run H conf bs bc" "avail (last_utxo bc) pk k"
  shows "\<exists>hi. PrsTXOLoc k = Inr hi"
proof -
  have "k \<in> set (gkeys (last_utxo bc))" using assms(2) by (auto simp: avail_def in_gkeys_iff split: option.splits)
  then obtain t i where "k = MkTXOLoc (Transaction_Hash H t) i"
    using chain_inv_last(5) [OF run_inv [OF assms(1)]] by (auto simp: utxo_keys_ok_def)
  then show ?thesis by (simp add: PrsTXOLoc_MkTXOLoc minus_not_hash)
qed

lemma avail_sum_le:
  assumes "distinct locs" "\<forall>k \<in> set locs. avail m pk k" "gm_ok m"
  shows "sum_list (map (\<lambda>k. unat (worth m k)) locs) \<le> avail_value m pk"
proof -
  have "set locs \<subseteq> set (filter (avail m pk) (gkeys m))"
    using assms(2) by (auto simp: avail_def in_gkeys_iff split: option.splits)
  then have "(\<Sum>k \<in> set locs. unat (worth m k)) \<le> (\<Sum>k \<in> set (filter (avail m pk) (gkeys m)). unat (worth m k))"
    by (intro sum_mono2) auto
  moreover have "distinct (filter (avail m pk) (gkeys m))" using assms(3) by (simp add: gm_ok_def)
  ultimately show ?thesis using assms(1) by (simp add: avail_value_def sum_list_distinct_conv_sum_set)
qed

text \<open>What the chain hands out for a payment, in terms of the entries of its map.\<close>

definition entry_of :: "utxo_map \<Rightarrow> string \<Rightarrow> string set \<Rightarrow> UTXOInfo \<Rightarrow> bool" where
  "entry_of m pk K ut \<longleftrightarrow> (\<exists>v. MkTXOLoc (TxHsh ut) (OutIdx ut) \<in> K \<and> gget m (MkTXOLoc (TxHsh ut) (OutIdx ut)) = Some v
     \<and> info_UTXO ut = v\<lparr>txo_Liminal := True\<rparr> \<and> Amt ut = txo_Amount v \<and> txo_LockingScript v = pk)"

lemma pay_funds:
  assumes run: "chain_run H conf bs bc" and ord: "range_order (last_utxo bc) ks"
    and lim: "avail_value (last_utxo bc) pk < 2 ^ 32" "unat tot \<le> avail_value (last_utxo bc) pk"
  shows "\<exists>bc' infos change K. GetUTXOForAmt ks tot pk bc = Inr (bc', infos, change, True)
    \<and> (\<forall>ut \<in> set infos. entry_of (last_utxo bc) pk K ut) \<and> gget (last_utxo bc') = marked K (last_utxo bc)
    \<and> sum_list (map (unat \<circ> Amt) infos) = unat tot + unat change \<and> unat tot + unat change < 2 ^ 32"
proof -
  let ?m = "last_utxo bc"
  obtain bc' infos change ok where "GetUTXOForAmt ks tot pk bc = Inr (bc', infos, change, ok)" "ok"
    and ex: "\<exists>locs. distinct locs \<and> infos = map (info_for ?m) locs
      \<and> (\<forall>k \<in> set locs. avail ?m pk k \<and> MkTXOLoc (TxHsh (info_for ?m k)) (OutIdx (info_for ?m k)) = k)
      \<and> sum_list (map (unat \<circ> Amt) infos) = unat tot + unat change \<and> gget (last_utxo bc') = marked (set locs) ?m"
    using GetUTXOForAmt_spec [OF run ord lim(1), of tot] lim(2) by blast
  then have g: "GetUTXOForAmt ks tot pk bc = Inr (bc', infos, change, True)" by simp
  from ex obtain locs where locs: "distinct locs" "infos = map (info_for ?m) locs"
      "\<forall>k \<in> set locs. avail ?m pk k \<and> MkTXOLoc (TxHsh (info_for ?m k)) (OutIdx (info_for ?m k)) = k"
    and sum: "sum_list (map (unat \<circ> Amt) infos) = unat tot + unat change" and mk: "gget (last_utxo bc') = marked (set locs) ?m"
    by blast
  have fields: "\<exists>v. gget ?m k = Some v \<and> info_UTXO (info_for ?m k) = v\<lparr>txo_Liminal := True\<rparr> \<and> Amt (info_for ?m k) = txo_Amount v
      \<and> txo_LockingScript v = pk" if "k \<in> set locs" for k
    using info_for_fields run_locs_parse [OF run] locs(3) that by blast
  have "entry_of ?m pk (set locs) ut" if "ut \<in> set infos" for ut
    using that locs(2,3) fields by (auto simp: entry_of_def)
  moreover have "map (unat \<circ> Amt) infos = map (\<lambda>k. unat (worth ?m k)) locs"
    using fields by (fastforce simp: locs(2) worth_def)
  then have "sum_list (map (unat \<circ> Amt) infos) \<le> avail_value ?m pk"
    using avail_sum_le [OF locs(1) _ chain_inv_last(4) [OF run_inv [OF run]]] locs(3) by simp
  ultimately show ?thesis using g sum mk lim(1) by (intro exI [of _ bc'] exI [of _ infos] exI [of _ change] exI [of _ "set locs"]) auto
qed

lemma paid_input_ok:
  assumes "list_all2 (\<lambda>p ut. pti_TransactionHash p = TxHsh ut \<and> pti_OutputIndex p = OutIdx ut \<and> pti_Amount p = Amt ut
        \<and> IsUnlckd ec H (info_UTXO ut) (pti_UnlockingScript p) = Inr True) inpts infos"
    and "\<forall>ut \<in> set infos. entry_of (last_utxo bc) pk K ut" "gget (last_utxo bc') = marked K (last_utxo bc)" "p \<in> set inpts"
  shows "input_ok ec H bc' (TransactionInput_Deserialize p)"
proof -
  obtain ut where ut: "ut \<in> set infos" "pti_TransactionHash p = TxHsh ut" "pti_OutputIndex p = OutIdx ut"
      "IsUnlckd ec H (info_UTXO ut) (pti_UnlockingScript p) = Inr True"
    using assms(1,4) by (induction rule: list_all2_induct) auto
  from ut(1) assms(2) obtain v where "MkTXOLoc (TxHsh ut) (OutIdx ut) \<in> K" "gget (last_utxo bc) (MkTXOLoc (TxHsh ut) (OutIdx ut)) = Some v"
      "info_UTXO ut = v\<lparr>txo_Liminal := True\<rparr>" by (auto simp: entry_of_def)
  then show ?thesis using ut assms(3) by (simp add: input_ok_def GetUTXO_def TransactionInput_Deserialize_def marked_def)
qed

lemma HndlTxReq_spec:
  assumes "key_codec ec" "signs_verify ec" "signs_always ec" "CreateSimpleID ec r0 = Some (wt_Id w)"
    and run: "chain_run H conf bs bc" and ord: "range_order (last_utxo bc) ks"
    and lim: "avail_value (last_utxo bc) (hex_EncodeToString (GetPublicKeyBytes (wt_Id w))) < 2 ^ 32"
    and enough: "unat (req_Amt txR) + unat (Fee txR) \<le> avail_value (last_utxo bc) (hex_EncodeToString (GetPublicKeyBytes (wt_Id w)))"
    and pos: "req_Amt txR \<noteq> 0"
  shows "\<exists>w' bc' t. HndlTxReq ec H ks draw txR w bc = Inr (w', bc', [t])
    \<and> hd (tx_Outputs t) = \<lparr>txo_Amount = req_Amt txR, txo_LockingScript = hex_EncodeToString (PubK txR), txo_Liminal = False\<rparr>
    \<and> unat (SumInputs t) = unat (SumOutputs t) + unat (Fee txR)
    \<and> mset (lt_TxQ (LmnlTxs w')) = add_mset \<lparr>hn_P = 0, hn_T = t\<rparr> (mset (lt_TxQ (LmnlTxs w)))
    \<and> (Transaction_Sz t \<le> mx \<longrightarrow> ChkTx ec H mx bc' (Some t) = Inr True)"
proof -
  let ?pk = "hex_EncodeToString (GetPublicKeyBytes (wt_Id w))" and ?tot = "req_Amt txR + Fee txR"
  have tot: "unat ?tot = unat (req_Amt txR) + unat (Fee txR)" using lim enough by (simp add: unat_word_ariths)
  obtain bc' infos change K where g: "GetUTXOForAmt ks ?tot ?pk bc = Inr (bc', infos, change, True)"
    and ent: "\<forall>ut \<in> set infos. entry_of (last_utxo bc) ?pk K ut" and mk: "gget (last_utxo bc') = marked K (last_utxo bc)"
    and sum: "sum_list (map (unat \<circ> Amt) infos) = unat ?tot + unat change" "unat ?tot + unat change < 2 ^ 32"
    using pay_funds [OF run ord lim, of ?tot] enough tot by auto
  have "txo_LockingScript (info_UTXO ut) = ?pk" if "ut \<in> set infos" for ut using ent that by (auto simp: entry_of_def)
  from pay_inputs [OF assms(1-4) this, of infos H draw 0] obtain inpts where
      gm: "go_map (HndlTxReq_input ec H (wt_Id w)) (map (\<lambda>(j, ut). (draw j, ut)) (enumerate 0 infos)) = Inr inpts"
      and la: "list_all2 (\<lambda>p ut. pti_TransactionHash p = TxHsh ut \<and> pti_OutputIndex p = OutIdx ut \<and> pti_Amount p = Amt ut
        \<and> IsUnlckd ec H (info_UTXO ut) (pti_UnlockingScript p) = Inr True) inpts infos" by auto
  define t where "t = Transaction_Deserialize (NewTx (TxVer (wt_Conf w)) inpts (if change > 0 then [NewTxOutpt (req_Amt txR) (hex_EncodeToString (PubK txR))]
      @ [NewTxOutpt change ?pk] else [NewTxOutpt (req_Amt txR) (hex_EncodeToString (PubK txR))]) (wc_DefLckTm (wt_Conf w)))"
  have res: "HndlTxReq ec H ks draw txR w bc = Inr (w\<lparr>LmnlTxs := LiminalTxs_Add (Some t) (LmnlTxs w)\<rparr>, bc', [t])"
    using pos g gm by (simp add: HndlTxReq_def Let_def t_def)
  have sums: "unat (SumInputs t) = unat (req_Amt txR) + unat (Fee txR) + unat change" "unat (SumOutputs t) = unat (req_Amt txR) + unat change"
    using pay_sums [OF la sum tot] by (simp_all add: t_def)
  have "tx_Inputs t = map TransactionInput_Deserialize inpts" by (simp add: t_def Transaction_Deserialize_maps NewTx_def)
  then have io: "\<forall>i \<in> set (tx_Inputs t). input_ok ec H bc' i" using paid_input_ok [OF la ent mk] by auto
  have "SumOutputs t \<noteq> 0" using sums(2) pos by (auto simp: unat_eq_0)
  moreover have "SumOutputs t \<le> SumInputs t" using sums by (simp add: word_le_nat_alt)
  ultimately have "Transaction_Sz t \<le> mx \<longrightarrow> ChkTx ec H mx bc' (Some t) = Inr True" using io by (simp add: ChkTx_iff)
  moreover have "hd (tx_Outputs t) = \<lparr>txo_Amount = req_Amt txR, txo_LockingScript = hex_EncodeToString (PubK txR), txo_Liminal = False\<rparr>"
    by (simp add: t_def Transaction_Deserialize_maps NewTx_def NewTxOutpt_def TransactionOutput_Deserialize_def)
  ultimately show ?thesis using res sums by (simp add: LiminalTxs_Add_def)
qed

text \<open>
  C14: A payment the wallet makes is valid. Let the wallet hold a generated identity whose signer works, and let
  the outputs available to it on a reachable chain cover amount and fee, without exceeding 32 bits. Then, whatever
  order the chain's map is iterated in, handling a request for a positive amount returns and sends
  exactly one transaction. Its first output pays the amount to the payee, its inputs exceed its
  outputs by exactly the fee, it is queued as liminal at age 0, and \<open>ChkTx\<close> accepts it on the chain the
  request left behind, if it is not larger than a block may be.
\<close>

theorem HndlTxReq_pays:
  assumes "key_codec ec" "signs_verify ec" "signs_always ec" "CreateSimpleID ec r0 = Some (wt_Id w)"
    and run: "chain_run H conf bs bc" and ord: "range_order (last_utxo bc) ks"
    and lim: "avail_value (last_utxo bc) (hex_EncodeToString (GetPublicKeyBytes (wt_Id w))) < 2 ^ 32"
    and enough: "unat (req_Amt txR) + unat (Fee txR) \<le> avail_value (last_utxo bc) (hex_EncodeToString (GetPublicKeyBytes (wt_Id w)))"
    and pos: "req_Amt txR \<noteq> 0"
  shows "\<exists>w' bc' t. HndlTxReq ec H ks draw txR w bc = Inr (w', bc', [t])
    \<and> hd (tx_Outputs t) = \<lparr>txo_Amount = req_Amt txR, txo_LockingScript = hex_EncodeToString (PubK txR), txo_Liminal = False\<rparr>
    \<and> unat (SumInputs t) = unat (SumOutputs t) + unat (Fee txR)
    \<and> mset (lt_TxQ (LmnlTxs w')) = add_mset \<lparr>hn_P = 0, hn_T = t\<rparr> (mset (lt_TxQ (LmnlTxs w)))
    \<and> (Transaction_Sz t \<le> mx \<longrightarrow> ChkTx ec H mx bc' (Some t) = Inr True)"
  by (rule HndlTxReq_spec [OF assms])

lemma echo_signs_always: "signs_always echo_ecdsa"
  by (simp add: signs_always_def echo_ecdsa_def)

lemma demo_wallet_key: "hex_EncodeToString (GetPublicKeyBytes (wt_Id (demo_wallet age))) = ''aa''" "CreateSimpleID echo_ecdsa 0xaa = Some (wt_Id (demo_wallet age))"
  by (simp_all add: demo_wallet_def echo_ecdsa_def CreateSimpleID_def PrivateKeyToBytes_def PublicKeyToBytes_def GetPublicKeyBytes_def
      hex_EncodeToString_def hex_char_def char_of_def bit_0)

theorem HndlTxReq_pays_witness:
  "\<exists>w' bc' t. HndlTxReq echo_ecdsa length_digest (gkeys (last_utxo demo_chain)) (\<lambda>j. j) \<lparr>PubK = [1], req_Amt = 6, Fee = 2\<rparr> (demo_wallet 0) demo_chain
     = Inr (w', bc', [t]) \<and> unat (SumInputs t) = unat (SumOutputs t) + 2"
proof -
  have v: "avail_value (last_utxo demo_chain) ''aa'' = 9"
    by (simp add: avail_value_def demo_chain_eq demo_nodes gkeys_def avail_def worth_def)
  show ?thesis
    using HndlTxReq_pays [OF echo_ecdsa_ok echo_signs_always demo_wallet_key(2) [of 0] demo_chain_run range_order_refl,
        where txR = "\<lparr>PubK = [1], req_Amt = 6, Fee = 2\<rparr>"]
    by (fastforce simp: demo_wallet_key v)
qed

end
