(* ===== verification/Peer_Db.thy ===== *)
theory Peer_Db
  imports Proto Utils
begin

text \<open>
  The packages \<^verbatim>\<open>pkg/address\<close>, \<^verbatim>\<open>pkg/address/addressdb\<close> and \<^verbatim>\<open>pkg/peer\<close>: addresses, and the two
  in-memory databases of the addresses and the peers a node knows.

  Addresses are Go objects that both databases share and that are changed in place: a peer holds
  the very address of the address database. They live in a store \<open>addr_mem\<close>, and databases and peers
  hold references into it. The zero \<^verbatim>\<open>time.Time\<close> of \<open>SentVer\<close> is \<open>None\<close>. Ranges over a map take the
  iteration order as an argument.
\<close>

section \<open>address.go\<close>

record Address =
  addr_Addr :: string
  LastSeen :: u32
  SentVer :: "int option"

type_synonym addr_mem = "Address list"

definition Address_New :: "string \<Rightarrow> u32 \<Rightarrow> Address" where
  "Address_New addr lastSeen = \<lparr>addr_Addr = addr, LastSeen = lastSeen, SentVer = None\<rparr>"

definition Address_Serialize :: "Address \<Rightarrow> proto_Address" where
  "Address_Serialize a = \<lparr>pa_Addr = addr_Addr a, pa_LastSeen = LastSeen a\<rparr>"

text \<open>
  \<^verbatim>\<open>client.go\<close>: a remote call connects first. When that fails it returns an error at once; otherwise the call
  is made, and a version call then stamps the address, whatever the outcome.
\<close>

datatype rpc_outcome = NoConnection | RpcError | RpcReply

definition Address_VersionRPC :: "rpc_outcome \<Rightarrow> int \<Rightarrow> nat \<Rightarrow> addr_mem \<Rightarrow> addr_mem \<times> bool" where
  "Address_VersionRPC out now r mem =
     (case out of
        NoConnection \<Rightarrow> (mem, True)
      | RpcError \<Rightarrow> (mem[r := (mem ! r)\<lparr>SentVer := Some now\<rparr>], True)
      | RpcReply \<Rightarrow> (mem[r := (mem ! r)\<lparr>SentVer := Some now\<rparr>], False))"

text \<open>The other calls change nothing; without a reply they return nil and an error.\<close>

definition GetBlocksRPC :: "rpc_outcome \<Rightarrow> proto_GetBlocksResponse \<Rightarrow> proto_GetBlocksResponse option" where
  "GetBlocksRPC out reply = (case out of NoConnection \<Rightarrow> None | RpcError \<Rightarrow> None | RpcReply \<Rightarrow> Some reply)"

definition GetDataRPC :: "rpc_outcome \<Rightarrow> proto_GetDataResponse \<Rightarrow> proto_GetDataResponse option" where
  "GetDataRPC out reply = (case out of NoConnection \<Rightarrow> None | RpcError \<Rightarrow> None | RpcReply \<Rightarrow> Some reply)"

definition GetAddressesRPC :: "rpc_outcome \<Rightarrow> proto_Addresses \<Rightarrow> proto_Addresses option" where
  "GetAddressesRPC out reply = (case out of NoConnection \<Rightarrow> None | RpcError \<Rightarrow> None | RpcReply \<Rightarrow> Some reply)"

text \<open>These return an empty reply; \<open>None\<close> is the error.\<close>

definition SendAddressesRPC :: "rpc_outcome \<Rightarrow> unit option" where
  "SendAddressesRPC out = (case out of NoConnection \<Rightarrow> None | RpcError \<Rightarrow> None | RpcReply \<Rightarrow> Some ())"

definition ForwardTransactionRPC :: "rpc_outcome \<Rightarrow> unit option" where
  "ForwardTransactionRPC out = (case out of NoConnection \<Rightarrow> None | RpcError \<Rightarrow> None | RpcReply \<Rightarrow> Some ())"

definition ForwardBlockRPC :: "rpc_outcome \<Rightarrow> unit option" where
  "ForwardBlockRPC out = (case out of NoConnection \<Rightarrow> None | RpcError \<Rightarrow> None | RpcReply \<Rightarrow> Some ())"

section \<open>addressdb\<close>

datatype db_error = AddressExists | AddressListFull | AddressNotFound | PeerNotFound

record EphemeralAddressDb =
  addresses :: "(string, nat) gomap"
  ad_limit :: int

definition AddressDb_New :: "bool \<Rightarrow> int \<Rightarrow> EphemeralAddressDb" where
  "AddressDb_New eph limit = \<lparr>addresses = [], ad_limit = limit\<rparr>"

definition AddressDb_Add :: "addr_mem \<Rightarrow> nat \<Rightarrow> EphemeralAddressDb \<Rightarrow> EphemeralAddressDb \<times> db_error option" where
  "AddressDb_Add mem a adb =
     (case gget (addresses adb) (addr_Addr (mem ! a)) of
        Some _ \<Rightarrow> (adb, Some AddressExists)
      | None \<Rightarrow>
          if int (length (addresses adb)) \<ge> ad_limit adb then (adb, Some AddressListFull)
          else (adb\<lparr>addresses := gset (addr_Addr (mem ! a)) a (addresses adb)\<rparr>, None))"

definition AddressDb_Get :: "EphemeralAddressDb \<Rightarrow> string \<Rightarrow> nat option" where
  "AddressDb_Get adb addr = gget (addresses adb) addr"

definition AddressDb_UpdateLastSeen :: "EphemeralAddressDb \<Rightarrow> string \<Rightarrow> u32 \<Rightarrow> addr_mem \<Rightarrow> addr_mem \<times> db_error option" where
  "AddressDb_UpdateLastSeen adb addr lastSeen mem =
     (case gget (addresses adb) addr of
        None \<Rightarrow> (mem, Some AddressNotFound)
      | Some a \<Rightarrow> (mem[a := (mem ! a)\<lparr>LastSeen := lastSeen\<rparr>], None))"

definition AddressDb_List :: "string list \<Rightarrow> EphemeralAddressDb \<Rightarrow> nat list" where
  "AddressDb_List ks adb = List.map_filter (gget (addresses adb)) ks"

definition AddressDb_Serialize :: "string list \<Rightarrow> addr_mem \<Rightarrow> EphemeralAddressDb \<Rightarrow> proto_Address list" where
  "AddressDb_Serialize ks mem adb = map (\<lambda>a. Address_Serialize (mem ! a)) (List.map_filter (gget (addresses adb)) ks)"

section \<open>peer\<close>

record Peer =
  peer_Addr :: nat
  peer_Version :: u32
  bestHeight :: u32

record EphemeralPeerDb =
  peers :: "(string, Peer) gomap"
  pd_limit :: int
  pd_Addr :: string

definition Peer_New :: "nat \<Rightarrow> u32 \<Rightarrow> u32 \<Rightarrow> Peer" where
  "Peer_New addr version bh = \<lparr>peer_Addr = addr, peer_Version = version, bestHeight = bh\<rparr>"

definition PeerDb_New :: "bool \<Rightarrow> int \<Rightarrow> string \<Rightarrow> EphemeralPeerDb" where
  "PeerDb_New eph limit addr = \<lparr>peers = [], pd_limit = limit, pd_Addr = addr\<rparr>"

definition PeerDb_In :: "EphemeralPeerDb \<Rightarrow> string \<Rightarrow> bool" where
  "PeerDb_In pdb k \<longleftrightarrow> gget (peers pdb) k \<noteq> None"

definition PeerDb_SetAddr :: "string \<Rightarrow> EphemeralPeerDb \<Rightarrow> EphemeralPeerDb" where
  "PeerDb_SetAddr addr pdb = pdb\<lparr>pd_Addr := addr\<rparr>"

definition PeerDb_Add :: "addr_mem \<Rightarrow> Peer \<Rightarrow> EphemeralPeerDb \<Rightarrow> EphemeralPeerDb \<times> bool" where
  "PeerDb_Add mem p pdb =
     (let a = mem ! peer_Addr p; oldP = gget (peers pdb) (addr_Addr a)
      in if (case oldP of
               Some old \<Rightarrow> LastSeen a \<noteq> LastSeen (mem ! peer_Addr old)
             | None \<Rightarrow> int (length (peers pdb)) < pd_limit pdb)
         then (pdb\<lparr>peers := gset (addr_Addr a) p (peers pdb)\<rparr>, True)
         else (pdb, False))"

definition PeerDb_Get :: "EphemeralPeerDb \<Rightarrow> string \<Rightarrow> Peer option" where
  "PeerDb_Get pdb addr = gget (peers pdb) addr"

definition PeerDb_UpdateLastSeen :: "EphemeralPeerDb \<Rightarrow> string \<Rightarrow> u32 \<Rightarrow> addr_mem \<Rightarrow> addr_mem \<times> db_error option" where
  "PeerDb_UpdateLastSeen pdb addr lastSeen mem =
     (case gget (peers pdb) addr of
        None \<Rightarrow> (mem, Some PeerNotFound)
      | Some p \<Rightarrow> (mem[peer_Addr p := (mem ! peer_Addr p)\<lparr>LastSeen := lastSeen\<rparr>], None))"

text \<open>
  \<open>shuffle\<close> is the random permutation. The slice expression \<^verbatim>\<open>keys[:n]\<close> is checked against the capacity of
  \<^verbatim>\<open>keys\<close>, which the run-time chooses when it grows the slice: \<open>capy k\<close> for \<open>k\<close> appended elements. Past the
  length it yields empty strings, for which the lookup gives nil.
\<close>

definition GetRandom ::
    "(nat \<Rightarrow> nat) \<Rightarrow> (string list \<Rightarrow> string list) \<Rightarrow> string list \<Rightarrow> int \<Rightarrow> string list \<Rightarrow> EphemeralPeerDb \<Rightarrow> Peer option list go" where
  "GetRandom capy shuffle ks n exclude pdb =
     (if n \<ge> int (length (peers pdb)) then Inr (map Some (List.map_filter (gget (peers pdb)) ks))
      else let keys = filter (\<lambda>key. key \<notin> set exclude) ks;
               keys = shuffle keys
           in if n < 0 \<or> n > int (capy (length keys)) then Inl IndexOutOfRange
              else Inr (map (gget (peers pdb)) (take (nat n) (keys @ replicate (nat n) []))))"

definition PeerDb_List :: "string list \<Rightarrow> EphemeralPeerDb \<Rightarrow> Peer list" where
  "PeerDb_List ks pdb = List.map_filter (gget (peers pdb)) ks"

section \<open>Well-formed databases\<close>

text \<open>
  Every entry of the address database refers to an address with its key; every peer's key is the
  address it refers to; both stay within their limits.
\<close>

definition addrs_ok :: "addr_mem \<Rightarrow> EphemeralAddressDb \<Rightarrow> bool" where
  "addrs_ok mem adb \<longleftrightarrow> gm_ok (addresses adb) \<and> int (length (addresses adb)) \<le> max 0 (ad_limit adb)
     \<and> (\<forall>k a. gget (addresses adb) k = Some a \<longrightarrow> a < length mem \<and> addr_Addr (mem ! a) = k)"

definition peers_ok :: "addr_mem \<Rightarrow> EphemeralPeerDb \<Rightarrow> bool" where
  "peers_ok mem pdb \<longleftrightarrow> gm_ok (peers pdb) \<and> int (length (peers pdb)) \<le> max 0 (pd_limit pdb)
     \<and> (\<forall>k p. gget (peers pdb) k = Some p \<longrightarrow> peer_Addr p < length mem \<and> addr_Addr (mem ! peer_Addr p) = k)"

text \<open>Changes of the store that keep every address where it is and name it the same.\<close>

definition mem_ext :: "addr_mem \<Rightarrow> addr_mem \<Rightarrow> bool" where
  "mem_ext mem mem' \<longleftrightarrow> length mem \<le> length mem' \<and> (\<forall>a < length mem. addr_Addr (mem' ! a) = addr_Addr (mem ! a))"

lemma mem_ext_refl [simp]: "mem_ext mem mem"
  by (simp add: mem_ext_def)

lemma mem_ext_trans: "mem_ext a b \<Longrightarrow> mem_ext b c \<Longrightarrow> mem_ext a c"
  by (auto simp: mem_ext_def)

lemma mem_ext_append [simp]: "mem_ext mem (mem @ xs)"
  by (simp add: mem_ext_def nth_append)

lemma mem_ext_update [simp]: "addr_Addr v = addr_Addr (mem ! a) \<Longrightarrow> mem_ext mem (mem[a := v])"
  by (cases "a < length mem") (auto simp: mem_ext_def nth_list_update)

lemma addrs_ok_ext: "addrs_ok mem adb \<Longrightarrow> mem_ext mem mem' \<Longrightarrow> addrs_ok mem' adb"
  by (fastforce simp: addrs_ok_def mem_ext_def)

lemma peers_ok_ext: "peers_ok mem pdb \<Longrightarrow> mem_ext mem mem' \<Longrightarrow> peers_ok mem' pdb"
  by (fastforce simp: peers_ok_def mem_ext_def)

lemma addrs_ok_New [simp]: "addrs_ok mem (AddressDb_New e l)"
  by (simp add: addrs_ok_def AddressDb_New_def)

lemma peers_ok_New [simp]: "peers_ok mem (PeerDb_New e l a)"
  by (simp add: peers_ok_def PeerDb_New_def)

lemma AddressDb_Add_ok:
  assumes "addrs_ok mem adb" "a < length mem" "AddressDb_Add mem a adb = (adb', e)"
  shows "addrs_ok mem adb' \<and> ad_limit adb' = ad_limit adb"
  using assms by (auto simp: AddressDb_Add_def addrs_ok_def gset_length split: option.splits if_splits)

lemma PeerDb_Add_ok:
  assumes "peers_ok mem pdb" "peer_Addr p < length mem" "PeerDb_Add mem p pdb = (pdb', r)"
  shows "peers_ok mem pdb' \<and> pd_limit pdb' = pd_limit pdb"
proof -
  have "length (gset k p (peers pdb)) = (if gget (peers pdb) k = None then Suc (length (peers pdb)) else length (peers pdb))" for k
    using assms(1) by (simp add: peers_ok_def gset_length gget_None_iff)
  then show ?thesis using assms
    by (auto simp: PeerDb_Add_def peers_ok_def Let_def split: option.splits if_splits)
qed

section \<open>The interface of the databases\<close>

text \<open>
  What a node relies on of either database: a lookup gives an entry that refers to an address of the given name, and an update of the time
  an address was last seen changes that address and no other. The two databases differ in what an entry is.
\<close>

locale addr_db =
  fixes ok :: "addr_mem \<Rightarrow> 'db \<Rightarrow> bool"
    and lookup :: "'db \<Rightarrow> string \<Rightarrow> 'e option"
    and ref :: "'e \<Rightarrow> nat"
    and touch :: "'db \<Rightarrow> string \<Rightarrow> u32 \<Rightarrow> addr_mem \<Rightarrow> addr_mem \<times> db_error option"
  assumes lookup_ref: "ok mem db \<Longrightarrow> lookup db k = Some e \<Longrightarrow> ref e < length mem \<and> addr_Addr (mem ! ref e) = k"
    and ok_ext: "ok mem db \<Longrightarrow> mem_ext mem mem' \<Longrightarrow> ok mem' db"
    and touch_Some: "lookup db k = Some e \<Longrightarrow> touch db k t mem = (mem[ref e := (mem ! ref e)\<lparr>LastSeen := t\<rparr>], None)"
    and touch_None: "lookup db k = None \<Longrightarrow> \<exists>err. touch db k t mem = (mem, Some err)"
begin

lemma touch_ext: "mem_ext mem (fst (touch db k t mem))"
  using touch_Some [of db k _ t mem] touch_None [of db k t mem] by (cases "lookup db k") auto

lemma touch_ok: "ok mem db \<Longrightarrow> ok (fst (touch db k t mem)) db"
  by (erule ok_ext) (rule touch_ext)

lemma touch_seen: "ok mem db \<Longrightarrow> lookup db k = Some e \<Longrightarrow> LastSeen (fst (touch db k t mem) ! ref e) = t"
  using lookup_ref [of mem db k e] by (simp add: touch_Some)

lemma touch_error: "snd (touch db k t mem) = None \<longleftrightarrow> lookup db k \<noteq> None"
  using touch_Some [of db k _ t mem] touch_None [of db k t mem] by (cases "lookup db k") auto

end

interpretation adb: addr_db addrs_ok AddressDb_Get "\<lambda>a. a" AddressDb_UpdateLastSeen
  by unfold_locales
    (simp add: addrs_ok_def AddressDb_Get_def, erule (1) addrs_ok_ext, simp_all add: AddressDb_Get_def AddressDb_UpdateLastSeen_def)

interpretation pdb: addr_db peers_ok PeerDb_Get peer_Addr PeerDb_UpdateLastSeen
  by unfold_locales
    (simp add: peers_ok_def PeerDb_Get_def, erule (1) peers_ok_ext, simp_all add: PeerDb_Get_def PeerDb_UpdateLastSeen_def)

lemma VersionRPC_ext: "Address_VersionRPC out now r mem = (mem', b) \<Longrightarrow> mem_ext mem mem'"
  by (auto simp: Address_VersionRPC_def split: rpc_outcome.splits)

section \<open>Properties\<close>

lemma map_filter_keys: "range_order m ks \<Longrightarrow> map Some (List.map_filter (gget m) ks) = map (gget m) ks"
proof -
  assume "range_order m ks"
  then have "\<forall>k \<in> set ks. \<exists>v. gget m k = Some v" using range_order_set in_gkeys_iff by fast
  then show ?thesis by (induction ks) (auto simp: List.map_filter_def)
qed

lemma range_order_length: "range_order m ks \<Longrightarrow> length ks = length m"
  by (metis gkeys_def length_map range_order_def size_mset)

text \<open>
  Random peers. When at most one address is excluded, \<open>GetRandom\<close> never panics, for any
  shuffle, iteration order and slice growth. It returns \<open>n\<close> entries of the database, or all when there are
  not more than \<open>n\<close>, none of them nil and no peer twice. When there are more than \<open>n\<close> peers the excluded
  address is not among them; otherwise the exclusion is ignored.
\<close>

theorem GetRandom_safe:
  assumes "gm_ok (peers pdb)" "range_order (peers pdb) ks" "card (set exclude) \<le> 1" "0 \<le> n"
    and "\<And>xs. mset (shuffle xs) = mset xs" "\<And>k. k \<le> capy k"
  shows "\<exists>sel. GetRandom capy shuffle ks n exclude pdb = Inr (map (gget (peers pdb)) sel)
    \<and> distinct sel \<and> set sel \<subseteq> set (gkeys (peers pdb)) \<and> length sel = min (nat n) (length (peers pdb))
    \<and> (n < int (length (peers pdb)) \<longrightarrow> set sel \<inter> set exclude = {})"
proof (cases "n \<ge> int (length (peers pdb))")
  case True
  then show ?thesis
    using map_filter_keys [OF assms(2)] range_order_distinct [OF assms(2,1)] range_order_set [OF assms(2)] range_order_length [OF assms(2)]
    by (intro exI [of _ ks]) (simp add: GetRandom_def)
next
  case False
  let ?keys = "filter (\<lambda>key. key \<notin> set exclude) ks"
  have d: "distinct ks" by (rule range_order_distinct [OF assms(2,1)])
  have "card (set ks) - card (set exclude) \<le> card (set ks - set exclude)" by (rule diff_card_le_card_Diff) simp
  moreover have "length ?keys = card (set ks - set exclude)"
    using distinct_card [of ?keys] d by (simp add: set_diff_eq)
  ultimately have "length (peers pdb) \<le> length ?keys + 1"
    using assms(3) distinct_card [OF d] range_order_length [OF assms(2)] by simp
  then have n: "nat n \<le> length ?keys" using False by simp
  have len: "length (shuffle ?keys) = length ?keys" by (rule mset_eq_length [OF assms(5)])
  have st: "set (shuffle ?keys) = set ?keys" by (rule mset_eq_setD [OF assms(5)])
  have "distinct (shuffle ?keys)" using d mset_eq_imp_distinct_iff [OF assms(5)] by simp
  moreover have "\<not> n > int (capy (length (shuffle ?keys)))" using n assms(6) [of "length (shuffle ?keys)"] len by linarith
  moreover have "take (nat n) (shuffle ?keys @ replicate (nat n) []) = take (nat n) (shuffle ?keys)" using n len by simp
  ultimately show ?thesis using False n len st assms(4) range_order_set [OF assms(2)] set_take_subset [of "nat n" "shuffle ?keys"]
    by (intro exI [of _ "take (nat n) (shuffle ?keys)"]) (auto simp: GetRandom_def Let_def)
qed

theorem GetRandom_safe_witness:
  "\<exists>sel. GetRandom (\<lambda>k. k) rev [''a'', ''b'', ''c''] 2 [''b'']
       \<lparr>peers = [(''a'', Peer_New 0 0 0), (''b'', Peer_New 1 0 0), (''c'', Peer_New 2 0 0)], pd_limit = 20, pd_Addr = ''b''\<rparr>
     = Inr (map (gget [(''a'', Peer_New 0 0 0), (''b'', Peer_New 1 0 0), (''c'', Peer_New 2 0 0)]) sel) \<and> ''b'' \<notin> set sel"
  using GetRandom_safe [of "\<lparr>peers = [(''a'', Peer_New 0 0 0), (''b'', Peer_New 1 0 0), (''c'', Peer_New 2 0 0)], pd_limit = 20, pd_Addr = ''b''\<rparr>"
      "[''a'', ''b'', ''c'']" "[''b'']" 2 rev "\<lambda>k. k"]
  by (auto simp: gm_ok_def gkeys_def range_order_def)

text \<open>
  Registering a peer. A new address is added exactly when the database is below its limit. A peer
  that is known under the same address object, as every peer that registers again is, is never
  replaced, and the answer is \<^verbatim>\<open>false\<close>; the comment of \<^verbatim>\<open>Add\<close> promises \<^verbatim>\<open>true\<close> for a peer that existed already.
\<close>

theorem PeerDb_Add_outcomes:
  "(gget (peers pdb) (addr_Addr (mem ! peer_Addr p)) = None \<longrightarrow>
      PeerDb_Add mem p pdb = (if int (length (peers pdb)) < pd_limit pdb
        then (pdb\<lparr>peers := gset (addr_Addr (mem ! peer_Addr p)) p (peers pdb)\<rparr>, True) else (pdb, False)))
   \<and> (gget (peers pdb) (addr_Addr (mem ! peer_Addr p)) = Some old \<and> peer_Addr old = peer_Addr p \<longrightarrow>
      PeerDb_Add mem p pdb = (pdb, False))"
  by (simp add: PeerDb_Add_def Let_def)

theorem PeerDb_Add_outcomes_witness:
  "PeerDb_Add [Address_New ''h:1'' 5] (Peer_New 0 7 9) \<lparr>peers = [(''h:1'', Peer_New 0 1 1)], pd_limit = 20, pd_Addr = ''h:2''\<rparr>
   = (\<lparr>peers = [(''h:1'', Peer_New 0 1 1)], pd_limit = 20, pd_Addr = ''h:2''\<rparr>, False)"
  using PeerDb_Add_outcomes [of "\<lparr>peers = [(''h:1'', Peer_New 0 1 1)], pd_limit = 20, pd_Addr = ''h:2''\<rparr>"
      "[Address_New ''h:1'' 5]" "Peer_New 0 7 9" "Peer_New 0 1 1"]
  by (simp add: Address_New_def Peer_New_def)

end
