(* ===== verification/Node.thy ===== *)
theory Node
  imports Miner Wallet Peer_Db
begin

text \<open>
  The package \<^verbatim>\<open>pkg\<close>: \<^verbatim>\<open>config.go\<close>, \<^verbatim>\<open>node.go\<close> and the request handlers of \<^verbatim>\<open>server.go\<close>. A node owns the
  chain, the wallet, the miner and the two databases, and remembers the hashes of the blocks
  and transactions it has seen.

  Handlers return the new state and the list of the events they cause: goroutines they start
  (\<open>Go...\<close>) and remote calls they make (\<open>Rpc...\<close>, with the callee's address). Clock readings, iteration orders,
  the shuffle and the answers of remote nodes are arguments. The log lines of the handlers format addresses
  and name blocks and transactions, which may panic; the log line of a spawned goroutine, which
  runs when its call got no answer, is \<open>no_response\<close> and not part of the handler.

  \<open>fGetAddr\<close> and \<open>Paused\<close> of the source are never used. A node whose identity could not be made
  has a nil identity in the source; \<open>Node_New\<close> is \<open>None\<close> then.
\<close>

section \<open>config.go\<close>

record ('pk, 'sk) n_Config =
  IdConf :: id_Config
  MnrConf :: mnr_Config
  WtConf :: wt_Config
  ChainConf :: bc_Config
  CstmID :: bool
  CstmIDObj :: "('pk, 'sk) SimpleID option"
  n_Version :: int
  PeerLimit :: int
  AddrLimit :: int
  Port :: int
  VerTimeout :: int
  MxBlkSz :: u32

definition n_DefaultConfig :: "int \<Rightarrow> ('pk, 'sk) n_Config" where
  "n_DefaultConfig port =
     \<lparr>IdConf = id_DefaultConfig, MnrConf = mnr_DefaultConfig (-1), WtConf = wt_DefaultConfig, ChainConf = bc_DefaultConfig,
      CstmID = False, CstmIDObj = None, n_Version = 0, PeerLimit = 20, AddrLimit = 1000, Port = port,
      VerTimeout = 2000000000, MxBlkSz = 10000000\<rparr>"

definition TestingConfig :: "int \<Rightarrow> ('pk, 'sk) n_Config" where
  "TestingConfig port =
     \<lparr>IdConf = id_DefaultConfig, MnrConf = mnr_DefaultConfig (-1), WtConf = wt_DefaultConfig, ChainConf = bc_DefaultConfig,
      CstmID = False, CstmIDObj = None, n_Version = 0, PeerLimit = 20, AddrLimit = 1000, Port = port,
      VerTimeout = 2000000000, MxBlkSz = 10000000\<rparr>"

definition n_NilConfig :: "int \<Rightarrow> ('pk, 'sk) n_Config" where
  "n_NilConfig port =
     \<lparr>IdConf = id_DefaultConfig, MnrConf = mnr_NilConfig (-1), WtConf = wt_NilConfig, ChainConf = bc_NilConfig,
      CstmID = False, CstmIDObj = None, n_Version = 0, PeerLimit = 20, AddrLimit = 1000, Port = port,
      VerTimeout = 2000000000, MxBlkSz = 10000000\<rparr>"

definition NoMnrConfig :: "int \<Rightarrow> ('pk, 'sk) n_Config" where
  "NoMnrConfig port =
     \<lparr>IdConf = id_DefaultConfig, MnrConf = mnr_NilConfig (-1), WtConf = wt_DefaultConfig, ChainConf = bc_DefaultConfig,
      CstmID = False, CstmIDObj = None, n_Version = 1, PeerLimit = 20, AddrLimit = 1000, Port = port,
      VerTimeout = 2000000000, MxBlkSz = 10000000\<rparr>"

definition SmallTxPConfig :: "int \<Rightarrow> ('pk, 'sk) n_Config" where
  "SmallTxPConfig port =
     \<lparr>IdConf = id_DefaultConfig, MnrConf = SmallTxPCapConfig (-1), WtConf = wt_DefaultConfig, ChainConf = bc_DefaultConfig,
      CstmID = False, CstmIDObj = None, n_Version = 0, PeerLimit = 20, AddrLimit = 1000, Port = port,
      VerTimeout = 2000000000, MxBlkSz = 10000000\<rparr>"

section \<open>State\<close>

datatype node_event =
    GoMnrHndlTx Transaction | GoMnrHndlBlk Block | GoWtHndlBlk Block | GoWtHndlTxReq TxReq
  | GoVersion nat | GoReceive | MnrEv mnr_event | StartServerEv string | StopServerEv
  | RpcForwardTransaction string proto_Transaction | RpcForwardBlock string proto_Block
  | RpcVersion string proto_VersionRequest | RpcSendAddresses string proto_Addresses

record ('pk, 'sk) Node =
  n_Conf :: "('pk, 'sk) n_Config"
  n_Addr :: string
  n_Id :: "('pk, 'sk) SimpleID"
  Chain :: Blockchain
  n_Wallet :: "('pk, 'sk) Wallet option"
  Mnr :: "('pk, 'sk) Miner option"
  addr_mem :: addr_mem
  AddrDb :: EphemeralAddressDb
  PeerDb :: EphemeralPeerDb
  TxMap :: "(string, bool) gomap"
  BlockMap :: "(string, bool) gomap"

type_synonym ('pk, 'sk) node_result = "(('pk, 'sk) Node \<times> node_event list) go"

abbreviation seen :: "(string, bool) gomap \<Rightarrow> string \<Rightarrow> bool" where
  "seen m h \<equiv> gget m h = Some True"

abbreviation peer_addr :: "('pk, 'sk) Node \<Rightarrow> Peer \<Rightarrow> string" where
  "peer_addr n p \<equiv> addr_Addr (addr_mem n ! peer_Addr p)"

section \<open>node.go\<close>

definition Node_SendTx :: "u32 \<Rightarrow> u32 \<Rightarrow> byte list option \<Rightarrow> ('pk, 'sk) Node \<Rightarrow> node_event list" where
  "Node_SendTx amt fee pubK n =
     (if amt \<le> 0 then []
      else case pubK of None \<Rightarrow> [] | Some pubK \<Rightarrow> [GoWtHndlTxReq \<lparr>PubK = pubK, req_Amt = amt, Fee = fee\<rparr>])"

definition Node_New ::
    "('pk, 'sk) ecdsa \<Rightarrow> (byte list \<Rightarrow> byte list) \<Rightarrow> nat \<Rightarrow> ('pk, 'sk) n_Config \<Rightarrow> ('pk, 'sk) Node option go" where
  "Node_New ec H draw conf =
     (case (if CstmID conf then CstmIDObj conf else id_New ec draw (IdConf conf)) of
        None \<Rightarrow> Inr None
      | Some i \<Rightarrow>
          go_bind (Blockchain_New H (ChainConf conf)) (\<lambda>chain.
          go_bind (Miner_New H (MnrConf conf) i) (\<lambda>mnr.
            Inr (Some \<lparr>n_Conf = conf, n_Addr = [], n_Id = i, Chain = chain, n_Wallet = Wallet_New (WtConf conf) i, Mnr = mnr,
                       addr_mem = [], AddrDb = AddressDb_New True 1000, PeerDb = PeerDb_New True 200 [],
                       TxMap = [], BlockMap = []\<rparr>))))"

text \<open>
  \<^verbatim>\<open>StartServer\<close>: \<open>listening\<close> says whether the port could be opened. \<^verbatim>\<open>Start\<close> panics as well when the
  host has no name; \<^verbatim>\<open>Start\<close> is modelled up to its receive loop, which \<open>GoReceive\<close> starts and whose rounds are \<open>Start_recv\<close>.
\<close>

definition StartServer :: "bool \<Rightarrow> string \<Rightarrow> node_event list go" where
  "StartServer listening addr = (if listening then Inr [StartServerEv addr] else Inl ExplicitPanic)"

definition Node_Start :: "bool \<Rightarrow> string option \<Rightarrow> ('pk, 'sk) Node \<Rightarrow> ('pk, 'sk) node_result" where
  "Node_Start listening host n =
     (case host of
        None \<Rightarrow> Inl ExplicitPanic
      | Some hostname \<Rightarrow>
          let addr = hostname @ '':'' @ show_int (Port (n_Conf n));
              n = n\<lparr>n_Addr := addr, PeerDb := PeerDb_SetAddr addr (PeerDb n)\<rparr>
          in go_bind (FmtAddr (n_Addr n)) (\<lambda>_.
               let n = (if HasMnr (MnrConf (n_Conf n)) then n\<lparr>Mnr := map_option (Miner_SetAddr addr) (Mnr n)\<rparr> else n);
                   n = (if HasChn (ChainConf (n_Conf n)) then n\<lparr>Chain := Blockchain_SetAddr addr (Chain n)\<rparr> else n);
                   n = (if HasWt (WtConf (n_Conf n)) then n\<lparr>n_Wallet := map_option (Wallet_SetAddr addr) (n_Wallet n)\<rparr> else n)
               in go_bind (StartServer listening addr) (\<lambda>ev. Inr (n, ev @ [GoReceive]))))"

text \<open>The block a safe number of blocks down from the end of the main chain goes to the wallet.\<close>

definition safe_block :: "('pk, 'sk) Node \<Rightarrow> node_event list go" where
  "safe_block n =
     (let s = SafeBlkAmt (WtConf (n_Conf n));
          blks = Blockchain_Slice (Chain n) (Blockchain_Length (Chain n) - s) (Blockchain_Length (Chain n))
      in if int (length blks) = s
         then (case blks of [] \<Rightarrow> Inl IndexOutOfRange | blk # _ \<Rightarrow> Inr [GoWtHndlBlk blk])
         else Inr [])"

text \<open>A nil block, as received from a closed channel, is dereferenced at once.\<close>

definition HndlMnrBlk ::
    "(byte list \<Rightarrow> byte list) \<Rightarrow> string list \<Rightarrow> Block option \<Rightarrow> ('pk, 'sk) Node \<Rightarrow> ('pk, 'sk) node_result" where
  "HndlMnrBlk H ks bo n =
     (case bo of
        None \<Rightarrow> Inl NilDeref
      | Some b \<Rightarrow>
          let n = n\<lparr>BlockMap := gset (Block_Hash H b) True (BlockMap n)\<rparr>
          in go_bind (Blockchain_Add H (Some b) (Chain n)) (\<lambda>bc.
               let n = n\<lparr>Chain := bc\<rparr>
               in go_bind (if HasWt (WtConf (n_Conf n)) then safe_block n else Inr []) (\<lambda>ev.
                  go_bind (go_map (\<lambda>p.
                      go_bind (FmtAddr (n_Addr n)) (\<lambda>_.
                      go_bind (Block_NameTag H b) (\<lambda>_.
                      go_bind (FmtAddr (peer_addr n p)) (\<lambda>_.
                        Inr (RpcForwardBlock (peer_addr n p) (Block_Serialize b))))))
                    (PeerDb_List ks (PeerDb n))) (\<lambda>rpcs. Inr (n, ev @ rpcs)))))"

definition Node_GetBalance :: "string list \<Rightarrow> ('pk, 'sk) Node \<Rightarrow> string \<Rightarrow> u32" where
  "Node_GetBalance ks n pk = Blockchain_GetBalance (Chain n) ks pk"

definition HndlWtTx ::
    "(byte list \<Rightarrow> byte list) \<Rightarrow> string list \<Rightarrow> Transaction \<Rightarrow> ('pk, 'sk) Node \<Rightarrow> ('pk, 'sk) node_result" where
  "HndlWtTx H ks t n =
     (let ev = (if HasMnr (MnrConf (n_Conf n)) then [GoMnrHndlTx t] else []);
          n = n\<lparr>TxMap := gset (Transaction_Hash H t) True (TxMap n)\<rparr>
      in go_bind (go_map (\<lambda>p.
             go_bind (FmtAddr (n_Addr n)) (\<lambda>_.
             go_bind (Transaction_NameTag H t) (\<lambda>_.
             go_bind (FmtAddr (peer_addr n p)) (\<lambda>_.
               Inr (RpcForwardTransaction (peer_addr n p) (Transaction_Serialize t))))))
           (PeerDb_List ks (PeerDb n))) (\<lambda>rpcs. Inr (n, ev @ rpcs)))"

text \<open>
  One round of the receive loop that \<^verbatim>\<open>Start\<close> leaves running. The \<^verbatim>\<open>select\<close> evaluates its channels first, which dereferences
  the wallet and, in a node that is to mine, the miner. A receive from the channel of a killed miner is always ready and yields nil.
\<close>

datatype node_recv = RecvTx Transaction | RecvBlk "Block option"

definition select_panics :: "('pk, 'sk) Node \<Rightarrow> bool" where
  "select_panics n \<longleftrightarrow> n_Wallet n = None \<or> HasMnr (MnrConf (n_Conf n)) \<and> Mnr n = None"

definition recv_ready :: "('pk, 'sk) Node \<Rightarrow> node_recv \<Rightarrow> bool" where
  "recv_ready n r = (select_panics n \<or> (case r of
     RecvTx t \<Rightarrow> True
   | RecvBlk (Some b) \<Rightarrow> HasMnr (MnrConf (n_Conf n)) \<and> (case Mnr n of None \<Rightarrow> False | Some m \<Rightarrow> \<not> mnr_closed m)
   | RecvBlk None \<Rightarrow> HasMnr (MnrConf (n_Conf n)) \<and> (case Mnr n of None \<Rightarrow> False | Some m \<Rightarrow> mnr_closed m)))"

definition Start_recv ::
    "(byte list \<Rightarrow> byte list) \<Rightarrow> string list \<Rightarrow> node_recv \<Rightarrow> ('pk, 'sk) Node \<Rightarrow> ('pk, 'sk) node_result" where
  "Start_recv H ks r n =
     (if select_panics n then Inl NilDeref
      else case r of RecvTx t \<Rightarrow> HndlWtTx H ks t n | RecvBlk b \<Rightarrow> HndlMnrBlk H ks b n)"

definition Node_StartMiner :: "('pk, 'sk) Node \<Rightarrow> ('pk, 'sk) node_result" where
  "Node_StartMiner n =
     (case Mnr n of
        None \<Rightarrow> Inl NilDeref
      | Some m \<Rightarrow> go_bind (StartMiner m) (\<lambda>(m, ev). Inr (n\<lparr>Mnr := Some m\<rparr>, map MnrEv ev)))"

text \<open>The version request a node sends; the address it is sent from is a new object of its own.\<close>

definition version_request :: "('pk, 'sk) Node \<Rightarrow> string \<Rightarrow> proto_VersionRequest" where
  "version_request n addr =
     \<lparr>pvr_Version = word_of_int (n_Version (n_Conf n)), pvr_AddrYou = addr, pvr_AddrMe = n_Addr n,
      pvr_BestHeight = word_of_int (Blockchain_Length (Chain n))\<rparr>"

text \<open>
  What a goroutine or a handler logs when a call to \<open>addr\<close> got no answer. A panic here ends the program,
  in a goroutine too.
\<close>

definition no_response :: "string \<Rightarrow> ('pk, 'sk) Node \<Rightarrow> unit go" where
  "no_response addr n = go_bind (FmtAddr (n_Addr n)) (\<lambda>_. go_bind (FmtAddr addr) (\<lambda>_. Inr ()))"

text \<open>
  The goroutines behind \<open>RpcForwardBlock\<close>, \<open>RpcForwardTransaction\<close> and \<open>RpcSendAddresses\<close> events, for a call that ends with \<open>out\<close>. The log line
  names the peer the loop has moved on to, which is any peer.
\<close>

definition forward_block_done :: "rpc_outcome \<Rightarrow> Peer \<Rightarrow> ('pk, 'sk) Node \<Rightarrow> unit go" where
  "forward_block_done out p n = (if ForwardBlockRPC out = None then no_response (peer_addr n p) n else Inr ())"

definition forward_tx_done :: "rpc_outcome \<Rightarrow> Peer \<Rightarrow> ('pk, 'sk) Node \<Rightarrow> unit go" where
  "forward_tx_done out p n = (if ForwardTransactionRPC out = None then no_response (peer_addr n p) n else Inr ())"

definition broadcast_done :: "rpc_outcome \<Rightarrow> Peer \<Rightarrow> ('pk, 'sk) Node \<Rightarrow> unit go" where
  "broadcast_done out p n = (if SendAddressesRPC out = None then no_response (peer_addr n p) n else Inr ())"

definition ConnectToPeer :: "rpc_outcome \<Rightarrow> string \<Rightarrow> ('pk, 'sk) Node \<Rightarrow> ('pk, 'sk) node_result" where
  "ConnectToPeer out addr n =
     (let ev = [RpcVersion addr (version_request n addr)]
      in if out = RpcReply then Inr (n, ev)
         else go_bind (no_response addr n) (\<lambda>_. Inr (n, ev)))"

definition BroadcastAddr :: "int \<Rightarrow> string list \<Rightarrow> ('pk, 'sk) Node \<Rightarrow> node_event list" where
  "BroadcastAddr now ks n =
     (let myAddr = \<lparr>pa_Addr = n_Addr n, pa_LastSeen = word_of_int now\<rparr>
      in map (\<lambda>p. RpcSendAddresses (peer_addr n p) \<lparr>pas_Addrs = [myAddr]\<rparr>) (PeerDb_List ks (PeerDb n)))"

text \<open>
  \<^verbatim>\<open>Bootstrap\<close>. \<open>arrivals\<close> are the outcomes of the \<^verbatim>\<open>GetBlocks\<close> calls in the order they come in, each with the
  address of its peer and the answer; \<open>data a h\<close> is the outcome of the \<^verbatim>\<open>GetData\<close> call for \<open>h\<close> to \<open>a\<close>, with its answer.
\<close>

datatype boot_error = NoPeers | NoResponses

definition longest_response :: "(string \<times> rpc_outcome \<times> proto_GetBlocksResponse) list \<Rightarrow> (string \<times> proto_GetBlocksResponse) option" where
  "longest_response arrivals =
     foldl (\<lambda>longest (addr, out, reply). case GetBlocksRPC out reply of
         None \<Rightarrow> longest
       | Some res \<Rightarrow> (case longest of
             None \<Rightarrow> Some (addr, res)
           | Some (addr', longestRes) \<Rightarrow>
               if length (pgr_BlockHashes res) > length (pgr_BlockHashes longestRes) then Some (addr, res) else longest)) None arrivals"

definition Bootstrap_block ::
    "(byte list \<Rightarrow> byte list) \<Rightarrow> bool \<Rightarrow> proto_GetDataResponse option \<Rightarrow> ('pk, 'sk) Node \<times> node_event list
     \<Rightarrow> (('pk, 'sk) Node \<times> node_event list) go" where
  "Bootstrap_block H chkOrf pb = (\<lambda>(n, ev).
     case Option.bind pb pgd_Block of
       None \<Rightarrow> Inl NilDeref
     | Some pblk \<Rightarrow>
         go_bind (Block_Deserialize pblk) (\<lambda>b.
           let n = n\<lparr>BlockMap := gset (Block_Hash H b) True (BlockMap n)\<rparr>
           in go_bind (Blockchain_Add H (Some b) (Chain n)) (\<lambda>bc.
                let n = n\<lparr>Chain := bc\<rparr>
                in if \<not> chkOrf then Inr (n, ev)
                   else case Mnr n of
                     None \<Rightarrow> Inl NilDeref
                   | Some m \<Rightarrow> go_bind (HndlChkBlk H b m) (\<lambda>(m, mev). Inr (n\<lparr>Mnr := Some m\<rparr>, ev @ map MnrEv mev)))))"

definition Bootstrap ::
    "(byte list \<Rightarrow> byte list) \<Rightarrow> string list \<Rightarrow> (string \<times> rpc_outcome \<times> proto_GetBlocksResponse) list
     \<Rightarrow> (string \<Rightarrow> string \<Rightarrow> rpc_outcome \<times> proto_GetDataResponse)
     \<Rightarrow> ('pk, 'sk) Node \<Rightarrow> (('pk, 'sk) Node \<times> node_event list \<times> boot_error option) go" where
  "Bootstrap H ks arrivals data n =
     go_bind (FmtAddr (n_Addr n)) (\<lambda>_.
     go_bind (Block_NameTag H (node_Block (LastBlock (Chain n)))) (\<lambda>_.
       if PeerDb_List ks (PeerDb n) = [] then Inr (n, [], Some NoPeers)
       else case longest_response arrivals of
         None \<Rightarrow> Inr (n, [], Some NoResponses)
       | Some (addr, longestRes) \<Rightarrow>
           let chkOrf = length (pgr_BlockHashes longestRes) \<le> 2
           in go_bind (go_fold (\<lambda>h. Bootstrap_block H chkOrf (case data addr h of (out, reply) \<Rightarrow> GetDataRPC out reply))
                         (pgr_BlockHashes longestRes) (n, []))
                (\<lambda>(n, ev). Inr (n, ev, None))))"

definition PauseNetwork :: "('pk, 'sk) Node \<Rightarrow> ('pk, 'sk) node_result" where
  "PauseNetwork n = go_bind (FmtAddr (n_Addr n)) (\<lambda>_. Inr (n, [StopServerEv]))"

definition ResumeNetwork :: "bool \<Rightarrow> string option \<Rightarrow> ('pk, 'sk) Node \<Rightarrow> ('pk, 'sk) node_result" where
  "ResumeNetwork listening host n =
     (case host of
        None \<Rightarrow> Inl ExplicitPanic
      | Some hostname \<Rightarrow>
          let addr = hostname @ '':'' @ show_int (Port (n_Conf n))
          in go_bind (StartServer listening addr) (\<lambda>ev. go_bind (FmtAddr (n_Addr n)) (\<lambda>_. Inr (n, ev))))"

definition Node_Kill :: "('pk, 'sk) Node \<Rightarrow> ('pk, 'sk) Node \<times> node_event list" where
  "Node_Kill n = (n, [StopServerEv])"

section \<open>server.go\<close>

text \<open>\<open>True\<close> in the results is an error. An update of a peer that was just looked up does not fail.\<close>

definition peerCheck :: "int \<Rightarrow> string \<Rightarrow> ('pk, 'sk) Node \<Rightarrow> ('pk, 'sk) Node \<times> bool" where
  "peerCheck now addr n =
     (case PeerDb_Get (PeerDb n) addr of
        None \<Rightarrow> (n, True)
      | Some _ \<Rightarrow> (n\<lparr>addr_mem := fst (PeerDb_UpdateLastSeen (PeerDb n) addr (word_of_int now) (addr_mem n))\<rparr>, False))"

text \<open>
  \<^verbatim>\<open>Version\<close>. \<open>now1\<close> to \<open>now4\<close> are the clock readings: for the last-seen time, for the test of a pending
  request, for the request it sends, and after its answer; \<open>out\<close> is how that call ends.
\<close>

definition Version_peer ::
    "rpc_outcome \<Rightarrow> int \<Rightarrow> int \<Rightarrow> int \<Rightarrow> nat \<Rightarrow> proto_VersionRequest \<Rightarrow> ('pk, 'sk) Node
     \<Rightarrow> (('pk, 'sk) Node \<times> node_event list \<times> bool) go" where
  "Version_peer out now2 now3 now4 r req n =
     (case AddressDb_Get (AddrDb n) (pvr_AddrMe req) of
        None \<Rightarrow> Inl NilDeref
      | Some a \<Rightarrow>
          let newPeer = Peer_New a (pvr_Version req) (pvr_BestHeight req);
              pendingVer = (case SentVer (addr_mem n ! a) of None \<Rightarrow> False | Some t \<Rightarrow> t + VerTimeout (n_Conf n) > now2)
          in case PeerDb_Add (addr_mem n) newPeer (PeerDb n) of (pdb, added) \<Rightarrow>
             let n = n\<lparr>PeerDb := pdb\<rparr>
             in if added \<and> \<not> pendingVer
                then let n = n\<lparr>addr_mem := (addr_mem n)[a := (addr_mem n ! a)\<lparr>SentVer := Some now3\<rparr>]\<rparr>
                     in case Address_VersionRPC out now4 r (addr_mem n) of (mem, err) \<Rightarrow>
                          Inr (n\<lparr>addr_mem := mem\<rparr>, [RpcVersion (pvr_AddrMe req) (version_request n (pvr_AddrMe req))], err)
                else Inr (n, [], False))"

definition Node_VersionHandler ::
    "rpc_outcome \<Rightarrow> int \<Rightarrow> int \<Rightarrow> int \<Rightarrow> int \<Rightarrow> proto_VersionRequest \<Rightarrow> ('pk, 'sk) Node
     \<Rightarrow> (('pk, 'sk) Node \<times> node_event list \<times> bool) go" where
  "Node_VersionHandler out now1 now2 now3 now4 req n =
     (if int (unat (pvr_Version req)) \<noteq> n_Version (n_Conf n) then Inr (n, [], False)
      else let r = length (addr_mem n);
               n = n\<lparr>addr_mem := addr_mem n @ [Address_New (pvr_AddrMe req) (word_of_int now1)]\<rparr>
           in case AddressDb_Get (AddrDb n) (pvr_AddrMe req) of
                Some _ \<Rightarrow>
                  (case AddressDb_UpdateLastSeen (AddrDb n) (pvr_AddrMe req) (word_of_int now1) (addr_mem n) of (mem, err) \<Rightarrow>
                     if err \<noteq> None then Inr (n\<lparr>addr_mem := mem\<rparr>, [], False)
                     else Version_peer out now2 now3 now4 r req (n\<lparr>addr_mem := mem\<rparr>))
              | None \<Rightarrow>
                  (case AddressDb_Add (addr_mem n) r (AddrDb n) of (adb, err) \<Rightarrow>
                     if err \<noteq> None then Inr (n\<lparr>AddrDb := adb\<rparr>, [], False)
                     else Version_peer out now2 now3 now4 r req (n\<lparr>AddrDb := adb\<rparr>)))"

definition GetBlocks :: "(byte list \<Rightarrow> byte list) \<Rightarrow> proto_GetBlocksRequest \<Rightarrow> ('pk, 'sk) Node \<Rightarrow> proto_GetBlocksResponse" where
  "GetBlocks H req n =
     (let ind = IndexOf (Chain n) (pgb_TopBlockHash req)
      in if ind \<noteq> -1 \<and> ind < Blockchain_Length (Chain n)
         then let upperIndex = Blockchain_Length (Chain n);
                  upperIndex = (if ind + 500 < upperIndex then ind + 500 else upperIndex)
              in \<lparr>pgr_BlockHashes = map (Block_Hash H) (Blockchain_Slice (Chain n) (ind + 1) upperIndex)\<rparr>
         else \<lparr>pgr_BlockHashes = []\<rparr>)"

text \<open>The test for a nil block in the source never applies: a lookup of an unknown hash panics.\<close>

definition GetData :: "proto_GetDataRequest \<Rightarrow> ('pk, 'sk) Node \<Rightarrow> proto_GetDataResponse go" where
  "GetData req n =
     go_bind (Blockchain_Get (Chain n) (pgd_BlockHash req)) (\<lambda>blk. Inr \<lparr>pgd_Block = Some (Block_Serialize blk)\<rparr>)"

definition SendAddresses_one :: "proto_Address \<Rightarrow> ('pk, 'sk) Node \<times> bool \<times> node_event list \<Rightarrow> ('pk, 'sk) Node \<times> bool \<times> node_event list" where
  "SendAddresses_one addr = (\<lambda>(n, foundNew, ev).
     if pa_Addr addr = n_Addr n then (n, foundNew, ev)
     else
       let r = length (addr_mem n);
           n = n\<lparr>addr_mem := addr_mem n @ [Address_New (pa_Addr addr) (pa_LastSeen addr)]\<rparr>;
           (n, foundNew) =
             (case PeerDb_Get (PeerDb n) (pa_Addr addr) of
                Some p \<Rightarrow>
                  if LastSeen (addr_mem n ! peer_Addr p) < pa_LastSeen addr
                  then (n\<lparr>addr_mem := fst (PeerDb_UpdateLastSeen (PeerDb n) (pa_Addr addr) (pa_LastSeen addr) (addr_mem n))\<rparr>, True)
                  else (n, foundNew)
              | None \<Rightarrow>
                  (case AddressDb_Get (AddrDb n) (pa_Addr addr) of
                     Some a \<Rightarrow>
                       if LastSeen (addr_mem n ! a) < pa_LastSeen addr
                       then (n\<lparr>addr_mem := fst (AddressDb_UpdateLastSeen (AddrDb n) (pa_Addr addr) (pa_LastSeen addr) (addr_mem n))\<rparr>, foundNew)
                       else (n, foundNew)
                   | None \<Rightarrow>
                       (case AddressDb_Add (addr_mem n) r (AddrDb n) of (adb, err) \<Rightarrow>
                          (n\<lparr>AddrDb := adb\<rparr>, if err = None then True else foundNew))))
       in (n, foundNew, ev @ [GoVersion r]))"

text \<open>
  The goroutine behind \<open>GoVersion r\<close>, for the new address object \<open>r\<close>; it reads the height and the node's address when it runs. The log line names the
  address the loop has moved on to, \<open>a\<close>.
\<close>

definition SendAddresses_go :: "rpc_outcome \<Rightarrow> int \<Rightarrow> string \<Rightarrow> nat \<Rightarrow> ('pk, 'sk) Node \<Rightarrow> ('pk, 'sk) node_result" where
  "SendAddresses_go out now a r n =
     (let addr = addr_Addr (addr_mem n ! r); ev = [RpcVersion addr (version_request n addr)]
      in case Address_VersionRPC out now r (addr_mem n) of (mem, err) \<Rightarrow>
           let n = n\<lparr>addr_mem := mem\<rparr>
           in if err then go_bind (no_response a n) (\<lambda>_. Inr (n, ev)) else Inr (n, ev))"

text \<open>\<open>outs a\<close> is how the call to the address \<open>a\<close> ends.\<close>

definition SendAddresses ::
    "(nat \<Rightarrow> nat) \<Rightarrow> (string list \<Rightarrow> string list) \<Rightarrow> (string \<Rightarrow> rpc_outcome) \<Rightarrow> string list \<Rightarrow> proto_Addresses \<Rightarrow> ('pk, 'sk) Node
     \<Rightarrow> ('pk, 'sk) node_result" where
  "SendAddresses capy shuffle outs ks req n =
     (case foldl (\<lambda>s addr. SendAddresses_one addr s) (n, False, []) (pas_Addrs req) of (n, foundNew, ev) \<Rightarrow>
        if \<not> foundNew then Inr (n, ev)
        else go_bind (GetRandom capy shuffle ks 2 [n_Addr n] (PeerDb n)) (\<lambda>bcPeers.
             go_bind (go_map (\<lambda>p. case p of
                 None \<Rightarrow> Inl NilDeref
               | Some p \<Rightarrow> go_bind (if SendAddressesRPC (outs (peer_addr n p)) = None then no_response (peer_addr n p) n else Inr ()) (\<lambda>_.
                   Inr (RpcSendAddresses (peer_addr n p) req))) bcPeers) (\<lambda>rpcs.
               Inr (n, ev @ rpcs))))"

definition GetAddresses :: "string list \<Rightarrow> ('pk, 'sk) Node \<Rightarrow> proto_Addresses" where
  "GetAddresses ks n = \<lparr>pas_Addrs = AddressDb_Serialize ks (addr_mem n) (AddrDb n)\<rparr>"

definition ForwardTransaction ::
    "('pk, 'sk) ecdsa \<Rightarrow> (byte list \<Rightarrow> byte list) \<Rightarrow> string list \<Rightarrow> proto_Transaction \<Rightarrow> ('pk, 'sk) Node
     \<Rightarrow> (('pk, 'sk) Node \<times> node_event list \<times> bool) go" where
  "ForwardTransaction ec H ks req n =
     (let t = Transaction_Deserialize req
      in if seen (TxMap n) (Transaction_Hash H t) then Inr (n, [], False)
         else go_bind (ChkTx ec H (MxBlkSz (n_Conf n)) (Chain n) (Some t)) (\<lambda>ok.
              go_bind (FmtAddr (n_Addr n)) (\<lambda>_.
              go_bind (Transaction_NameTag H t) (\<lambda>_.
                if \<not> ok then Inr (n, [], True)
                else let ev = (if HasMnr (MnrConf (n_Conf n)) then [GoMnrHndlTx t] else []);
                         n = n\<lparr>TxMap := gset (Transaction_Hash H t) True (TxMap n)\<rparr>
                     in Inr (n, ev @ map (\<lambda>p. RpcForwardTransaction (peer_addr n p) (Transaction_Serialize t))
                                     (PeerDb_List ks (PeerDb n)), False)))))"

definition ForwardBlock ::
    "('pk, 'sk) ecdsa \<Rightarrow> (byte list \<Rightarrow> byte list) \<Rightarrow> string list \<Rightarrow> proto_Block \<Rightarrow> ('pk, 'sk) Node
     \<Rightarrow> (('pk, 'sk) Node \<times> node_event list \<times> bool) go" where
  "ForwardBlock ec H ks req n =
     go_bind (Block_Deserialize req) (\<lambda>b.
       if seen (BlockMap n) (Block_Hash H b) then Inr (n, [], False)
       else let n = n\<lparr>BlockMap := gset (Block_Hash H b) True (BlockMap n)\<rparr>
            in go_bind (ChkBlk ec H (MxBlkSz (n_Conf n)) (Chain n) (Some b)) (\<lambda>ok.
                 if \<not> ok
                 then go_bind (FmtAddr (n_Addr n)) (\<lambda>_. go_bind (Block_NameTag H b) (\<lambda>_. Inr (n, [], True)))
                 else let mnChn = IsEndMainChain H (Chain n) b
                      in go_bind (Blockchain_Add H (Some b) (Chain n)) (\<lambda>bc.
                           let n = n\<lparr>Chain := bc\<rparr>;
                               ev = (if HasMnr (MnrConf (n_Conf n)) \<and> mnChn then [GoMnrHndlBlk b] else [])
                           in go_bind (if HasWt (WtConf (n_Conf n)) \<and> mnChn then safe_block n else Inr []) (\<lambda>wev.
                                Inr (n, ev @ wev @ map (\<lambda>p. RpcForwardBlock (peer_addr n p) (Block_Serialize b))
                                                   (PeerDb_List ks (PeerDb n)), False)))))"

end
