(* ===== verification/Node_Run.thy ===== *)
theory Node_Run
  imports Node
begin

text \<open>
  A node as a state machine. \<open>node_step\<close> relates a state to the next one for every handler of the node,
  for its goroutines (the miner's and the wallet's handlers) and for the goroutines that make the version calls, with arbitrary
  arguments: what peers send, the order of map iterations, clock readings and the interleaving of
  handlers are all free. \<open>nodeinv\<close> holds in every reachable state.

  The properties below cover what a node does with blocks and transactions it receives, what it answers, and
  which messages stop it.
\<close>

section \<open>Steps\<close>

inductive node_step :: "('pk, 'sk) ecdsa \<Rightarrow> (byte list \<Rightarrow> byte list) \<Rightarrow> ('pk, 'sk) Node \<Rightarrow> ('pk, 'sk) Node \<Rightarrow> bool" for ec H where
  step_start: "Node_Start listening host n = Inr (n', ev) \<Longrightarrow> node_step ec H n n'"
| step_recv: "Start_recv H ks r n = Inr (n', ev) \<Longrightarrow> node_step ec H n n'"
| step_start_mnr: "Node_StartMiner n = Inr (n', ev) \<Longrightarrow> node_step ec H n n'"
| step_boot: "Bootstrap H ks arrivals data n = Inr (n', ev, err) \<Longrightarrow> node_step ec H n n'"
| step_check: "peerCheck now addr n = (n', err) \<Longrightarrow> node_step ec H n n'"
| step_version: "Node_VersionHandler out now1 now2 now3 now4 req n = Inr (n', ev, err) \<Longrightarrow> node_step ec H n n'"
| step_addrs: "SendAddresses capy shuffle outs ks reqa n = Inr (n', ev) \<Longrightarrow> node_step ec H n n'"
| step_fwd_tx: "ForwardTransaction ec H ks reqt n = Inr (n', ev, err) \<Longrightarrow> node_step ec H n n'"
| step_fwd_blk: "ForwardBlock ec H ks reqb n = Inr (n', ev, err) \<Longrightarrow> node_step ec H n n'"
| step_request: "n_Wallet n = Some w \<Longrightarrow> range_order (last_utxo (Chain n)) ks
    \<Longrightarrow> HndlTxReq ec H ks draw txR w (Chain n) = Inr (w', bc', sent) \<Longrightarrow> node_step ec H n (n\<lparr>n_Wallet := Some w', Chain := bc'\<rparr>)"
| step_wt_blk: "n_Wallet n = Some w \<Longrightarrow> Wallet_HndlBlk H bo w = (w', sent) \<Longrightarrow> node_step ec H n (n\<lparr>n_Wallet := Some w'\<rparr>)"
| step_mnr_hndl_tx: "Mnr n = Some m \<Longrightarrow> Miner_HndlTx to m = Inr (m', mev) \<Longrightarrow> node_step ec H n (n\<lparr>Mnr := Some m'\<rparr>)"
| step_mnr_hndl_blk: "Mnr n = Some m \<Longrightarrow> Miner_HndlBlk H bo m = Inr (m', mev) \<Longrightarrow> node_step ec H n (n\<lparr>Mnr := Some m'\<rparr>)"
| step_mnr_op: "Mnr n = Some m \<Longrightarrow> op \<in> {Miner_Pause, Miner_Resume, Miner_Kill} \<Longrightarrow> op m = Inr (m', mev) \<Longrightarrow> node_step ec H n (n\<lparr>Mnr := Some m'\<rparr>)"
| step_mine: "Mnr n = Some m \<Longrightarrow> Mine_attempt H stop m = Some (Inr (m', mev)) \<Longrightarrow> node_step ec H n (n\<lparr>Mnr := Some m'\<rparr>)"
| step_go_version: "SendAddresses_go out now a r n = Inr (n', ev) \<Longrightarrow> node_step ec H n n'"

inductive node_reach :: "('pk, 'sk) ecdsa \<Rightarrow> (byte list \<Rightarrow> byte list) \<Rightarrow> ('pk, 'sk) n_Config \<Rightarrow> ('pk, 'sk) Node \<Rightarrow> bool" for ec H conf where
  reach_new: "Node_New ec H draw conf = Inr (Some n) \<Longrightarrow> node_reach ec H conf n"
| reach_step: "node_reach ec H conf n \<Longrightarrow> node_step ec H n n' \<Longrightarrow> node_reach ec H conf n'"

section \<open>Invariant\<close>

text \<open>A peer and the entry of the address database under its name are one address object.\<close>

definition shared_objs :: "EphemeralAddressDb \<Rightarrow> EphemeralPeerDb \<Rightarrow> bool" where
  "shared_objs adb pdb \<longleftrightarrow> (\<forall>k p. PeerDb_Get pdb k = Some p \<longrightarrow> AddressDb_Get adb k = Some (peer_Addr p))"

definition nodeinv :: "(byte list \<Rightarrow> byte list) \<Rightarrow> ('pk, 'sk) n_Config \<Rightarrow> ('pk, 'sk) Node \<Rightarrow> bool" where
  "nodeinv H conf n \<longleftrightarrow> n_Conf n = conf
     \<and> (\<exists>bs. chain_run H (ChainConf conf) bs (Chain n) \<and> (\<forall>b \<in> set bs. seen (BlockMap n) (Block_Hash H b)))
     \<and> addrs_ok (addr_mem n) (AddrDb n) \<and> ad_limit (AddrDb n) = 1000
     \<and> peers_ok (addr_mem n) (PeerDb n) \<and> pd_limit (PeerDb n) = 200 \<and> shared_objs (AddrDb n) (PeerDb n)"

lemma nodeinv_cong:
  assumes "nodeinv H conf n" "n_Conf n' = n_Conf n" "Chain n' = Chain n" "BlockMap n' = BlockMap n" "addr_mem n' = addr_mem n"
    "AddrDb n' = AddrDb n" "PeerDb n' = PeerDb n"
  shows "nodeinv H conf n'"
  using assms by (simp add: nodeinv_def)

lemma nodeinv_add:
  assumes "nodeinv H conf n" "Blockchain_Add H (Some b) (Chain n) = Inr bc"
    and "n_Conf n' = n_Conf n" "Chain n' = bc" "BlockMap n' = gset (Block_Hash H b) True (BlockMap n)" "addr_mem n' = addr_mem n"
    "AddrDb n' = AddrDb n" "PeerDb n' = PeerDb n"
  shows "nodeinv H conf n'"
proof -
  obtain bs where "chain_run H (ChainConf conf) bs (Chain n)" "\<forall>b \<in> set bs. seen (BlockMap n) (Block_Hash H b)"
    using assms(1) by (auto simp: nodeinv_def)
  with run_add [OF this(1) assms(2)] have "chain_run H (ChainConf conf) (bs @ [b]) bc"
    "\<forall>b' \<in> set (bs @ [b]). seen (gset (Block_Hash H b) True (BlockMap n)) (Block_Hash H b')" by auto
  with assms show ?thesis by (fastforce simp: nodeinv_def)
qed

lemma nodeinv_seen:
  assumes "nodeinv H conf n" "n_Conf n' = n_Conf n" "Chain n' = Chain n" "BlockMap n' = gset h True (BlockMap n)" "addr_mem n' = addr_mem n"
    "AddrDb n' = AddrDb n" "PeerDb n' = PeerDb n"
  shows "nodeinv H conf n'"
  using assms by (fastforce simp: nodeinv_def)

lemma nodeinv_chain:
  assumes "nodeinv H conf n" "\<And>bs. chain_run H (ChainConf conf) bs (Chain n) \<Longrightarrow> chain_run H (ChainConf conf) bs (Chain n')"
    and "n_Conf n' = n_Conf n" "BlockMap n' = BlockMap n" "addr_mem n' = addr_mem n" "AddrDb n' = AddrDb n"
    "peers (PeerDb n') = peers (PeerDb n)" "pd_limit (PeerDb n') = pd_limit (PeerDb n)"
  shows "nodeinv H conf n'"
  using assms by (fastforce simp: nodeinv_def peers_ok_def shared_objs_def PeerDb_Get_def)

lemma nodeinv_ext:
  assumes "nodeinv H conf n" "mem_ext (addr_mem n) mem"
  shows "nodeinv H conf (n\<lparr>addr_mem := mem\<rparr>)"
  using assms adb.ok_ext [OF _ assms(2)] pdb.ok_ext [OF _ assms(2)] by (simp add: nodeinv_def)

lemma HndlMnrBlk_inv: "nodeinv H conf n \<Longrightarrow> HndlMnrBlk H ks bo n = Inr (n', ev) \<Longrightarrow> nodeinv H conf n'"
  by (auto simp: HndlMnrBlk_def go_simps Let_def split: option.splits elim!: nodeinv_add)

lemma ForwardBlock_cases:
  assumes "ForwardBlock ec H ks req n = Inr (n', ev, err)"
  obtains b where "Block_Deserialize req = Inr b" "seen (BlockMap n) (Block_Hash H b)" "n' = n" "ev = []" "\<not> err"
  | b where "Block_Deserialize req = Inr b" "\<not> seen (BlockMap n) (Block_Hash H b)"
      "ChkBlk ec H (MxBlkSz (n_Conf n)) (Chain n) (Some b) = Inr False"
      "n' = n\<lparr>BlockMap := gset (Block_Hash H b) True (BlockMap n)\<rparr>" "ev = []" err
  | b bc where "Block_Deserialize req = Inr b" "\<not> seen (BlockMap n) (Block_Hash H b)"
      "ChkBlk ec H (MxBlkSz (n_Conf n)) (Chain n) (Some b) = Inr True" "Blockchain_Add H (Some b) (Chain n) = Inr bc"
      "n' = n\<lparr>BlockMap := gset (Block_Hash H b) True (BlockMap n), Chain := bc\<rparr>" "\<not> err"
proof -
  from assms obtain b where b: "Block_Deserialize req = Inr b" by (auto simp: ForwardBlock_def go_simps)
  consider (seen) "seen (BlockMap n) (Block_Hash H b)"
    | (new) ok where "\<not> seen (BlockMap n) (Block_Hash H b)" "ChkBlk ec H (MxBlkSz (n_Conf n)) (Chain n) (Some b) = Inr ok"
    using assms b by (fastforce simp: ForwardBlock_def go_simps Let_def split: if_splits)
  then show thesis
  proof cases
    case seen
    with assms b have "n' = n" "ev = []" "\<not> err" by (simp_all add: ForwardBlock_def go_simps)
    with b seen show thesis by (rule that(1))
  next
    case new
    show thesis
    proof (cases ok)
      case True
      with assms b new obtain bc where "Blockchain_Add H (Some b) (Chain n) = Inr bc"
        "n' = n\<lparr>BlockMap := gset (Block_Hash H b) True (BlockMap n), Chain := bc\<rparr>" "\<not> err"
        by (auto simp: ForwardBlock_def go_simps Let_def)
      with b new True show thesis by (intro that(3)) simp_all
    next
      case False
      with assms b new have "n' = n\<lparr>BlockMap := gset (Block_Hash H b) True (BlockMap n)\<rparr>" "ev = []" err
        by (auto simp: ForwardBlock_def go_simps Let_def)
      with b new False show thesis by (intro that(2)) simp_all
    qed
  qed
qed

lemma ForwardBlock_inv: "nodeinv H conf n \<Longrightarrow> ForwardBlock ec H ks req n = Inr (n', ev, err) \<Longrightarrow> nodeinv H conf n'"
  by (erule ForwardBlock_cases) (auto elim: nodeinv_seen nodeinv_add)

lemma HndlWtTx_inv: "nodeinv H conf n \<Longrightarrow> HndlWtTx H ks t n = Inr (n', ev) \<Longrightarrow> nodeinv H conf n'"
  by (auto simp: HndlWtTx_def go_simps Let_def elim!: nodeinv_cong)

lemma Start_recv_inv: "nodeinv H conf n \<Longrightarrow> Start_recv H ks r n = Inr (n', ev) \<Longrightarrow> nodeinv H conf n'"
  by (auto simp: Start_recv_def split: node_recv.splits if_splits elim: HndlMnrBlk_inv HndlWtTx_inv)

lemma ForwardTransaction_inv: "nodeinv H conf n \<Longrightarrow> ForwardTransaction ec H ks req n = Inr (n', ev, err) \<Longrightarrow> nodeinv H conf n'"
  by (auto simp: ForwardTransaction_def go_simps Let_def split: if_splits elim!: nodeinv_cong)

lemma Bootstrap_block_inv:
  assumes "nodeinv H conf (fst s)" "Bootstrap_block H orf pb s = Inr s'"
  shows "nodeinv H conf (fst s')"
proof -
  obtain n ev where s: "s = (n, ev)" by fastforce
  from assms(2) obtain pblk b bc where ops: "Option.bind pb pgd_Block = Some pblk" "Block_Deserialize pblk = Inr b" "Blockchain_Add H (Some b) (Chain n) = Inr bc"
    by (auto simp: Bootstrap_block_def s go_simps Let_def split: option.splits)
  let ?n = "n\<lparr>BlockMap := gset (Block_Hash H b) True (BlockMap n), Chain := bc\<rparr>"
  have inv: "nodeinv H conf ?n" by (rule nodeinv_add [OF assms(1) [unfolded s fst_conv] ops(3)]) simp_all
  have "fst s' = ?n \<or> (\<exists>m. fst s' = ?n\<lparr>Mnr := Some m\<rparr>)"
    using assms(2) ops by (auto simp: Bootstrap_block_def s go_simps Let_def split: option.splits if_splits)
  then show ?thesis using inv by (auto elim!: nodeinv_cong)
qed

lemma Bootstrap_inv: "nodeinv H conf n \<Longrightarrow> Bootstrap H ks arrivals data n = Inr (n', ev, err) \<Longrightarrow> nodeinv H conf n'"
proof -
  assume inv: "nodeinv H conf n" and b: "Bootstrap H ks arrivals data n = Inr (n', ev, err)"
  have "nodeinv H conf (fst s)" if "go_fold (\<lambda>h. Bootstrap_block H orf (pb h)) hs (n, []) = Inr s" for orf pb hs s
    using go_fold_inv [of "\<lambda>s. nodeinv H conf (fst s)" "\<lambda>h. Bootstrap_block H orf (pb h)", OF _ _ that]
      Bootstrap_block_inv inv by fastforce
  then show ?thesis using inv b
    by (fastforce simp: Bootstrap_def go_simps Let_def split: if_splits option.splits)
qed

lemma Node_Start_inv: "nodeinv H conf n \<Longrightarrow> Node_Start listening host n = Inr (n', ev) \<Longrightarrow> nodeinv H conf n'"
  by (erule nodeinv_chain)
    (auto simp: Node_Start_def go_simps Let_def PeerDb_SetAddr_def split: if_splits option.splits intro: run_addr)

lemma peerCheck_inv: "nodeinv H conf n \<Longrightarrow> peerCheck now addr n = (n', err) \<Longrightarrow> nodeinv H conf n'"
  by (auto simp: peerCheck_def split: option.splits intro!: nodeinv_ext pdb.touch_ext)

lemma nodeinv_dbs:
  assumes "nodeinv H conf n"
  shows "addrs_ok (addr_mem n) (AddrDb n)" "ad_limit (AddrDb n) = 1000" "peers_ok (addr_mem n) (PeerDb n)" "pd_limit (PeerDb n) = 200"
    "shared_objs (AddrDb n) (PeerDb n)"
  using assms by (simp_all add: nodeinv_def)

lemma nodeinv_AddrDb_Add:
  assumes "nodeinv H conf n" "r < length (addr_mem n)" "AddressDb_Add (addr_mem n) r (AddrDb n) = (adb, e)"
  shows "nodeinv H conf (n\<lparr>AddrDb := adb\<rparr>)"
proof -
  have "shared_objs adb (PeerDb n)"
    using assms(3) nodeinv_dbs(5) [OF assms(1)]
    by (fastforce simp: AddressDb_Add_def shared_objs_def AddressDb_Get_def split: option.splits if_splits)
  then show ?thesis using AddressDb_Add_ok [OF nodeinv_dbs(1) [OF assms(1)] assms(2,3)] assms(1) by (simp add: nodeinv_def)
qed

lemma nodeinv_PeerDb_Add:
  assumes "nodeinv H conf n" "AddressDb_Get (AddrDb n) k = Some (peer_Addr p)" "PeerDb_Add (addr_mem n) p (PeerDb n) = (pdb, b)"
  shows "nodeinv H conf (n\<lparr>PeerDb := pdb\<rparr>)"
proof -
  have p: "peer_Addr p < length (addr_mem n)" "addr_Addr (addr_mem n ! peer_Addr p) = k"
    using adb.lookup_ref [OF nodeinv_dbs(1) [OF assms(1)] assms(2)] by simp_all
  have "shared_objs (AddrDb n) pdb"
    using assms(2,3) p(2) nodeinv_dbs(5) [OF assms(1)]
    by (auto simp: PeerDb_Add_def shared_objs_def PeerDb_Get_def Let_def split: option.splits if_splits)
  then show ?thesis using PeerDb_Add_ok [OF nodeinv_dbs(3) [OF assms(1)] p(1) assms(3)] assms(1) by (simp add: nodeinv_def)
qed

lemma Version_peer_inv:
  assumes "nodeinv H conf n" "Version_peer out now2 now3 now4 r req n = Inr (n', ev, err)"
  shows "nodeinv H conf n'"
proof -
  from assms(2) obtain a where a: "AddressDb_Get (AddrDb n) (pvr_AddrMe req) = Some a"
    by (auto simp: Version_peer_def split: option.splits)
  obtain pdb b where pdb: "PeerDb_Add (addr_mem n) (Peer_New a (pvr_Version req) (pvr_BestHeight req)) (PeerDb n) = (pdb, b)" by fastforce
  have inv: "nodeinv H conf (n\<lparr>PeerDb := pdb\<rparr>)"
    by (rule nodeinv_PeerDb_Add [OF assms(1) _ pdb]) (use a in \<open>simp add: Peer_New_def\<close>)
  let ?mem = "(addr_mem n)[a := (addr_mem n ! a)\<lparr>SentVer := Some now3\<rparr>]"
  obtain mem e where mem: "Address_VersionRPC out now4 r ?mem = (mem, e)" by fastforce
  have "n' = n\<lparr>PeerDb := pdb\<rparr> \<or> n' = n\<lparr>PeerDb := pdb, addr_mem := mem\<rparr>"
    using assms(2) a pdb mem by (auto simp: Version_peer_def Let_def split: if_splits)
  moreover have "mem_ext (addr_mem n) mem"
    by (rule mem_ext_trans [OF mem_ext_update VersionRPC_ext [OF mem]]) simp
  ultimately show ?thesis using inv nodeinv_ext [OF inv, of mem] by auto
qed

lemma Node_VersionHandler_inv:
  assumes "nodeinv H conf n" "Node_VersionHandler out now1 now2 now3 now4 req n = Inr (n', ev, err)"
  shows "nodeinv H conf n'"
proof -
  let ?n = "n\<lparr>addr_mem := addr_mem n @ [Address_New (pvr_AddrMe req) (word_of_int now1)]\<rparr>"
  have inv: "nodeinv H conf ?n" by (rule nodeinv_ext [OF assms(1)]) simp
  obtain mem e where upd: "AddressDb_UpdateLastSeen (AddrDb ?n) (pvr_AddrMe req) (word_of_int now1) (addr_mem ?n) = (mem, e)" by fastforce
  obtain adb e' where add: "AddressDb_Add (addr_mem ?n) (length (addr_mem n)) (AddrDb ?n) = (adb, e')" by fastforce
  have "nodeinv H conf (?n\<lparr>addr_mem := mem\<rparr>)" using nodeinv_ext [OF inv adb.touch_ext] upd by (metis fst_conv)
  moreover have "nodeinv H conf (?n\<lparr>AddrDb := adb\<rparr>)" by (rule nodeinv_AddrDb_Add [OF inv _ add]) simp
  ultimately show ?thesis using assms upd add
    by (auto simp: Node_VersionHandler_def Let_def split: if_splits option.splits elim: Version_peer_inv)
qed

lemma SendAddresses_one_inv:
  assumes "nodeinv H conf (fst s)"
  shows "nodeinv H conf (fst (SendAddresses_one addr s))"
proof -
  obtain n f ev where s: "s = (n, f, ev)" by (cases s)
  let ?n = "n\<lparr>addr_mem := addr_mem n @ [Address_New (pa_Addr addr) (pa_LastSeen addr)]\<rparr>"
  have inv: "nodeinv H conf ?n" by (rule nodeinv_ext) (use assms s in simp_all)
  obtain m1 e1 where m1: "PeerDb_UpdateLastSeen (PeerDb n) (pa_Addr addr) (pa_LastSeen addr) (addr_mem ?n) = (m1, e1)" by fastforce
  obtain m2 e2 where m2: "AddressDb_UpdateLastSeen (AddrDb n) (pa_Addr addr) (pa_LastSeen addr) (addr_mem ?n) = (m2, e2)" by fastforce
  obtain adb e3 where m3: "AddressDb_Add (addr_mem ?n) (length (addr_mem n)) (AddrDb n) = (adb, e3)" by fastforce
  have "nodeinv H conf (?n\<lparr>addr_mem := m1\<rparr>)" "nodeinv H conf (?n\<lparr>addr_mem := m2\<rparr>)" "nodeinv H conf (?n\<lparr>AddrDb := adb\<rparr>)"
    using nodeinv_ext [OF inv, of m1] nodeinv_ext [OF inv, of m2] pdb.touch_ext [of "addr_mem ?n" "PeerDb n" "pa_Addr addr" "pa_LastSeen addr"] adb.touch_ext [of "addr_mem ?n" "AddrDb n" "pa_Addr addr" "pa_LastSeen addr"] m1 m2
      nodeinv_AddrDb_Add [OF inv, of "length (addr_mem n)" adb e3] m3 by simp_all
  with assms inv m1 m2 m3 show ?thesis
    by (simp add: SendAddresses_one_def s Let_def split: option.splits)
qed

lemma SendAddresses_inv: "nodeinv H conf n \<Longrightarrow> SendAddresses capy shuffle outs ks req n = Inr (n', ev) \<Longrightarrow> nodeinv H conf n'"
proof -
  assume inv: "nodeinv H conf n" and sa: "SendAddresses capy shuffle outs ks req n = Inr (n', ev)"
  have "nodeinv H conf (fst (foldl (\<lambda>s addr. SendAddresses_one addr s) s as))" if "nodeinv H conf (fst s)" for s as
    using that by (induction as arbitrary: s) (simp_all add: SendAddresses_one_inv)
  from this [of "(n, False, [])" "pas_Addrs req"] inv sa show ?thesis
    by (auto simp: SendAddresses_def go_simps split: prod.splits if_splits)
qed

lemma HndlTxReq_run:
  assumes "chain_run H conf bs bc" "range_order (last_utxo bc) ks" "HndlTxReq ec H ks draw txR w bc = Inr (w', bc', sent)"
  shows "chain_run H conf bs bc'"
proof (cases "req_Amt txR \<le> 0")
  case True
  then show ?thesis using assms by (simp add: HndlTxReq_def)
next
  case False
  with assms(3) obtain infos change ok where
    "GetUTXOForAmt ks (req_Amt txR + Fee txR) (hex_EncodeToString (GetPublicKeyBytes (wt_Id w))) bc = Inr (bc', infos, change, ok)"
    by (auto simp: HndlTxReq_def Let_def go_simps split: if_splits)
  with assms(1,2) show ?thesis by (rule run_reserve)
qed

lemma Node_New_inv: "Node_New ec H draw conf = Inr (Some n) \<Longrightarrow> nodeinv H conf n"
  by (auto simp: Node_New_def go_simps nodeinv_def AddressDb_New_def PeerDb_New_def addrs_ok_def peers_ok_def shared_objs_def PeerDb_Get_def
      intro!: exI [of _ "[]"] run_new split: option.splits if_splits)

lemma SendAddresses_go_mem:
  "SendAddresses_go out now a r n = Inr (n', ev) \<Longrightarrow> \<exists>mem err. Address_VersionRPC out now r (addr_mem n) = (mem, err) \<and> n' = n\<lparr>addr_mem := mem\<rparr>"
  by (auto simp: SendAddresses_go_def Let_def go_simps split: prod.splits if_splits)

lemmas handler_invs = Start_recv_inv Bootstrap_inv peerCheck_inv Node_VersionHandler_inv SendAddresses_inv
  ForwardTransaction_inv ForwardBlock_inv Node_Start_inv

lemma node_step_inv: "node_step ec H n n' \<Longrightarrow> nodeinv H conf n \<Longrightarrow> nodeinv H conf n'"
proof (induction rule: node_step.induct)
  case (step_start_mnr n n' ev)
  then obtain m where "n' = n\<lparr>Mnr := m\<rparr>" by (auto simp: Node_StartMiner_def go_simps split: option.splits)
  with step_start_mnr show ?case by (auto elim: nodeinv_cong)
next
  case (step_request n w ks draw txR w' bc' sent)
  then show ?case by (auto elim!: nodeinv_chain intro: HndlTxReq_run)
next
  case (step_go_version out now a r n n' ev)
  then show ?case by (auto dest!: SendAddresses_go_mem intro: nodeinv_ext VersionRPC_ext)
qed (auto elim: handler_invs nodeinv_cong)

lemma node_reach_inv: "node_reach ec H conf n \<Longrightarrow> nodeinv H conf n"
  by (induction rule: node_reach.induct) (auto intro: Node_New_inv node_step_inv)

section \<open>How the chain changes\<close>

text \<open>Whatever a node does, its chain changes by adding blocks; reservations and addresses leave the main chain alone.\<close>

definition adds_blocks :: "(byte list \<Rightarrow> byte list) \<Rightarrow> Blockchain \<Rightarrow> Blockchain \<Rightarrow> bool" where
  "adds_blocks H bc bc' \<longleftrightarrow> (\<exists>bs bc1. go_fold (\<lambda>b. Blockchain_Add H (Some b)) bs bc = Inr bc1 \<and> LastBlock bc' = LastBlock bc1)"

lemma adds_blocks_same: "LastBlock bc' = LastBlock bc \<Longrightarrow> adds_blocks H bc bc'"
  unfolding adds_blocks_def by (intro exI [of _ "[]"] exI [of _ bc]) simp

lemma adds_blocks_one: "Blockchain_Add H (Some b) bc = Inr bc' \<Longrightarrow> adds_blocks H bc bc'"
  unfolding adds_blocks_def by (intro exI [of _ "[b]"] exI [of _ bc']) simp

lemma Bootstrap_adds:
  assumes "Bootstrap H ks arrivals data n = Inr (n', ev, err)"
  shows "adds_blocks H (Chain n) (Chain n')"
proof -
  let ?P = "\<lambda>s. \<exists>bs. go_fold (\<lambda>b. Blockchain_Add H (Some b)) bs (Chain n) = Inr (Chain (fst s))"
  have "?P s'" if P: "?P s" and s': "Bootstrap_block H orf pb s = Inr s'" for orf pb s s'
  proof -
    obtain bs where bs: "go_fold (\<lambda>b. Blockchain_Add H (Some b)) bs (Chain n) = Inr (Chain (fst s))" using P by blast
    obtain b where "Blockchain_Add H (Some b) (Chain (fst s)) = Inr (Chain (fst s'))"
      using s' by (cases s) (auto simp: Bootstrap_block_def go_simps Let_def split: option.splits if_splits)
    with bs show ?thesis by (intro exI [of _ "bs @ [b]"]) (simp add: go_fold_append)
  qed
  then have "?P s'" if "go_fold (\<lambda>h. Bootstrap_block H orf (pb h)) hs (n, []) = Inr s'" for orf pb hs s'
    using go_fold_inv [of ?P "\<lambda>h. Bootstrap_block H orf (pb h)", OF _ _ that] by (fastforce intro: exI [of _ "[]"])
  with assms show ?thesis
    by (fastforce simp: Bootstrap_def adds_blocks_def go_simps Let_def split: if_splits option.splits intro: exI [of _ "[]"])
qed

lemma SendAddresses_chain:
  assumes "SendAddresses capy shuffle outs ks req n = Inr (n', ev)"
  shows "Chain n' = Chain n"
proof -
  have one: "Chain (fst (SendAddresses_one addr s)) = Chain (fst s)" for addr s
    by (cases s) (simp add: SendAddresses_one_def Let_def split: option.splits prod.splits)
  have "Chain (fst (foldl (\<lambda>s addr. SendAddresses_one addr s) s as)) = Chain (fst s)" for s as
    by (induction as arbitrary: s) (simp_all add: one)
  from this [of "(n, False, [])" "pas_Addrs req"] assms show ?thesis
    by (auto simp: SendAddresses_def go_simps split: prod.splits if_splits)
qed

lemma Version_chain:
  assumes "Node_VersionHandler out now1 now2 now3 now4 req n = Inr (n', ev, err)"
  shows "Chain n' = Chain n"
proof -
  have "Chain n'' = Chain n1" if "Version_peer out now2 now3 now4 r req n1 = Inr (n'', ev, err)" for r n1 and n'' :: "('a, 'b) Node"
    using that by (auto simp: Version_peer_def Let_def split: option.splits prod.splits if_splits)
  from this this [of _ "n\<lparr>addr_mem := m, AddrDb := a\<rparr>" for m a] assms show ?thesis
    by (fastforce simp: Node_VersionHandler_def Let_def split: option.splits prod.splits if_splits)
qed

lemma HndlTxReq_last:
  assumes "chain_run H conf bs bc" "range_order (last_utxo bc) ks" "HndlTxReq ec H ks draw txR w bc = Inr (w', bc', sent)"
  shows "LastBlock bc' = LastBlock bc"
  using assms(3) GetUTXOForAmt_inv [OF run_inv [OF assms(1)] assms(2)]
  by (auto simp: HndlTxReq_def Let_def go_simps split: if_splits)

lemma node_step_adds: "node_step ec H n n' \<Longrightarrow> nodeinv H conf n \<Longrightarrow> adds_blocks H (Chain n) (Chain n')"
proof (induction rule: node_step.induct)
  case (step_start listening host n n' ev)
  then show ?case by (intro adds_blocks_same) (auto simp: Node_Start_def Let_def go_simps split: option.splits if_splits)
next
  case (step_recv ks r n n' ev)
  then show ?case
    by (auto simp: Start_recv_def HndlMnrBlk_def HndlWtTx_def go_simps Let_def split: node_recv.splits option.splits if_splits
        intro: adds_blocks_same adds_blocks_one)
next
  case (step_start_mnr n n' ev)
  then show ?case by (intro adds_blocks_same) (auto simp: Node_StartMiner_def go_simps split: option.splits)
next
  case (step_fwd_blk ks reqb n n' ev err)
  from step_fwd_blk.hyps show ?case by (rule ForwardBlock_cases) (auto intro: adds_blocks_same adds_blocks_one)
next
  case (step_fwd_tx ks reqt n n' ev err)
  then show ?case by (intro adds_blocks_same) (auto simp: ForwardTransaction_def go_simps Let_def split: if_splits)
next
  case (step_request n w ks draw txR w' bc' sent)
  then show ?case by (auto simp: nodeinv_def intro!: adds_blocks_same dest: HndlTxReq_last)
next
  case (step_check now addr n n' err)
  then show ?case by (intro adds_blocks_same) (auto simp: peerCheck_def split: option.splits)
next
  case (step_version out now1 now2 now3 now4 req n n' ev err)
  then show ?case by (intro adds_blocks_same) (simp add: Version_chain)
next
  case (step_addrs capy shuffle outs ks reqa n n' ev)
  then show ?case by (intro adds_blocks_same) (simp add: SendAddresses_chain)
next
  case (step_go_version out now a r n n' ev)
  then show ?case by (intro adds_blocks_same) (auto dest!: SendAddresses_go_mem)
qed (auto intro: adds_blocks_same Bootstrap_adds)

lemma adds_blocks_chain:
  assumes "chain_inv H bc" "adds_blocks H bc bc'"
  shows "length (chain_of (LastBlock bc)) \<le> length (chain_of (LastBlock bc'))"
    and "length (chain_of (LastBlock bc')) \<le> length (chain_of (LastBlock bc)) \<Longrightarrow> chain_of (LastBlock bc') = chain_of (LastBlock bc)"
  using assms(2) bch.adds_length [OF assms(1)] bch.adds_same [OF assms(1)] unfolding adds_blocks_def by fastforce+

section \<open>A node without a wallet\<close>

text \<open>
  A node that is configured without a wallet ends when it starts: its receive loop evaluates the wallet's channel and dereferences nil,
  whatever it would receive.
\<close>

theorem walletless_node_panics:
  assumes "Node_New ec H draw conf = Inr (Some n)" "\<not> HasWt (WtConf conf)" "Node_Start listening host n = Inr (n', ev)"
  shows "GoReceive \<in> set ev \<and> recv_ready n' r \<and> Start_recv H ks r n' = Inl NilDeref"
proof -
  have n: "n_Wallet n = None" "n_Conf n = conf" using assms(1,2) by (auto simp: Node_New_def Wallet_New_def go_simps split: option.splits if_splits)
  have "n_Wallet n' = None" "GoReceive \<in> set ev"
    using assms(2,3) n by (auto simp: Node_Start_def Let_def go_simps split: option.splits if_splits)
  then show ?thesis by (simp add: recv_ready_def select_panics_def Start_recv_def)
qed

section \<open>Peers stay\<close>

lemma PeerDb_Add_stays: "PeerDb_Add mem p pdb = (pdb', b) \<Longrightarrow> PeerDb_Get pdb k \<noteq> None \<Longrightarrow> PeerDb_Get pdb' k \<noteq> None"
  by (auto simp: PeerDb_Add_def PeerDb_Get_def Let_def split: option.splits if_splits)

lemma Version_peer_stays:
  assumes "Version_peer out now2 now3 now4 r req n = Inr (n', ev, err)" "PeerDb_Get (PeerDb n) k \<noteq> None"
  shows "PeerDb_Get (PeerDb n') k \<noteq> None"
proof -
  from assms(1) obtain a where a: "AddressDb_Get (AddrDb n) (pvr_AddrMe req) = Some a" by (auto simp: Version_peer_def split: option.splits)
  obtain pdb b where pdb: "PeerDb_Add (addr_mem n) (Peer_New a (pvr_Version req) (pvr_BestHeight req)) (PeerDb n) = (pdb, b)" by fastforce
  have "PeerDb n' = pdb" using assms(1) a pdb by (auto simp: Version_peer_def Let_def split: if_splits prod.splits)
  then show ?thesis using PeerDb_Add_stays [OF pdb] assms(2) by simp
qed

lemma Node_VersionHandler_stays:
  assumes "Node_VersionHandler out now1 now2 now3 now4 req n = Inr (n', ev, err)" "PeerDb_Get (PeerDb n) k \<noteq> None"
  shows "PeerDb_Get (PeerDb n') k \<noteq> None"
proof -
  have "PeerDb_Get (PeerDb n') k \<noteq> None" if "Version_peer out now2 now3 now4 r req n1 = Inr (n', ev, err)" "PeerDb n1 = PeerDb n" for r and n1 :: "('a, 'b) Node"
    using Version_peer_stays [OF that(1)] that(2) assms(2) by simp
  with assms show ?thesis
    by (auto simp: Node_VersionHandler_def Let_def split: option.splits prod.splits if_splits)
qed

lemma Bootstrap_block_peers: "Bootstrap_block H orf pb s = Inr s' \<Longrightarrow> PeerDb (fst s') = PeerDb (fst s)"
  by (cases s) (auto simp: Bootstrap_block_def go_simps Let_def split: option.splits if_splits)

lemma Bootstrap_peers: "Bootstrap H ks arrivals data n = Inr (n', ev, err) \<Longrightarrow> PeerDb n' = PeerDb n"
proof -
  assume b: "Bootstrap H ks arrivals data n = Inr (n', ev, err)"
  have "PeerDb (fst s) = PeerDb n" if "go_fold (\<lambda>h. Bootstrap_block H orf (pb h)) hs (n, []) = Inr s" for orf pb hs s
    using go_fold_inv [of "\<lambda>s. PeerDb (fst s) = PeerDb n" "\<lambda>h. Bootstrap_block H orf (pb h)", OF _ _ that] Bootstrap_block_peers by fastforce
  then show ?thesis using b by (fastforce simp: Bootstrap_def go_simps Let_def split: if_splits option.splits)
qed

lemma SendAddresses_peers: "SendAddresses capy shuffle outs ks req n = Inr (n', ev) \<Longrightarrow> PeerDb n' = PeerDb n"
proof -
  assume r: "SendAddresses capy shuffle outs ks req n = Inr (n', ev)"
  have one: "PeerDb (fst (SendAddresses_one a s)) = PeerDb (fst s)" for a and s :: "('pk, 'sk) Node \<times> bool \<times> node_event list"
    by (cases s) (auto simp: SendAddresses_one_def Let_def split: option.splits prod.splits if_splits)
  have "PeerDb (fst (foldl (\<lambda>s a. SendAddresses_one a s) s as)) = PeerDb (fst s)" for as and s :: "('pk, 'sk) Node \<times> bool \<times> node_event list"
    by (induction as arbitrary: s) (simp_all add: one)
  from this [of "(n, False, [])" "pas_Addrs req"] r show ?thesis by (auto simp: SendAddresses_def go_simps split: prod.splits if_splits)
qed

lemma peer_stays: "node_step ec H n n' \<Longrightarrow> PeerDb_Get (PeerDb n) k \<noteq> None \<Longrightarrow> PeerDb_Get (PeerDb n') k \<noteq> None"
proof (induction rule: node_step.induct)
  case (step_start listening host n n' ev)
  then show ?case by (auto simp: Node_Start_def Let_def go_simps PeerDb_SetAddr_def PeerDb_Get_def split: option.splits if_splits)
next
  case (step_recv ks r n n' ev)
  then show ?case by (auto simp: Start_recv_def HndlMnrBlk_def HndlWtTx_def go_simps Let_def split: node_recv.splits option.splits if_splits)
next
  case (step_start_mnr n n' ev)
  then show ?case by (auto simp: Node_StartMiner_def go_simps split: option.splits)
next
  case (step_fwd_blk ks reqb n n' ev err)
  from step_fwd_blk.hyps show ?case by (rule ForwardBlock_cases) (use step_fwd_blk.prems in auto)
next
  case (step_fwd_tx ks reqt n n' ev err)
  then show ?case by (auto simp: ForwardTransaction_def go_simps Let_def split: if_splits)
next
  case (step_check now addr n n' err)
  then show ?case by (auto simp: peerCheck_def split: option.splits)
next
  case (step_version out now1 now2 now3 now4 req n n' ev err)
  then show ?case using Node_VersionHandler_stays by blast
next
  case (step_boot ks arrivals data n n' ev err)
  then show ?case by (simp add: Bootstrap_peers)
next
  case (step_addrs capy shuffle outs ks reqa n n' ev)
  then show ?case by (simp add: SendAddresses_peers)
next
  case (step_go_version out now a r n n' ev)
  then show ?case by (auto dest!: SendAddresses_go_mem)
qed simp_all

lemma peer_stays_later:
  "(node_step ec H)\<^sup>*\<^sup>* n n' \<Longrightarrow> PeerDb_Get (PeerDb n) k \<noteq> None \<Longrightarrow> PeerDb_Get (PeerDb n') k \<noteq> None"
  by (induction rule: rtranclp_induct) (use peer_stays in blast)+

lemma reach_later: "(node_step ec H)\<^sup>*\<^sup>* n n' \<Longrightarrow> node_reach ec H conf n \<Longrightarrow> node_reach ec H conf n'"
  by (induction rule: rtranclp_induct) (auto intro: reach_step)

end
