(* ===== verification/Relay.thy ===== *)
theory Relay
  imports Node_Run
begin

text \<open>
  What a node does with the blocks, transactions and requests of its peers: the invariant of reachable
  nodes, the outcomes of \<^verbatim>\<open>ForwardBlock\<close> and \<^verbatim>\<open>ForwardTransaction\<close>, and the answers of \<^verbatim>\<open>GetBlocks\<close> and
  \<^verbatim>\<open>GetData\<close>. All properties speak about the states of \<open>node_reach\<close>.
\<close>

section \<open>Reachable nodes\<close>

lemma run_blocks: "chain_run H conf bs bc \<Longrightarrow>
    set (chain_of (LastBlock bc)) \<subseteq> insert (gen_block conf) (set bs)
    \<and> (\<forall>h n. gget (blocks bc) h = Some n \<longrightarrow> set (chain_of n) \<subseteq> insert (gen_block conf) (set bs))"
proof (induction rule: chain_run.induct)
  case (run_new bc)
  then show ?case by (auto simp: Blockchain_New_eq split: if_splits)
next
  case (run_add bs bc b bc')
  from run_add.hyps(2) obtain p where p: "gget (blocks bc) (PrvBlkHsh (Hdr b)) = Some p"
    and bl: "blocks bc' = gset (Block_Hash H b) (BlockchainNode b (Some p) (utxo p) (depth p + 1)) (blocks bc)"
    and la: "LastBlock bc' = (if depth p + 1 > depth (LastBlock bc) then BlockchainNode b (Some p) (utxo p) (depth p + 1) else LastBlock bc)"
    by (rule Add_cases) simp
  have "A \<subseteq> insert (gen_block conf) (insert b (set bs))" if "A \<subseteq> insert (gen_block conf) (set bs)" for A using that by blast
  moreover have "set (chain_of p) \<subseteq> insert (gen_block conf) (set bs)" using run_add.IH p by blast
  ultimately show ?case using run_add.IH by (simp add: bl la)
next
  case (run_reserve bs bc ks amt pk bc' infos change ok)
  have "LastBlock bc' = LastBlock bc" "blocks bc' = blocks bc"
    using GetUTXOForAmt_inv [OF run_inv [OF run_reserve.hyps(1)] run_reserve.hyps(2,3)] by blast+
  with run_reserve show ?case by simp
qed simp

lemma reach_run:
  assumes "node_reach ec H conf n"
  obtains bs where "chain_run H (ChainConf conf) bs (Chain n)" "\<forall>b \<in> set bs. seen (BlockMap n) (Block_Hash H b)" "n_Conf n = conf"
  using node_reach_inv [OF assms] by (auto simp: nodeinv_def)

text \<open>
  C1: The invariant of a node. In every state a node can reach, whatever its peers send and in whatever order its
  handlers and goroutines run, the main chain is a linked list of blocks from the genesis block of its configuration; every block
  on it except the first is marked as seen; the node knows at most 1000 addresses and 200 peers; every
  peer is filed under the address the node calls it at, and shares its address object with the address database, so
  that what one of them learns about when an address was last seen holds for the other.
\<close>

theorem node_invariant:
  assumes "node_reach ec H conf n"
  shows "\<exists>chain. Blockchain_List (Chain n) = Inr chain \<and> hd chain = gen_block (ChainConf conf) \<and> linked H chain
      \<and> (\<forall>b \<in> set chain. b = gen_block (ChainConf conf) \<or> seen (BlockMap n) (Block_Hash H b))
      \<and> length (addresses (AddrDb n)) \<le> 1000 \<and> length (peers (PeerDb n)) \<le> 200
      \<and> (\<forall>k p. PeerDb_Get (PeerDb n) k = Some p \<longrightarrow> peer_addr n p = k \<and> AddressDb_Get (AddrDb n) k = Some (peer_Addr p))"
proof -
  obtain bs where run: "chain_run H (ChainConf conf) bs (Chain n)" and seen: "\<forall>b \<in> set bs. seen (BlockMap n) (Block_Hash H b)"
    by (rule reach_run [OF assms])
  note dbs = nodeinv_dbs [OF node_reach_inv [OF assms]]
  have "linked H (chain_of (LastBlock (Chain n)))" by (rule linked_chain_of [OF chain_inv_last(1) [OF run_inv [OF run]]])
  with run_list [OF run] run_root [OF run] run_blocks [OF run] seen dbs show ?thesis
    by (intro exI [of _ "chain_of (LastBlock (Chain n))"]) (auto simp: addrs_ok_def peers_ok_def shared_objs_def PeerDb_Get_def)
qed

text \<open>A node without a miner on the example chain, for witnesses.\<close>

definition demo_node_conf :: "(byte, byte) n_Config" where
  "demo_node_conf = (NoMnrConfig 5000)\<lparr>ChainConf := demo_conf, MxBlkSz := 1000\<rparr>"

definition demo_node0 :: "(byte, byte) Node" where
  "demo_node0 = \<lparr>n_Conf = demo_node_conf, n_Addr = [], n_Id = wt_Id (demo_wallet 0), Chain = demo_start,
     n_Wallet = Wallet_New wt_DefaultConfig (wt_Id (demo_wallet 0)), Mnr = None, addr_mem = [],
     AddrDb = AddressDb_New True 1000, PeerDb = PeerDb_New True 200 [], TxMap = [], BlockMap = []\<rparr>"

definition demo_node :: "(byte, byte) Node" where
  "demo_node = demo_node0\<lparr>BlockMap := [(num_hash 75, True)], Chain := demo_chain\<rparr>"

lemma demo_node0_reach: "node_reach echo_ecdsa length_digest demo_node_conf demo_node0"
proof (rule reach_new)
  have "Blockchain_New length_digest demo_conf = Inr demo_start" by (simp add: demo_start_def Blockchain_New_eq)
  then show "Node_New echo_ecdsa length_digest 0xaa demo_node_conf = Inr (Some demo_node0)"
    using demo_wallet_key(2) [of 0]
    by (simp add: Node_New_def demo_node_conf_def NoMnrConfig_def id_New_def Miner_New_def mnr_NilConfig_def demo_node0_def)
qed

lemma demo_node_step: "node_step echo_ecdsa length_digest demo_node0 demo_node"
proof -
  have "Blockchain_Length demo_chain = 2" by (simp add: demo_chain_eq demo_nodes Blockchain_Length_def)
  then have "length (Blockchain_Slice demo_chain (- 3) 2) = 2"
    by (simp add: Blockchain_Slice_def Slice_loop_chain [OF chain_inv_last(1) [OF run_inv [OF demo_chain_run]]])
      (simp add: demo_chain_eq demo_nodes)
  then have "Start_recv length_digest [] (RecvBlk (Some demo_b1)) demo_node0 = Inr (demo_node, [])"
    by (simp add: Start_recv_def select_panics_def Wallet_New_def mnr_NilConfig_def HndlMnrBlk_def demo_node0_def demo_node_def demo_chain_add demo_hash safe_block_def demo_node_conf_def
        NoMnrConfig_def wt_DefaultConfig_def \<open>Blockchain_Length demo_chain = 2\<close> PeerDb_List_def List.map_filter_def)
  then show ?thesis by (rule step_recv)
qed

lemma demo_node_reach: "node_reach echo_ecdsa length_digest demo_node_conf demo_node"
  by (rule reach_step [OF demo_node0_reach demo_node_step])

theorem node_invariant_witness:
  "\<exists>chain. Blockchain_List (Chain demo_node) = Inr chain \<and> linked length_digest chain
     \<and> (\<forall>b \<in> set chain. b = gen_block demo_conf \<or> seen (BlockMap demo_node) (Block_Hash length_digest b))"
  using node_invariant [OF demo_node_reach] by (auto simp: demo_node_conf_def)

text \<open>
  C4: The main chain of a node never gets shorter. No step of a reachable node makes its main chain shorter, and a step that does not make it
  longer leaves it as it is: of two branches of the same length the node keeps the one it had.
\<close>

theorem chain_never_shrinks:
  assumes "node_reach ec H conf n" "node_step ec H n n'"
  shows "Blockchain_Length (Chain n) \<le> Blockchain_Length (Chain n')
    \<and> (Blockchain_Length (Chain n') = Blockchain_Length (Chain n) \<longrightarrow> Blockchain_List (Chain n') = Blockchain_List (Chain n))"
proof -
  obtain bs where run: "chain_run H (ChainConf conf) bs (Chain n)" by (rule reach_run [OF assms(1)])
  obtain bs' where run': "chain_run H (ChainConf conf) bs' (Chain n')" by (rule reach_run [OF reach_step [OF assms]])
  have len: "Blockchain_Length (Chain n) = int (length (chain_of (LastBlock (Chain n))))"
      "Blockchain_Length (Chain n') = int (length (chain_of (LastBlock (Chain n'))))"
    using length_chain_of [OF chain_inv_last(1) [OF run_inv [OF run]]] length_chain_of [OF chain_inv_last(1) [OF run_inv [OF run']]]
    by (simp_all add: Blockchain_Length_def)
  have "adds_blocks H (Chain n) (Chain n')" by (rule node_step_adds [OF assms(2) node_reach_inv [OF assms(1)]])
  from adds_blocks_chain [OF run_inv [OF run] this] show ?thesis
    using run_list [OF run] run_list [OF run'] by (auto simp: len)
qed

theorem chain_never_shrinks_witness: "Blockchain_Length (Chain demo_node0) \<le> Blockchain_Length (Chain demo_node)"
  using chain_never_shrinks [OF demo_node0_reach demo_node_step] by blast

section \<open>Blocks\<close>

lemma Add_known:
  assumes "chain_run H conf bs bc"
  shows "(\<exists>bc'. Blockchain_Add H (Some b) bc = Inr bc') \<longleftrightarrow> IndexOf bc (PrvBlkHsh (Hdr b)) \<noteq> - 1"
    and "IndexOf bc (PrvBlkHsh (Hdr b)) = - 1 \<Longrightarrow> Blockchain_Add H (Some b) bc = Inl NilDeref"
proof -
  have "depth n \<noteq> - 1" if "gget (blocks bc) h = Some n" for h n
    using length_chain_of [OF chain_inv_node(2) [OF run_inv [OF assms] that]] by (cases "chain_of n") auto
  then show "(\<exists>bc'. Blockchain_Add H (Some b) bc = Inr bc') \<longleftrightarrow> IndexOf bc (PrvBlkHsh (Hdr b)) \<noteq> - 1"
    and "IndexOf bc (PrvBlkHsh (Hdr b)) = - 1 \<Longrightarrow> Blockchain_Add H (Some b) bc = Inl NilDeref"
    by (auto simp: Blockchain_Add_def IndexOf_def Let_def split: option.splits)
qed

lemma safe_block_ok: "SafeBlkAmt (WtConf (n_Conf n)) \<noteq> 0 \<Longrightarrow> \<exists>ev. safe_block n = Inr ev"
  by (auto simp: safe_block_def Let_def split: list.splits)

lemma ForwardBlock_accept:
  assumes "Block_Deserialize req = Inr b" "\<not> seen (BlockMap n) (Block_Hash H b)"
    and "ChkBlk ec H (MxBlkSz (n_Conf n)) (Chain n) (Some b) = Inr True"
    and "Blockchain_Add H (Some b) (Chain n) = Inr bc" "SafeBlkAmt (WtConf (n_Conf n)) \<noteq> 0"
  defines "n' \<equiv> n\<lparr>BlockMap := gset (Block_Hash H b) True (BlockMap n), Chain := bc\<rparr>"
  shows "\<exists>ev. ForwardBlock ec H ks req n = Inr (n', ev, False)
    \<and> (\<forall>p \<in> set (PeerDb_List ks (PeerDb n)). RpcForwardBlock (peer_addr n p) (Block_Serialize b) \<in> set ev)
    \<and> (HasMnr (MnrConf (n_Conf n)) \<and> IsEndMainChain H (Chain n) b \<longrightarrow> GoMnrHndlBlk b \<in> set ev)"
proof -
  obtain wev where "safe_block n' = Inr wev" using safe_block_ok [of n'] assms(5) by (auto simp: n'_def)
  then show ?thesis using assms by (auto simp: ForwardBlock_def Let_def)
qed

text \<open>
  C20: What becomes of a block a peer forwards. In a reachable node, with a safe depth that is not zero: a block that was
  seen before is ignored; a new block that the checks accept and whose parent is known is added to the chain and sent on to
  every peer, and to the miner when it extends the main chain, and delivering it again changes nothing and
  sends nothing; a new block that the checks reject leaves the chain as it was, and is not sent on.
\<close>

theorem ForwardBlock_outcomes:
  assumes "node_reach ec H conf n" "Block_Deserialize req = Inr b" "SafeBlkAmt (WtConf conf) \<noteq> 0"
  shows "(seen (BlockMap n) (Block_Hash H b) \<longrightarrow> ForwardBlock ec H ks req n = Inr (n, [], False))
   \<and> (\<not> seen (BlockMap n) (Block_Hash H b) \<and> ChkBlk ec H (MxBlkSz conf) (Chain n) (Some b) = Inr True
        \<and> IndexOf (Chain n) (PrvBlkHsh (Hdr b)) \<noteq> - 1 \<longrightarrow>
      (\<exists>n' ev. ForwardBlock ec H ks req n = Inr (n', ev, False) \<and> Blockchain_Add H (Some b) (Chain n) = Inr (Chain n')
         \<and> (\<forall>p \<in> set (PeerDb_List ks (PeerDb n)). RpcForwardBlock (peer_addr n p) (Block_Serialize b) \<in> set ev)
         \<and> (HasMnr (MnrConf conf) \<and> IsEndMainChain H (Chain n) b \<longrightarrow> GoMnrHndlBlk b \<in> set ev)
         \<and> ForwardBlock ec H ks' req n' = Inr (n', [], False)))
   \<and> (\<not> seen (BlockMap n) (Block_Hash H b) \<and> ChkBlk ec H (MxBlkSz conf) (Chain n) (Some b) = Inr False
        \<and> ForwardBlock ec H ks req n = Inr (n', ev, err) \<longrightarrow> Chain n' = Chain n \<and> ev = [] \<and> err)"
proof (intro conjI impI)
  note conf = node_reach_inv [OF assms(1), unfolded nodeinv_def, THEN conjunct1]
  assume acc: "\<not> seen (BlockMap n) (Block_Hash H b) \<and> ChkBlk ec H (MxBlkSz conf) (Chain n) (Some b) = Inr True
        \<and> IndexOf (Chain n) (PrvBlkHsh (Hdr b)) \<noteq> - 1"
  obtain bs where "chain_run H (ChainConf conf) bs (Chain n)" by (rule reach_run [OF assms(1)])
  with acc obtain bc where bc: "Blockchain_Add H (Some b) (Chain n) = Inr bc" using Add_known(1) by blast
  obtain ev where "ForwardBlock ec H ks req n = Inr (n\<lparr>BlockMap := gset (Block_Hash H b) True (BlockMap n), Chain := bc\<rparr>, ev, False)"
    "\<forall>p \<in> set (PeerDb_List ks (PeerDb n)). RpcForwardBlock (peer_addr n p) (Block_Serialize b) \<in> set ev"
    "HasMnr (MnrConf conf) \<and> IsEndMainChain H (Chain n) b \<longrightarrow> GoMnrHndlBlk b \<in> set ev"
    using ForwardBlock_accept [OF assms(2) _ _ bc, of ec ks] acc assms(3) conf by auto
  moreover have "ForwardBlock ec H ks' req (n\<lparr>BlockMap := gset (Block_Hash H b) True (BlockMap n), Chain := bc\<rparr>)
      = Inr (n\<lparr>BlockMap := gset (Block_Hash H b) True (BlockMap n), Chain := bc\<rparr>, [], False)"
    by (simp add: ForwardBlock_def assms(2))
  ultimately show "\<exists>n' ev. ForwardBlock ec H ks req n = Inr (n', ev, False) \<and> Blockchain_Add H (Some b) (Chain n) = Inr (Chain n')
         \<and> (\<forall>p \<in> set (PeerDb_List ks (PeerDb n)). RpcForwardBlock (peer_addr n p) (Block_Serialize b) \<in> set ev)
         \<and> (HasMnr (MnrConf conf) \<and> IsEndMainChain H (Chain n) b \<longrightarrow> GoMnrHndlBlk b \<in> set ev)
         \<and> ForwardBlock ec H ks' req n' = Inr (n', [], False)"
    using bc by (intro exI [of _ "n\<lparr>BlockMap := gset (Block_Hash H b) True (BlockMap n), Chain := bc\<rparr>"] exI [of _ ev]) simp
next
  note conf = node_reach_inv [OF assms(1), unfolded nodeinv_def, THEN conjunct1]
  assume rej: "\<not> seen (BlockMap n) (Block_Hash H b) \<and> ChkBlk ec H (MxBlkSz conf) (Chain n) (Some b) = Inr False
        \<and> ForwardBlock ec H ks req n = Inr (n', ev, err)"
  then have "Chain n' = Chain n \<and> ev = [] \<and> err" using assms(2) conf by (auto elim!: ForwardBlock_cases)
  then show "Chain n' = Chain n" "ev = []" err by simp_all
qed (simp add: ForwardBlock_def assms(2))

lemma demo_node_fields:
  "n_Conf demo_node = demo_node_conf" "Chain demo_node = demo_chain" "BlockMap demo_node = [(num_hash 75, True)]" "TxMap demo_node = []"
  "n_Addr demo_node = []" "PeerDb demo_node = PeerDb_New True 200 []" "MxBlkSz demo_node_conf = 1000" "SafeBlkAmt (WtConf demo_node_conf) = 5"
  "MnrConf demo_node_conf = mnr_NilConfig (- 1)"
  by (simp_all add: demo_node_def demo_node0_def demo_node_conf_def NoMnrConfig_def wt_DefaultConfig_def)

abbreviation demo_relayed :: Block where
  "demo_relayed \<equiv> demo_blk (num_hash 75) [demo_cb 0 0 ''bb'' 5, demo_pay 9 8]"

lemma demo_relayed_wire: "Block_Deserialize (Block_Serialize demo_relayed) = Inr demo_relayed"
  by (simp add: Block_Deserialize_Serialize) (simp add: demo_blk_def demo_cb_def demo_pay_def clear_liminal_def)

lemma demo_relayed_hash: "Block_Hash length_digest demo_relayed = num_hash 140"
  by (simp add: Block_Hash_def utils_Hash_def length_digest_def num_hash_def hex_Encode_inj demo_blk_def Header_fmt_def easy_target_def eval_simps)

theorem ForwardBlock_outcomes_witness:
  "\<exists>n' ev. ForwardBlock echo_ecdsa length_digest [] (Block_Serialize demo_relayed) demo_node = Inr (n', ev, False)
     \<and> Blockchain_Add length_digest (Some demo_relayed) demo_chain = Inr (Chain n')
     \<and> ForwardBlock echo_ecdsa length_digest [] (Block_Serialize demo_relayed) n' = Inr (n', [], False)"
proof -
  have "IndexOf demo_chain (PrvBlkHsh (Hdr demo_relayed)) \<noteq> - 1"
    by (simp add: demo_blk_def IndexOf_def demo_chain_eq demo_nodes)
  then show ?thesis
    using ForwardBlock_outcomes [OF demo_node_reach demo_relayed_wire] demo_blk_ok
    by (simp add: demo_node_fields demo_relayed_hash) blast
qed

text \<open>
  C32: One block from a peer stops a node. For a digest of 32 bytes: a block the node has not seen, that holds nothing but a coinbase of an amount other than zero, whose
  sizes are within the node's limit, that brings the target of 33 bytes of ones along and names a parent the node does not know, is accepted by \<open>ChkBlk\<close>; adding
  it dereferences the missing parent, and the program ends.
\<close>

theorem orphan_block_panics:
  assumes "node_reach ec H conf n" "\<And>v. length (H v) = 32"
    and "Block_Deserialize req = Inr b" "\<not> seen (BlockMap n) (Block_Hash H b)" "IndexOf (Chain n) (PrvBlkHsh (Hdr b)) = - 1"
    and "Transactions b = [cb]" "IsCoinbase cb" "SumOutputs cb \<noteq> 0" "Transaction_Sz cb \<le> MxBlkSz conf" "Block_Sz b \<le> MxBlkSz conf"
    and "DiffTarg (Hdr b) = easy_target"
  shows "ChkBlk ec H (MxBlkSz conf) (Chain n) (Some b) = Inr True \<and> ForwardBlock ec H ks req n = Inl NilDeref"
proof -
  obtain bs where run: "chain_run H (ChainConf conf) bs (Chain n)" and conf: "n_Conf n = conf" by (rule reach_run [OF assms(1)])
  have "SatisfiesPOW H b easy_target" using assms(2) by (simp add: easy_target_POW)
  then have chk: "ChkBlk ec H (MxBlkSz conf) (Chain n) (Some b) = Inr True"
    using input_ok_ChkChains [OF run, of "[]"] assms(6-) by (simp add: ChkBlk_iff)
  with Add_known(2) [OF run assms(5)] show ?thesis by (simp add: ForwardBlock_def assms(3,4) conf)
qed

theorem orphan_block_panics_witness:
  "ForwardBlock echo_ecdsa length_digest [] (Block_Serialize (demo_blk ''?'' [demo_cb 0 0 ''bb'' 5])) demo_node = Inl NilDeref"
proof -
  let ?b = "demo_blk ''?'' [demo_cb 0 0 ''bb'' 5]"
  have "Block_Deserialize (Block_Serialize ?b) = Inr ?b"
    by (simp add: Block_Deserialize_Serialize) (simp add: demo_blk_def demo_cb_def clear_liminal_def)
  moreover have "Block_Hash length_digest ?b = num_hash 77"
    by (simp add: Block_Hash_def utils_Hash_def length_digest_def num_hash_def hex_Encode_inj demo_blk_def Header_fmt_def easy_target_def eval_simps)
  moreover have "''?'' \<noteq> num_hash k" for k by (rule notI, drule arg_cong [of _ _ length]) (simp add: num_hash_def)
  then have "IndexOf demo_chain ''?'' = - 1" by (simp add: IndexOf_def demo_chain_eq)
  moreover have "Transaction_Sz (demo_cb 0 0 ''bb'' 5) = 28" by (simp add: Transaction_Sz_eq demo_cb_def)
  ultimately show ?thesis
    using orphan_block_panics [OF demo_node_reach length_length_digest, of _ ?b "demo_cb 0 0 ''bb'' 5"]
    by (simp add: demo_node_fields demo_blk_sz) (simp add: demo_blk_def demo_cb_def IsCoinbase_def SumOutputs_def)
qed

section \<open>Transactions\<close>

text \<open>
  C21: What becomes of a transaction a peer forwards. In a reachable node whose own address can be printed, for a digest
  of 32 bytes: a transaction seen before is ignored; a new one that \<open>ChkTx\<close> accepts goes to the miner, if there is one, and to every
  peer, the chain stays as it is, and delivering it again sends nothing; a new one that \<open>ChkTx\<close> rejects is
  answered with an error and leaves no trace, so that it may be accepted later.
\<close>

theorem ForwardTransaction_outcomes:
  assumes "node_reach ec H conf n" "\<And>v. length (H v) = 32" "FmtAddr (n_Addr n) = Inr a"
    and t: "Transaction_Deserialize req = t"
  shows "(seen (TxMap n) (Transaction_Hash H t) \<longrightarrow> ForwardTransaction ec H ks req n = Inr (n, [], False))
   \<and> (\<not> seen (TxMap n) (Transaction_Hash H t) \<and> ChkTx ec H (MxBlkSz conf) (Chain n) (Some t) = Inr True \<longrightarrow>
      (\<exists>n'. ForwardTransaction ec H ks req n = Inr (n', (if HasMnr (MnrConf conf) then [GoMnrHndlTx t] else [])
             @ map (\<lambda>p. RpcForwardTransaction (peer_addr n p) req) (PeerDb_List ks (PeerDb n)), False)
         \<and> Chain n' = Chain n \<and> ForwardTransaction ec H ks' req n' = Inr (n', [], False)))
   \<and> (\<not> seen (TxMap n) (Transaction_Hash H t) \<and> ChkTx ec H (MxBlkSz conf) (Chain n) (Some t) = Inr False \<longrightarrow>
      ForwardTransaction ec H ks req n = Inr (n, [], True))"
proof -
  have conf: "n_Conf n = conf" using node_reach_inv [OF assms(1)] by (simp add: nodeinv_def)
  obtain s where "Transaction_NameTag H t = Inr s" using NameTag_ok [of H t, OF assms(2)] by blast
  then show ?thesis using assms(3)
    using Transaction_Serialize_Deserialize [of req] by (auto simp: ForwardTransaction_def t conf Let_def)
qed

theorem ForwardTransaction_outcomes_witness:
  "ForwardTransaction echo_ecdsa length_digest [] (Transaction_Serialize (demo_pay 9 0)) demo_node = Inr (demo_node, [], True)
   \<and> (\<exists>n'. ForwardTransaction echo_ecdsa length_digest [] (Transaction_Serialize (demo_pay 9 8)) demo_node = Inr (n', [], False))"
proof -
  have w: "Transaction_Deserialize (Transaction_Serialize (demo_pay c a)) = demo_pay c a" for c a
    by (simp add: Transaction_Deserialize_Serialize) (simp add: demo_pay_def demo_cb_def clear_liminal_def)
  have "ChkTx echo_ecdsa length_digest 1000 demo_chain (Some (demo_pay 9 0)) = Inr False"
    by (simp add: ChkTx_def demo_pay_fields)
  then show ?thesis
    using ForwardTransaction_outcomes [OF demo_node_reach length_length_digest _ w, of _ 9 0 "[]"]
      ForwardTransaction_outcomes [OF demo_node_reach length_length_digest _ w, of _ 9 8 "[]"] demo_pay_ok [of 8 9]
    by (auto simp: demo_node_fields FmtAddr_def PeerDb_List_def List.map_filter_def mnr_NilConfig_def)
qed

section \<open>Queries\<close>

lemma GetBlocks_eq:
  assumes "node_reach ec H conf n" "Blockchain_List (Chain n) = Inr chain"
  shows "GetBlocks H req n = \<lparr>pgr_BlockHashes =
     (if IndexOf (Chain n) (pgb_TopBlockHash req) = - 1 then []
      else map (Block_Hash H) (take 499 (drop (nat (IndexOf (Chain n) (pgb_TopBlockHash req)) + 1) chain)))\<rparr>"
proof -
  obtain bs where run: "chain_run H (ChainConf conf) bs (Chain n)" by (rule reach_run [OF assms(1)])
  let ?i = "IndexOf (Chain n) (pgb_TopBlockHash req)"
  have chain: "chain = chain_of (LastBlock (Chain n))" using assms(2) run_list [OF run] by simp
  have len: "Blockchain_Length (Chain n) = int (length chain)"
    using length_chain_of [OF chain_inv_last(1) [OF run_inv [OF run]]] by (simp add: Blockchain_Length_def chain)
  show ?thesis
  proof (cases "?i = - 1")
    case False
    then obtain m where m: "gget (blocks (Chain n)) (pgb_TopBlockHash req) = Some m" by (auto simp: IndexOf_def split: option.splits)
    have "0 \<le> ?i" using length_chain_of [OF chain_inv_node(2) [OF run_inv [OF run] m]] by (cases "chain_of m") (auto simp: IndexOf_def m)
    moreover have "?i < int (length chain)" using chain_inv_node(4) [OF run_inv [OF run] m] len by (simp add: IndexOf_def m Blockchain_Length_def)
    moreover have "Blockchain_Slice (Chain n) s e = drop (nat s) (take (nat e) chain)" for s e
      using Slice_loop_chain [OF chain_inv_last(1) [OF run_inv [OF run]], of s e "[]"] by (simp add: Blockchain_Slice_def chain)
    moreover have "drop (k + 1) (take (k + 500) chain) = take 499 (drop (k + 1) chain)" for k by (simp add: drop_take)
    ultimately show ?thesis using False by (auto simp: GetBlocks_def Let_def len nat_add_distrib)
  qed (simp add: GetBlocks_def Let_def)
qed

text \<open>
  The answer to \<^verbatim>\<open>GetBlocks\<close>. In a reachable node the answer lists the hashes of the main chain after the
  index of the given block, in order, and at most 499 of them (the comment says 500). The index is the height of the block, whether it is on the
  main chain or on a fork; an unknown hash gives an empty answer, and so does the last block.
\<close>

theorem GetBlocks_window:
  assumes "node_reach ec H conf n" "Blockchain_List (Chain n) = Inr chain"
  shows "GetBlocks H req n = \<lparr>pgr_BlockHashes =
     (if IndexOf (Chain n) (pgb_TopBlockHash req) = - 1 then []
      else map (Block_Hash H) (take 499 (drop (nat (IndexOf (Chain n) (pgb_TopBlockHash req)) + 1) chain)))\<rparr>"
  by (rule GetBlocks_eq [OF assms])

theorem GetBlocks_window_witness:
  "GetBlocks length_digest \<lparr>pgb_TopBlockHash = num_hash 10, pgb_AddrMe = []\<rparr> demo_node = \<lparr>pgr_BlockHashes = [num_hash 75]\<rparr>"
proof -
  have "Blockchain_List (Chain demo_node) = Inr [gen_block demo_conf, demo_b1]"
    by (simp add: demo_node_fields run_list [OF demo_chain_run]) (simp add: demo_chain_eq demo_nodes)
  from GetBlocks_window [OF demo_node_reach this] show ?thesis
    by (simp add: demo_node_fields IndexOf_def) (simp add: demo_chain_eq demo_nodes demo_hash)
qed

end
