(* ===== verification/Handshake.thy ===== *)
theory Handshake
  imports Relay
begin

text \<open>
  How nodes become peers: the \<^verbatim>\<open>Version\<close> handler, the handshake between two nodes, and what an address that
  cannot be printed does to a node that has it among its peers.
\<close>

section \<open>Registration\<close>

text \<open>The state after a first version request from a new address.\<close>

definition registered :: "rpc_outcome \<Rightarrow> int \<Rightarrow> int \<Rightarrow> int \<Rightarrow> proto_VersionRequest \<Rightarrow> ('pk, 'sk) Node \<Rightarrow> ('pk, 'sk) Node" where
  "registered out now1 now3 now4 req n =
     n\<lparr>AddrDb := (AddrDb n)\<lparr>addresses := gset (pvr_AddrMe req) (length (addr_mem n)) (addresses (AddrDb n))\<rparr>,
       PeerDb := (PeerDb n)\<lparr>peers := gset (pvr_AddrMe req) (Peer_New (length (addr_mem n)) (pvr_Version req) (pvr_BestHeight req)) (peers (PeerDb n))\<rparr>,
       addr_mem := addr_mem n @ [\<lparr>addr_Addr = pvr_AddrMe req, LastSeen = word_of_int now1,
          SentVer = Some (if out = NoConnection then now3 else now4)\<rparr>]\<rparr>"

lemma VersionRPC_last:
  "Address_VersionRPC out now (length mem) (mem @ [a]) = (mem @ [if out = NoConnection then a else a\<lparr>SentVer := Some now\<rparr>], out \<noteq> RpcReply)"
  by (simp add: Address_VersionRPC_def split: rpc_outcome.splits)

lemma Version_first:
  assumes "int (unat (pvr_Version req)) = n_Version (n_Conf n)"
    and "gget (addresses (AddrDb n)) (pvr_AddrMe req) = None" "gget (peers (PeerDb n)) (pvr_AddrMe req) = None"
    and "int (length (addresses (AddrDb n))) < ad_limit (AddrDb n)" "int (length (peers (PeerDb n))) < pd_limit (PeerDb n)"
  shows "Node_VersionHandler out now1 now2 now3 now4 req n =
    Inr (registered out now1 now3 now4 req n, [RpcVersion (pvr_AddrMe req) (version_request n (pvr_AddrMe req))], out \<noteq> RpcReply)"
  using assms
  by (simp add: Node_VersionHandler_def Version_peer_def Let_def AddressDb_Get_def AddressDb_Add_def PeerDb_Add_def Peer_New_def
      Address_New_def registered_def version_request_def VersionRPC_last list_update_append)

lemma Version_again:
  assumes "gget (addresses (AddrDb n)) (pvr_AddrMe req) = Some a" "gget (peers (PeerDb n)) (pvr_AddrMe req) = Some p" "peer_Addr p = a"
    and "a < length (addr_mem n)" "addr_Addr (addr_mem n ! a) = pvr_AddrMe req"
  shows "\<exists>n'. Node_VersionHandler out now1 now2 now3 now4 req n = Inr (n', [], False) \<and> PeerDb n' = PeerDb n \<and> Chain n' = Chain n"
  using assms
  by (simp add: Node_VersionHandler_def Version_peer_def Let_def AddressDb_Get_def AddressDb_UpdateLastSeen_def PeerDb_Add_def Peer_New_def
      nth_append list_update_append)

text \<open>A node that has the sender of a version request among its peers does not answer with a request of its own.\<close>

lemma Version_known:
  assumes "node_reach ec H conf n" "PeerDb_Get (PeerDb n) (pvr_AddrMe req) \<noteq> None"
  shows "\<exists>n'. Node_VersionHandler out now1 now2 now3 now4 req n = Inr (n', [], False)"
proof -
  note dbs = nodeinv_dbs [OF node_reach_inv [OF assms(1)]]
  obtain p where p: "PeerDb_Get (PeerDb n) (pvr_AddrMe req) = Some p" using assms(2) by blast
  then have a: "AddressDb_Get (AddrDb n) (pvr_AddrMe req) = Some (peer_Addr p)" using dbs(5) by (simp add: shared_objs_def)
  from adb.lookup_ref [OF dbs(1) a] p a show ?thesis
    using Version_again [of n req "peer_Addr p" p out now1 now2 now3 now4] by (auto simp: AddressDb_Get_def PeerDb_Get_def)
qed

text \<open>
  C25: Becoming a peer. A version request of another version is ignored. In a reachable node that is not full, a first
  request from a new address files the sender as a peer at that address with the height it announced, and is answered with one
  version request to that address, whether or not that call succeeds. From then on, whatever the node does in between, no version request from that
  address makes it send anything. So two nodes do not answer each other for ever.
\<close>

theorem Version_registers:
  assumes "node_reach ec H conf n"
  shows "(int (unat (pvr_Version req)) \<noteq> n_Version conf \<longrightarrow> Node_VersionHandler out t1 t2 t3 t4 req n = Inr (n, [], False))
   \<and> (int (unat (pvr_Version req)) = n_Version conf \<and> AddressDb_Get (AddrDb n) (pvr_AddrMe req) = None
        \<and> PeerDb_Get (PeerDb n) (pvr_AddrMe req) = None \<and> length (addresses (AddrDb n)) < 1000 \<and> length (peers (PeerDb n)) < 200 \<longrightarrow>
      (\<exists>n' p. Node_VersionHandler out t1 t2 t3 t4 req n
            = Inr (n', [RpcVersion (pvr_AddrMe req) (version_request n (pvr_AddrMe req))], out \<noteq> RpcReply)
         \<and> PeerDb_Get (PeerDb n') (pvr_AddrMe req) = Some p \<and> peer_addr n' p = pvr_AddrMe req \<and> bestHeight p = pvr_BestHeight req
         \<and> (\<forall>n2 req' out' u1 u2 u3 u4. (node_step ec H)\<^sup>*\<^sup>* n' n2 \<and> pvr_AddrMe req' = pvr_AddrMe req
              \<longrightarrow> (\<exists>n3. Node_VersionHandler out' u1 u2 u3 u4 req' n2 = Inr (n3, [], False)))))"
proof (intro conjI impI)
  have conf: "n_Conf n = conf" using node_reach_inv [OF assms] by (simp add: nodeinv_def)
  then show "Node_VersionHandler out t1 t2 t3 t4 req n = Inr (n, [], False)" if "int (unat (pvr_Version req)) \<noteq> n_Version conf"
    using that by (simp add: Node_VersionHandler_def)
  let ?n = "registered out t1 t3 t4 req n" and ?p = "Peer_New (length (addr_mem n)) (pvr_Version req) (pvr_BestHeight req)"
  assume new: "int (unat (pvr_Version req)) = n_Version conf \<and> AddressDb_Get (AddrDb n) (pvr_AddrMe req) = None
        \<and> PeerDb_Get (PeerDb n) (pvr_AddrMe req) = None \<and> length (addresses (AddrDb n)) < 1000 \<and> length (peers (PeerDb n)) < 200"
  then have run: "Node_VersionHandler out t1 t2 t3 t4 req n
      = Inr (?n, [RpcVersion (pvr_AddrMe req) (version_request n (pvr_AddrMe req))], out \<noteq> RpcReply)"
    using nodeinv_dbs [OF node_reach_inv [OF assms]] conf by (intro Version_first) (simp_all add: AddressDb_Get_def PeerDb_Get_def)
  have p: "PeerDb_Get (PeerDb ?n) (pvr_AddrMe req) = Some ?p" "peer_addr ?n ?p = pvr_AddrMe req" "bestHeight ?p = pvr_BestHeight req"
    by (simp_all add: registered_def PeerDb_Get_def Peer_New_def)
  have "\<exists>n3. Node_VersionHandler out' u1 u2 u3 u4 req' n2 = Inr (n3, [], False)"
    if later: "(node_step ec H)\<^sup>*\<^sup>* ?n n2" and req': "pvr_AddrMe req' = pvr_AddrMe req" for n2 req' out' u1 u2 u3 u4
  proof (rule Version_known)
    show "node_reach ec H conf n2" by (rule reach_later [OF later reach_step [OF assms step_version [OF run]]])
    show "PeerDb_Get (PeerDb n2) (pvr_AddrMe req') \<noteq> None" unfolding req' by (rule peer_stays_later [OF later]) (simp add: p(1))
  qed
  then show "\<exists>n' p. Node_VersionHandler out t1 t2 t3 t4 req n
            = Inr (n', [RpcVersion (pvr_AddrMe req) (version_request n (pvr_AddrMe req))], out \<noteq> RpcReply)
         \<and> PeerDb_Get (PeerDb n') (pvr_AddrMe req) = Some p \<and> peer_addr n' p = pvr_AddrMe req \<and> bestHeight p = pvr_BestHeight req
         \<and> (\<forall>n2 req' out' u1 u2 u3 u4. (node_step ec H)\<^sup>*\<^sup>* n' n2 \<and> pvr_AddrMe req' = pvr_AddrMe req
              \<longrightarrow> (\<exists>n3. Node_VersionHandler out' u1 u2 u3 u4 req' n2 = Inr (n3, [], False)))"
    using run p by blast
qed

theorem Version_registers_witness:
  "\<exists>n'. Node_VersionHandler NoConnection 1 2 3 4 \<lparr>pvr_Version = 1, pvr_AddrYou = [], pvr_AddrMe = ''h:1'', pvr_BestHeight = 3\<rparr> demo_node
      = Inr (n', [RpcVersion ''h:1'' (version_request demo_node ''h:1'')], True)
     \<and> (\<exists>n''. Node_VersionHandler RpcReply 5 6 7 8 \<lparr>pvr_Version = 1, pvr_AddrYou = [], pvr_AddrMe = ''h:1'', pvr_BestHeight = 3\<rparr> n' = Inr (n'', [], False))"
proof -
  let ?req = "\<lparr>pvr_Version = 1, pvr_AddrYou = [], pvr_AddrMe = ''h:1'', pvr_BestHeight = 3\<rparr>"
  have v: "n_Version demo_node_conf = 1" by (simp add: demo_node_conf_def NoMnrConfig_def)
  have "addresses (AddrDb demo_node) = []" "peers (PeerDb demo_node) = []"
    by (simp_all add: demo_node_def demo_node0_def AddressDb_New_def PeerDb_New_def)
  with v obtain n' where n': "Node_VersionHandler NoConnection 1 2 3 4 ?req demo_node = Inr (n', [RpcVersion ''h:1'' (version_request demo_node ''h:1'')], True)"
    and later: "\<And>n2 req' out' u1 u2 u3 u4. (node_step echo_ecdsa length_digest)\<^sup>*\<^sup>* n' n2 \<Longrightarrow> pvr_AddrMe req' = ''h:1''
        \<Longrightarrow> \<exists>n3. Node_VersionHandler out' u1 u2 u3 u4 req' n2 = Inr (n3, [], False)"
    using Version_registers [OF demo_node_reach, of ?req NoConnection 1 2 3 4] by (auto simp: AddressDb_Get_def PeerDb_Get_def)
  show ?thesis using n' later [OF rtranclp.rtrancl_refl, of ?req RpcReply 5 6 7 8] by auto
qed

section \<open>Addresses that cannot be printed\<close>

lemma go_map_panic_only:
  assumes "x \<in> set xs" "f x = Inl e" "\<And>y e'. f y = Inl e' \<Longrightarrow> e' = e"
  shows "go_map f xs = Inl e"
proof -
  have "\<exists>x. f x = Inl e'" if "go_map f xs = Inl e'" for e' using that by (induction xs) (auto simp: go_simps)
  with go_map_panic [of x xs f e] assms show ?thesis by metis
qed

lemma FmtAddr_panic: "FmtAddr a = Inl e \<Longrightarrow> e = IndexOutOfRange"
  by (auto simp: FmtAddr_def Let_def split: if_splits)

lemma FmtAddr_no_port: "a \<noteq> [] \<Longrightarrow> CHR '':'' \<notin> set a \<Longrightarrow> FmtAddr a = Inl IndexOutOfRange"
  by (simp add: FmtAddr_def strings_Split_none)

lemma announce_panics:
  assumes "\<And>s. tag \<noteq> Inl s" "p \<in> set ps" "FmtAddr (adr p) = Inl IndexOutOfRange"
  shows "go_map (\<lambda>p. go_bind (FmtAddr me) (\<lambda>_. go_bind tag (\<lambda>_. go_bind (FmtAddr (adr p)) (\<lambda>_. Inr (ev p))))) ps = Inl IndexOutOfRange"
proof (rule go_map_panic_only [OF assms(2)])
  have "tag = Inr (projr tag)" using assms(1) by (cases tag) auto
  then show "go_bind (FmtAddr me) (\<lambda>_. go_bind tag (\<lambda>_. go_bind (FmtAddr (adr p)) (\<lambda>_. Inr (ev p)))) = Inl IndexOutOfRange"
    using assms(3) FmtAddr_panic [of me] by (cases "FmtAddr me") (auto simp: go_bind_def split: sum.splits)
qed (use assms(1) in \<open>auto simp: go_simps dest: FmtAddr_panic\<close>)

text \<open>
  A peer whose address has no colon stops the node. Take a reachable node that has such a peer; any peer becomes
  one by announcing such an address. For a digest of 32 bytes, handling the next transaction of the node's own wallet panics,
  and so does handling the next block of its own miner that the chain takes, even with debug output switched off.
\<close>

theorem unprintable_peer_panics:
  assumes "node_reach ec H conf n" "\<And>v. length (H v) = 32" "SafeBlkAmt (WtConf conf) \<noteq> 0"
    and "PeerDb_Get (PeerDb n) bad = Some p" "bad \<noteq> []" "CHR '':'' \<notin> set bad" "range_order (peers (PeerDb n)) ks"
  shows "HndlWtTx H ks t n = Inl IndexOutOfRange
    \<and> (IndexOf (Chain n) (PrvBlkHsh (Hdr b)) \<noteq> - 1 \<longrightarrow> HndlMnrBlk H ks (Some b) n = Inl IndexOutOfRange)"
proof (intro conjI impI)
  have conf: "n_Conf n = conf" using node_reach_inv [OF assms(1)] by (simp add: nodeinv_def)
  have "bad \<in> set ks" using assms(4,7) by (metis PeerDb_Get_def in_gkeys_iff option.distinct(1) range_order_set)
  then have p: "p \<in> set (PeerDb_List ks (PeerDb n))" using assms(4) by (force simp: PeerDb_List_def PeerDb_Get_def List.map_filter_def)
  have "peer_addr n p = bad" using nodeinv_dbs(3) [OF node_reach_inv [OF assms(1)]] assms(4) by (simp add: peers_ok_def PeerDb_Get_def)
  then have bad: "FmtAddr (peer_addr n p) = Inl IndexOutOfRange" using FmtAddr_no_port assms(5,6) by simp
  have tags: "Transaction_NameTag H t \<noteq> Inl e" "Block_NameTag H b \<noteq> Inl e" for e using NameTag_ok [of H t b, OF assms(2)] by auto
  show "HndlWtTx H ks t n = Inl IndexOutOfRange"
    using announce_panics [where adr = "peer_addr n" and me = "n_Addr n" and ev = "\<lambda>p. RpcForwardTransaction (peer_addr n p) (Transaction_Serialize t)",
        OF tags(1) p bad]
    by (simp add: HndlWtTx_def Let_def)
  assume "IndexOf (Chain n) (PrvBlkHsh (Hdr b)) \<noteq> - 1"
  moreover obtain bs where "chain_run H (ChainConf conf) bs (Chain n)" by (rule reach_run [OF assms(1)])
  ultimately obtain bc where bc: "Blockchain_Add H (Some b) (Chain n) = Inr bc" using Add_known(1) by blast
  let ?n = "n\<lparr>BlockMap := gset (Block_Hash H b) True (BlockMap n), Chain := bc\<rparr>"
  obtain ev where "safe_block ?n = Inr ev" using safe_block_ok [of ?n] assms(3) conf by auto
  with bc show "HndlMnrBlk H ks (Some b) n = Inl IndexOutOfRange"
    using announce_panics [where adr = "peer_addr n" and me = "n_Addr n" and ev = "\<lambda>p. RpcForwardBlock (peer_addr n p) (Block_Serialize b)",
        OF tags(2) p bad]
    by (simp add: HndlMnrBlk_def Let_def)
qed

text \<open>A node that registered a peer without a port, for witnesses.\<close>

definition demo_bad_req :: proto_VersionRequest where
  "demo_bad_req = \<lparr>pvr_Version = 1, pvr_AddrYou = [], pvr_AddrMe = ''x'', pvr_BestHeight = 0\<rparr>"

lemma demo_bad_reach: "node_reach echo_ecdsa length_digest demo_node_conf (registered NoConnection 1 3 4 demo_bad_req demo_node)"
proof (rule reach_step [OF demo_node_reach step_version])
  show "Node_VersionHandler NoConnection 1 2 3 4 demo_bad_req demo_node = Inr (registered NoConnection 1 3 4 demo_bad_req demo_node,
      [RpcVersion (pvr_AddrMe demo_bad_req) (version_request demo_node (pvr_AddrMe demo_bad_req))], NoConnection \<noteq> RpcReply)"
    by (rule Version_first) (simp_all add: demo_bad_req_def demo_node_def demo_node0_def demo_node_conf_def NoMnrConfig_def AddressDb_New_def PeerDb_New_def)
qed

theorem unprintable_peer_panics_witness:
  "HndlWtTx length_digest [''x''] (demo_tx 1) (registered NoConnection 1 3 4 demo_bad_req demo_node) = Inl IndexOutOfRange"
proof -
  have pe: "peers (PeerDb (registered NoConnection 1 3 4 demo_bad_req demo_node)) = [(''x'', Peer_New (length (addr_mem demo_node)) 1 0)]"
    by (simp add: registered_def demo_bad_req_def demo_node_fields PeerDb_New_def)
  then have "range_order (peers (PeerDb (registered NoConnection 1 3 4 demo_bad_req demo_node))) [''x'']" by (simp add: range_order_def gkeys_def)
  then show ?thesis
    using unprintable_peer_panics [OF demo_bad_reach length_length_digest, of "''x''"] pe by (simp add: PeerDb_Get_def demo_node_fields)
qed

section \<open>Two nodes\<close>

lemma version_request_fields [simp]:
  "pvr_AddrMe (version_request n a) = n_Addr n" "pvr_AddrYou (version_request n a) = a"
  "pvr_Version (version_request n a) = word_of_int (n_Version (n_Conf n))" "pvr_BestHeight (version_request n a) = word_of_int (Blockchain_Length (Chain n))"
  by (simp_all add: version_request_def)

text \<open>A node that does not know an address and has room for it.\<close>

definition open_to :: "string \<Rightarrow> ('pk, 'sk) Node \<Rightarrow> bool" where
  "open_to a n \<longleftrightarrow> AddressDb_Get (AddrDb n) a = None \<and> PeerDb_Get (PeerDb n) a = None
     \<and> length (addresses (AddrDb n)) < 1000 \<and> length (peers (PeerDb n)) < 200"

text \<open>
  C12: The handshake ends, and makes both nodes peers of each other. Let two reachable nodes run the same version, one that fits into the 32 bits of the
  message, and be open to each other. When one connects to the other, the other files it as a peer and answers with a version request of its own; handling that,
  the first node files the other as a peer and sends its version request once more; handling that one sends nothing.
\<close>

theorem handshake_ends:
  assumes "node_reach ec H ca a" "node_reach ec H cb b" "n_Version ca = n_Version cb" "0 \<le> n_Version ca" "n_Version ca < 2 ^ 32"
    and "open_to (n_Addr b) a" "open_to (n_Addr a) b"
  shows "\<exists>b1 a1 b2. ConnectToPeer RpcReply (n_Addr b) a = Inr (a, [RpcVersion (n_Addr b) (version_request a (n_Addr b))])
    \<and> Node_VersionHandler RpcReply r1 r2 r3 r4 (version_request a (n_Addr b)) b = Inr (b1, [RpcVersion (n_Addr a) (version_request b (n_Addr a))], False)
    \<and> Node_VersionHandler RpcReply s1 s2 s3 s4 (version_request b (n_Addr a)) a = Inr (a1, [RpcVersion (n_Addr b) (version_request a (n_Addr b))], False)
    \<and> Node_VersionHandler RpcReply t1 t2 t3 t4 (version_request a (n_Addr b)) b1 = Inr (b2, [], False)
    \<and> PeerDb_In (PeerDb a1) (n_Addr b) \<and> PeerDb_In (PeerDb b2) (n_Addr a)"
proof -
  let ?ra = "version_request a (n_Addr b)" and ?rb = "version_request b (n_Addr a)"
  let ?b1 = "registered RpcReply r1 r3 r4 ?ra b" and ?a1 = "registered RpcReply s1 s3 s4 ?rb a"
  have conf: "n_Conf a = ca" "n_Conf b = cb" using node_reach_inv [OF assms(1)] node_reach_inv [OF assms(2)] by (simp_all add: nodeinv_def)
  note dba = nodeinv_dbs [OF node_reach_inv [OF assms(1)]] and dbb = nodeinv_dbs [OF node_reach_inv [OF assms(2)]]
  have ver: "int (unat (word_of_int (n_Version ca) :: u32)) = n_Version ca" "int (unat (word_of_int (n_Version cb) :: u32)) = n_Version cb"
    using assms(3-5) by (simp_all add: uint_word_of_int take_bit_int_eq_self)
  have "Node_VersionHandler RpcReply r1 r2 r3 r4 ?ra b = Inr (?b1, [RpcVersion (pvr_AddrMe ?ra) (version_request b (pvr_AddrMe ?ra))], RpcReply \<noteq> RpcReply)"
    by (rule Version_first) (use assms ver conf dbb in \<open>simp_all add: open_to_def AddressDb_Get_def PeerDb_Get_def\<close>)
  moreover have "Node_VersionHandler RpcReply s1 s2 s3 s4 ?rb a = Inr (?a1, [RpcVersion (pvr_AddrMe ?rb) (version_request a (pvr_AddrMe ?rb))], RpcReply \<noteq> RpcReply)"
    by (rule Version_first) (use assms ver conf dba in \<open>simp_all add: open_to_def AddressDb_Get_def PeerDb_Get_def\<close>)
  moreover obtain b2 where "Node_VersionHandler RpcReply t1 t2 t3 t4 ?ra ?b1 = Inr (b2, [], False)" "PeerDb b2 = PeerDb ?b1"
    using Version_again [of ?b1 ?ra "length (addr_mem b)" "Peer_New (length (addr_mem b)) (pvr_Version ?ra) (pvr_BestHeight ?ra)" RpcReply t1 t2 t3 t4]
    by (auto simp: registered_def Peer_New_def)
  ultimately show ?thesis
    by (auto simp: ConnectToPeer_def PeerDb_In_def registered_def)
qed

lemma demo_started:
  assumes "FmtAddr (h @ '':5000'') = Inr s"
  shows "\<exists>n. node_reach echo_ecdsa length_digest demo_node_conf n \<and> n_Addr n = h @ '':5000'' \<and> open_to k n"
proof -
  have "show_int 5000 = ''5000''" by (simp add: show_int_def show_nat.simps [of 5000] show_nat.simps [of 500] show_nat.simps [of 50] eval_simps)
  then obtain n ev where "Node_Start True (Some h) demo_node = Inr (n, ev)" "n_Addr n = h @ '':5000''"
      "addresses (AddrDb n) = []" "peers (PeerDb n) = []"
    using assms by (auto simp: Node_Start_def Let_def StartServer_def demo_node_def demo_node0_def demo_node_conf_def NoMnrConfig_def
        AddressDb_New_def PeerDb_New_def PeerDb_SetAddr_def mnr_NilConfig_def demo_conf_def wt_DefaultConfig_def)
  then show ?thesis using reach_step [OF demo_node_reach step_start, of True "Some h" n ev]
    by (auto simp: open_to_def AddressDb_Get_def PeerDb_Get_def)
qed

theorem handshake_ends_witness:
  "\<exists>(a :: (byte, byte) Node) (b :: (byte, byte) Node) b1 a1 b2. n_Addr a = ''a:5000'' \<and> n_Addr b = ''b:5000''
     \<and> Node_VersionHandler RpcReply 1 1 1 1 (version_request a ''b:5000'') b = Inr (b1, [RpcVersion ''a:5000'' (version_request b ''a:5000'')], False)
     \<and> Node_VersionHandler RpcReply 2 2 2 2 (version_request b ''a:5000'') a = Inr (a1, [RpcVersion ''b:5000'' (version_request a ''b:5000'')], False)
     \<and> Node_VersionHandler RpcReply 3 3 3 3 (version_request a ''b:5000'') b1 = Inr (b2, [], False)"
proof -
  have "\<exists>s. FmtAddr ''a:5000'' = Inr s" "\<exists>s. FmtAddr ''b:5000'' = Inr s"
    by (simp_all add: FmtAddr_def Let_def ParseInt_def digit_val_def)
  then obtain a b where a: "node_reach echo_ecdsa length_digest demo_node_conf a" "n_Addr a = ''a:5000''" "open_to ''b:5000'' a"
    and b: "node_reach echo_ecdsa length_digest demo_node_conf b" "n_Addr b = ''b:5000''" "open_to ''a:5000'' b"
    using demo_started [of "''a''" _ "''b:5000''"] demo_started [of "''b''" _ "''a:5000''"] by auto
  have "n_Version demo_node_conf = 1" by (simp add: demo_node_conf_def NoMnrConfig_def)
  then show ?thesis
    using handshake_ends [OF a(1) b(1), of 1 1 1 1 2 2 2 2 3 3 3 3] a b by fastforce
qed

end
