(* ===== verification/Sync.thy ===== *)
theory Sync
  imports Handshake
begin

text \<open>
  \<^verbatim>\<open>Bootstrap\<close>: how a node catches up with a peer that has a longer chain, and what it leaves undone.
\<close>

section \<open>Appending blocks\<close>

text \<open>A block as it comes out of a message: reservations of outputs do not travel.\<close>

definition wire_block :: "Block \<Rightarrow> Block" where
  "wire_block b = b\<lparr>Transactions := map clear_liminal (Transactions b)\<rparr>"

lemma wire_block_simps [simp]: "Block_Hash H (wire_block b) = Block_Hash H b" "Hdr (wire_block b) = Hdr b"
  by (simp_all add: wire_block_def Block_Hash_def)

lemma Deserialize_wire: "Block_Deserialize (Block_Serialize b) = Inr (wire_block b)"
  by (simp add: Block_Deserialize_Serialize wire_block_def)

text \<open>The last block is the one filed under its hash.\<close>

definition last_filed :: "(byte list \<Rightarrow> byte list) \<Rightarrow> Blockchain \<Rightarrow> bool" where
  "last_filed H bc \<longleftrightarrow> gget (blocks bc) (Block_Hash H (GetLastBlock bc)) = Some (LastBlock bc)"

lemma Add_on_top:
  assumes "last_filed H bc" "PrvBlkHsh (Hdr b) = Block_Hash H (GetLastBlock bc)"
  shows "\<exists>bc'. Blockchain_Add H (Some b) bc = Inr bc' \<and> chain_of (LastBlock bc') = chain_of (LastBlock bc) @ [b]
    \<and> GetLastBlock bc' = b \<and> last_filed H bc'"
  using assms by (auto simp: Blockchain_Add_def last_filed_def Let_def GetLastBlock_def)

lemma HndlChkBlk_open:
  "\<not> mnr_closed m \<Longrightarrow> \<exists>m' ev. HndlChkBlk H b m = Inr (m', ev) \<and> \<not> mnr_closed m' \<and> PrvHsh m' = PrvHsh m \<and> ChnLen m' = ChnLen m"
  by (auto simp: HndlChkBlk_def Let_def send_update_def)

text \<open>Nodes whose miner takes part in a bootstrap without a panic.\<close>

definition boot_ready :: "bool \<Rightarrow> ('pk, 'sk) Node \<Rightarrow> bool" where
  "boot_ready chkOrf n \<longleftrightarrow> (chkOrf \<longrightarrow> (\<exists>m. Mnr n = Some m \<and> \<not> mnr_closed m))"

lemma Bootstrap_block_on_top:
  assumes "last_filed H (Chain n)" "PrvBlkHsh (Hdr b) = Block_Hash H (GetLastBlock (Chain n))" "boot_ready orf n"
  shows "\<exists>n' ev'. Bootstrap_block H orf (Some \<lparr>pgd_Block = Some (Block_Serialize b)\<rparr>) (n, ev) = Inr (n', ev')
    \<and> chain_of (LastBlock (Chain n')) = chain_of (LastBlock (Chain n)) @ [wire_block b]
    \<and> GetLastBlock (Chain n') = wire_block b \<and> last_filed H (Chain n') \<and> boot_ready orf n'"
proof -
  obtain bc where bc: "Blockchain_Add H (Some (wire_block b)) (Chain n) = Inr bc" "chain_of (LastBlock bc) = chain_of (LastBlock (Chain n)) @ [wire_block b]"
      "GetLastBlock bc = wire_block b" "last_filed H bc"
    using Add_on_top [OF assms(1), of "wire_block b"] assms(2) by auto
  show ?thesis
  proof (cases orf)
    case False
    then show ?thesis using bc by (simp add: Bootstrap_block_def Deserialize_wire boot_ready_def)
  next
    case True
    then obtain m m' mev where "Mnr n = Some m" "HndlChkBlk H (wire_block b) m = Inr (m', mev)" "\<not> mnr_closed m'"
      using assms(3) HndlChkBlk_open [of _ H "wire_block b"] unfolding boot_ready_def by blast
    then show ?thesis using bc True by (simp add: Bootstrap_block_def Deserialize_wire boot_ready_def)
  qed
qed

lemma Bootstrap_blocks_on_top:
  assumes "last_filed H (Chain n)" "linked H (GetLastBlock (Chain n) # rest)" "boot_ready orf n"
    and "\<forall>b \<in> set rest. data (Block_Hash H b) = Some \<lparr>pgd_Block = Some (Block_Serialize b)\<rparr>"
  shows "\<exists>n' ev'. go_fold (\<lambda>h. Bootstrap_block H orf (data h)) (map (Block_Hash H) rest) (n, ev) = Inr (n', ev')
    \<and> chain_of (LastBlock (Chain n')) = chain_of (LastBlock (Chain n)) @ map wire_block rest"
  using assms
proof (induction rest arbitrary: n ev)
  case (Cons b rest)
  obtain n1 ev1 where n1: "Bootstrap_block H orf (data (Block_Hash H b)) (n, ev) = Inr (n1, ev1)"
      "chain_of (LastBlock (Chain n1)) = chain_of (LastBlock (Chain n)) @ [wire_block b]" "GetLastBlock (Chain n1) = wire_block b"
      "last_filed H (Chain n1)" "boot_ready orf n1"
    using Bootstrap_block_on_top [OF Cons.prems(1) _ Cons.prems(3), of b ev] Cons.prems(2,4) by auto
  have "linked H (GetLastBlock (Chain n1) # rest)" using Cons.prems(2) by (cases rest) (simp_all add: n1(3))
  with Cons.IH [OF n1(4) _ n1(5), of ev1] Cons.prems(4) n1(1,2) show ?case by auto
qed simp

lemma linked_append: "xs \<noteq> [] \<Longrightarrow> linked H (xs @ ys) \<Longrightarrow> linked H (last xs # ys)"
  by (induction H xs rule: linked.induct) auto

lemma linked_hash: "Block_Hash H a = Block_Hash H b \<Longrightarrow> linked H (a # ys) \<longleftrightarrow> linked H (b # ys)"
  by (cases ys) auto

section \<open>Catching up\<close>

text \<open>
  C8: A bootstrap catches up. Let a reachable node, whose address can be printed and whose last block is filed under its hash, bootstrap
  from peers of which the longest answer comes from a reachable node \<open>q\<close> that is ahead: the first \<open>length cn\<close> blocks of its main chain end in the
  node's last block, at that index, and at most 499 blocks follow, each of which \<open>q\<close> finds under its hash. When there are more than two
  of them, or the node has a miner that was not killed, the bootstrap returns without an error, and the node's main chain has become its old
  one followed by all the blocks it lacked, up to the reservations, which do not travel.
\<close>

theorem Bootstrap_catches_up:
  assumes n: "node_reach ec H conf n" "Blockchain_List (Chain n) = Inr cn" "last_filed H (Chain n)" "FmtAddr (n_Addr n) = Inr a"
      "PeerDb_List ks (PeerDb n) \<noteq> []" and H: "\<And>v. length (H v) = 32"
    and q: "node_reach ec' H conf' q" "Blockchain_List (Chain q) = Inr (pre @ rest)" "length pre = length cn"
      "Block_Hash H (last pre) = Block_Hash H (GetLastBlock (Chain n))" "IndexOf (Chain q) (Block_Hash H (GetLastBlock (Chain n))) = int (length cn) - 1"
      "\<forall>b \<in> set rest. Blockchain_Get (Chain q) (Block_Hash H b) = Inr b" "length rest \<le> 499"
    and boot: "boot_ready (length rest \<le> 2) n"
      "longest_response arrivals = Some (addr, GetBlocks H \<lparr>pgb_TopBlockHash = Block_Hash H (GetLastBlock (Chain n)), pgb_AddrMe = []\<rparr> q)"
      "\<forall>h r. GetData \<lparr>pgd_BlockHash = h\<rparr> q = Inr r \<longrightarrow> data addr h = (RpcReply, r)"
  shows "\<exists>n' ev. Bootstrap H ks arrivals data n = Inr (n', ev, None) \<and> Blockchain_List (Chain n') = Inr (cn @ map wire_block rest)"
proof -
  obtain bs where run: "chain_run H (ChainConf conf) bs (Chain n)" by (rule reach_run [OF n(1)])
  obtain bs' where runq: "chain_run H (ChainConf conf') bs' (Chain q)" by (rule reach_run [OF q(1)])
  have cn: "cn = chain_of (LastBlock (Chain n))" using n(2) run_list [OF run] by simp
  then have ne: "pre \<noteq> []" "cn \<noteq> []" using q(3) by auto
  have "linked H (pre @ rest)" using q(2) run_list [OF runq] linked_chain_of [OF chain_inv_last(1) [OF run_inv [OF runq]]] by simp
  then have lk: "linked H (GetLastBlock (Chain n) # rest)" using linked_append [OF ne(1)] linked_hash [OF q(4)] by blast
  have "take 499 (drop (nat (int (length cn) - 1) + 1) (pre @ rest)) = rest"
    using q(3,7) ne(2) by (cases cn) simp_all
  then have hs: "longest_response arrivals = Some (addr, \<lparr>pgr_BlockHashes = map (Block_Hash H) rest\<rparr>)"
    using GetBlocks_eq [OF q(1,2), of "\<lparr>pgb_TopBlockHash = Block_Hash H (GetLastBlock (Chain n)), pgb_AddrMe = []\<rparr>"] boot(2) q(5) ne(2) by simp
  let ?pb = "\<lambda>h. case data addr h of (out, reply) \<Rightarrow> GetDataRPC out reply"
  have "\<forall>b \<in> set rest. ?pb (Block_Hash H b) = Some \<lparr>pgd_Block = Some (Block_Serialize b)\<rparr>"
    using boot(3) q(6) by (simp add: GetData_def GetDataRPC_def)
  with Bootstrap_blocks_on_top [OF n(3) lk boot(1), of ?pb "[]"] obtain n' ev where
      fold: "go_fold (\<lambda>h. Bootstrap_block H (length rest \<le> 2) (?pb h)) (map (Block_Hash H) rest) (n, []) = Inr (n', ev)"
      and ch: "chain_of (LastBlock (Chain n')) = chain_of (LastBlock (Chain n)) @ map wire_block rest" by blast
  obtain s where "Block_NameTag H (node_Block (LastBlock (Chain n))) = Inr s" using NameTag_ok [of H, OF H] by blast
  then have boot: "Bootstrap H ks arrivals data n = Inr (n', ev, None)"
    using fold hs n(4,5) by (simp add: Bootstrap_def Let_def)
  obtain bs'' where "chain_run H (ChainConf conf) bs'' (Chain n')" by (rule reach_run [OF reach_step [OF n(1) step_boot [OF boot]]])
  with boot ch show ?thesis using run_list cn by fastforce
qed

text \<open>A fresh node with a miner and one peer, for witnesses.\<close>

definition demo_boot_conf :: "(byte, byte) n_Config" where
  "demo_boot_conf = demo_node_conf\<lparr>MnrConf := mnr_DefaultConfig 3\<rparr>"

definition demo_boot0 :: "(byte, byte) Node" where
  "demo_boot0 = demo_node0\<lparr>n_Conf := demo_boot_conf, Mnr := projr (Miner_New length_digest (mnr_DefaultConfig 3) (wt_Id (demo_wallet 0)))\<rparr>"

definition demo_boot :: "(byte, byte) Node" where
  "demo_boot = registered NoConnection 1 3 4 \<lparr>pvr_Version = 1, pvr_AddrYou = [], pvr_AddrMe = ''q:1'', pvr_BestHeight = 2\<rparr> demo_boot0"

lemma demo_boot_miner: "\<exists>m. Mnr demo_boot0 = Some m \<and> \<not> mnr_closed m"
  by (simp add: demo_boot0_def Miner_New_def mnr_DefaultConfig_def GenesisBlock_def Block_Deserialize_def)

lemma demo_boot_reach: "node_reach echo_ecdsa length_digest demo_boot_conf demo_boot"
proof (rule reach_step [OF reach_new step_version])
  have "Blockchain_New length_digest demo_conf = Inr demo_start" by (simp add: demo_start_def Blockchain_New_eq)
  moreover obtain mo where "Miner_New length_digest (mnr_DefaultConfig 3) (wt_Id (demo_wallet 0)) = Inr mo"
    by (simp add: Miner_New_def mnr_DefaultConfig_def GenesisBlock_def Block_Deserialize_def)
  ultimately show "Node_New echo_ecdsa length_digest 0xaa demo_boot_conf = Inr (Some demo_boot0)"
    using demo_wallet_key(2) [of 0]
    by (simp add: Node_New_def demo_boot_conf_def demo_node_conf_def NoMnrConfig_def id_New_def demo_boot0_def demo_node0_def)
  let ?req = "\<lparr>pvr_Version = 1, pvr_AddrYou = [], pvr_AddrMe = ''q:1'', pvr_BestHeight = 2\<rparr>"
  show "Node_VersionHandler NoConnection 1 2 3 4 ?req demo_boot0 = Inr (demo_boot, [RpcVersion (pvr_AddrMe ?req) (version_request demo_boot0 (pvr_AddrMe ?req))], NoConnection \<noteq> RpcReply)"
    unfolding demo_boot_def
    by (rule Version_first) (simp_all add: demo_boot0_def demo_node0_def demo_boot_conf_def demo_node_conf_def NoMnrConfig_def AddressDb_New_def PeerDb_New_def)
qed

lemma demo_boot_fields:
  "Chain demo_boot = demo_start" "n_Addr demo_boot = []" "Mnr demo_boot = Mnr demo_boot0"
  "PeerDb_List [''q:1''] (PeerDb demo_boot) \<noteq> []"
  by (simp_all add: demo_boot_def registered_def demo_boot0_def demo_node0_def PeerDb_List_def PeerDb_New_def List.map_filter_def)

theorem Bootstrap_catches_up_witness:
  "\<exists>n' ev. Bootstrap length_digest [''q:1''] [(''q:1'', RpcReply, \<lparr>pgr_BlockHashes = [num_hash 75]\<rparr>)]
       (\<lambda>_ h. case GetData \<lparr>pgd_BlockHash = h\<rparr> demo_node of Inl _ \<Rightarrow> (RpcError, \<lparr>pgd_Block = None\<rparr>) | Inr r \<Rightarrow> (RpcReply, r)) demo_boot = Inr (n', ev, None)
     \<and> Blockchain_List (Chain n') = Inr [gen_block demo_conf, demo_b1]"
proof -
  have ln: "Blockchain_List (Chain demo_boot) = Inr [gen_block demo_conf]"
    by (simp add: demo_boot_fields run_list [OF demo_start_run]) (simp add: demo_start_eq demo_nodes)
  have lq: "Blockchain_List (Chain demo_node) = Inr ([gen_block demo_conf] @ [demo_b1])"
    by (simp add: demo_node_fields run_list [OF demo_chain_run]) (simp add: demo_chain_eq demo_nodes)
  have last: "GetLastBlock demo_start = gen_block demo_conf" by (simp add: GetLastBlock_def demo_start_eq demo_nodes)
  have "last_filed length_digest (Chain demo_boot)"
    by (simp add: last_filed_def demo_boot_fields last demo_hash) (simp add: demo_start_eq)
  moreover have "IndexOf demo_chain (num_hash 10) = 0" "Blockchain_Get demo_chain (num_hash 75) = Inr demo_b1"
    by (simp_all add: IndexOf_def Blockchain_Get_def demo_chain_eq demo_nodes)
  moreover have "boot_ready True demo_boot" using demo_boot_miner by (simp add: boot_ready_def demo_boot_fields)
  moreover have "GetBlocks length_digest \<lparr>pgb_TopBlockHash = num_hash 10, pgb_AddrMe = []\<rparr> demo_node = \<lparr>pgr_BlockHashes = [num_hash 75]\<rparr>"
    using GetBlocks_eq [OF demo_node_reach lq] calculation by (simp add: demo_node_fields demo_hash)
  moreover have "wire_block demo_b1 = demo_b1" by (simp add: wire_block_def demo_b1_def demo_next_def demo_cb_def clear_liminal_def)
  ultimately show ?thesis
    using Bootstrap_catches_up [OF demo_boot_reach ln _ _ _ length_length_digest demo_node_reach lq, of _ "[''q:1'']" "[(''q:1'', RpcReply, \<lparr>pgr_BlockHashes = [num_hash 75]\<rparr>)]" "''q:1''"
        "\<lambda>_ h. case GetData \<lparr>pgd_BlockHash = h\<rparr> demo_node of Inl _ \<Rightarrow> (RpcError, \<lparr>pgd_Block = None\<rparr>) | Inr r \<Rightarrow> (RpcReply, r)"]
    by (simp add: demo_boot_fields demo_node_fields last demo_hash FmtAddr_def longest_response_def GetBlocksRPC_def)
qed


text \<open>
  A bootstrap without a miner that is one or two blocks behind panics. Whatever the answers of the peers are, when the longest one lists
  one or two hashes and the node has no miner, \<^verbatim>\<open>Bootstrap\<close> dereferences nil, for a digest of 32 bytes and an address that can be printed.
\<close>

theorem Bootstrap_no_miner_panics:
  assumes "Mnr n = None" "\<And>v. length (H v) = 32" "FmtAddr (n_Addr n) = Inr a" "PeerDb_List ks (PeerDb n) \<noteq> []"
    and "longest_response arrivals = Some (addr, res)" "pgr_BlockHashes res = hs" "hs \<noteq> []" "length hs \<le> 2"
  shows "Bootstrap H ks arrivals data n = Inl NilDeref"
proof -
  obtain h hs' where hs: "hs = h # hs'" using assms(7) by (cases hs) auto
  have "Bootstrap_block H True pb (n, []) = Inl NilDeref" for pb
    using assms(1) by (auto simp: Bootstrap_block_def Blockchain_Add_def go_bind_def Let_def Block_Deserialize_panic split: option.splits sum.splits)
  moreover obtain s where "Block_NameTag H (node_Block (LastBlock (Chain n))) = Inr s" using NameTag_ok [of H, OF assms(2)] by blast
  ultimately show ?thesis using assms(3-) hs by (simp add: Bootstrap_def Let_def)
qed

theorem Bootstrap_no_miner_panics_witness:
  "Bootstrap length_digest [''q:1''] [(''q:1'', RpcReply, \<lparr>pgr_BlockHashes = [num_hash 75]\<rparr>)]
     (\<lambda>_ h. case GetData \<lparr>pgd_BlockHash = h\<rparr> demo_node of Inl _ \<Rightarrow> (RpcError, \<lparr>pgd_Block = None\<rparr>) | Inr r \<Rightarrow> (RpcReply, r)) (demo_boot\<lparr>Mnr := None\<rparr>) = Inl NilDeref"
  using Bootstrap_no_miner_panics [of "demo_boot\<lparr>Mnr := None\<rparr>" length_digest _ "[''q:1'']", OF _ length_length_digest]
  by (simp add: demo_boot_fields FmtAddr_def longest_response_def GetBlocksRPC_def)

text \<open>
  A bootstrap leaves the miner behind. The miner's transaction pool follows the new blocks, but its previous hash and its chain length are what they
  were before the bootstrap: unless another block arrives first, the next block it mines extends the old end of the chain.
\<close>

theorem Bootstrap_stale_miner:
  assumes "Bootstrap H ks arrivals data n = Inr (n', ev, err)" "Mnr n = Some m"
  shows "\<exists>m'. Mnr n' = Some m' \<and> PrvHsh m' = PrvHsh m \<and> ChnLen m' = ChnLen m"
proof -
  let ?P = "\<lambda>s. \<exists>m'. Mnr (fst s) = Some m' \<and> PrvHsh m' = PrvHsh m \<and> ChnLen m' = ChnLen m"
  have "?P s'" if "?P s" "Bootstrap_block H orf pb s = Inr s'" for orf pb s s'
    using that by (cases s) (auto simp: Bootstrap_block_def HndlChkBlk_def send_update_def go_simps Let_def split: option.splits if_splits)
  then have "?P s'" if "go_fold (\<lambda>h. Bootstrap_block H orf (pb h)) hs (n, []) = Inr s'" for orf pb hs s'
    using go_fold_inv [of ?P "\<lambda>h. Bootstrap_block H orf (pb h)", OF _ _ that] assms(2) by fastforce
  with assms show ?thesis by (fastforce simp: Bootstrap_def go_simps Let_def split: if_splits option.splits)
qed

lemma demo_boot_blocks:
  "\<exists>n' ev. Bootstrap length_digest [''q:1''] [(''q:1'', RpcReply, \<lparr>pgr_BlockHashes = [num_hash 75]\<rparr>)] (\<lambda>_ _. (RpcReply, \<lparr>pgd_Block = Some (Block_Serialize demo_b1)\<rparr>)) demo_boot = Inr (n', ev, None)"
proof -
  have last: "GetLastBlock demo_start = gen_block demo_conf" by (simp add: GetLastBlock_def demo_start_eq demo_nodes)
  have "last_filed length_digest demo_start" by (simp add: last_filed_def last demo_hash) (simp add: demo_start_eq)
  moreover have "boot_ready True demo_boot" using demo_boot_miner by (simp add: boot_ready_def demo_boot_fields)
  ultimately obtain n' ev where "Bootstrap_block length_digest True (Some \<lparr>pgd_Block = Some (Block_Serialize demo_b1)\<rparr>) (demo_boot, []) = Inr (n', ev)"
    using Bootstrap_block_on_top [of length_digest demo_boot demo_b1 True "[]"] by (auto simp: demo_boot_fields last demo_hash demo_prev)
  moreover obtain s where "Block_NameTag length_digest (node_Block (LastBlock (Chain demo_boot))) = Inr s" using NameTag_ok [of length_digest] by auto
  ultimately show ?thesis by (simp add: Bootstrap_def demo_boot_fields FmtAddr_def longest_response_def GetBlocksRPC_def GetDataRPC_def)
qed

theorem Bootstrap_stale_miner_witness:
  "\<exists>m n' ev m'. Mnr demo_boot = Some m
     \<and> Bootstrap length_digest [''q:1''] [(''q:1'', RpcReply, \<lparr>pgr_BlockHashes = [num_hash 75]\<rparr>)] (\<lambda>_ _. (RpcReply, \<lparr>pgd_Block = Some (Block_Serialize demo_b1)\<rparr>)) demo_boot = Inr (n', ev, None)
     \<and> Mnr n' = Some m' \<and> PrvHsh m' = PrvHsh m \<and> ChnLen m' = ChnLen m"
proof -
  obtain m where m: "Mnr demo_boot = Some m" using demo_boot_miner demo_boot_fields(3) by auto
  obtain n' ev where b: "Bootstrap length_digest [''q:1''] [(''q:1'', RpcReply, \<lparr>pgr_BlockHashes = [num_hash 75]\<rparr>)] (\<lambda>_ _. (RpcReply, \<lparr>pgd_Block = Some (Block_Serialize demo_b1)\<rparr>)) demo_boot
      = Inr (n', ev, None)" using demo_boot_blocks by blast
  from Bootstrap_stale_miner [OF b m] m b show ?thesis by blast
qed

end
