(* ===== verification/Gossip.thy ===== *)
theory Gossip
  imports Prelude
begin

text \<open>
  Nodes that pass messages on, in general: a network is a map from addresses to nodes together with the calls under way, each a payload on its way to an
  address. The locale \<open>flooding\<close> is what a node promises when it handles a payload: it sends on nothing but that payload, and only the first time
  it sees it. From this follows that passing on ends. The locale \<open>flood_topic\<close> adds what is needed for one payload to reach every node that is
  connected to a node that has it. \<open>Network\<close> and \<open>Addr_Gossip\<close> interpret them on the handlers of \<^verbatim>\<open>pkg/server.go\<close>.
\<close>

section \<open>Networks\<close>

datatype ('n, 'p) net = Net (nodes: "string \<rightharpoonup> 'n") (in_flight: "(string \<times> 'p) multiset")

text \<open>
  \<open>react p n n' ms\<close>: a node \<open>n\<close> that handles the payload \<open>p\<close> becomes \<open>n'\<close> and sends \<open>ms\<close>. A call to an address without a node comes to nothing.
\<close>

inductive net_step :: "('p \<Rightarrow> 'n \<Rightarrow> 'n \<Rightarrow> (string \<times> 'p) list \<Rightarrow> bool) \<Rightarrow> ('n, 'p) net \<Rightarrow> ('n, 'p) net \<Rightarrow> bool" for react where
  deliver: "(a, p) \<in># fs \<Longrightarrow> ns a = Some n \<Longrightarrow> react p n n' ms \<Longrightarrow> net_step react (Net ns fs) (Net (ns(a \<mapsto> n')) (fs - {#(a, p)#} + mset ms))"
| lost: "(a, p) \<in># fs \<Longrightarrow> ns a = None \<Longrightarrow> net_step react (Net ns fs) (Net ns (fs - {#(a, p)#}))"

definition stuck :: "('p \<Rightarrow> 'n \<Rightarrow> 'n \<Rightarrow> (string \<times> 'p) list \<Rightarrow> bool) \<Rightarrow> ('n, 'p) net \<Rightarrow> bool" where
  "stuck react s \<longleftrightarrow> (\<nexists>s'. net_step react s s')"

text \<open>The pairs of a node and a payload of \<open>K\<close> that it has not seen.\<close>

definition unseen :: "('p \<Rightarrow> 'n \<Rightarrow> bool) \<Rightarrow> 'p set \<Rightarrow> (string \<rightharpoonup> 'n) \<Rightarrow> (string \<times> 'p) set" where
  "unseen seen K ns = {(a, p). p \<in> K \<and> (\<exists>n. ns a = Some n \<and> \<not> seen p n)}"

definition net_ok :: "('n \<Rightarrow> bool) \<Rightarrow> 'p set \<Rightarrow> ('n, 'p) net \<Rightarrow> bool" where
  "net_ok good K s \<longleftrightarrow> finite K \<and> finite (dom (nodes s)) \<and> (\<forall>a n. nodes s a = Some n \<longrightarrow> good n) \<and> (\<forall>(a, p) \<in># in_flight s. p \<in> K)"

text \<open>The nodes one call away from each other; \<open>nbrs\<close> are the addresses a node knows as peers.\<close>

definition links :: "('n \<Rightarrow> string set) \<Rightarrow> (string \<rightharpoonup> 'n) \<Rightarrow> (string \<times> string) set" where
  "links nbrs ns = {(a, b). \<exists>n. ns a = Some n \<and> b \<in> nbrs n \<and> b \<in> dom ns}"

lemma finite_unseen: "finite K \<Longrightarrow> finite (dom ns) \<Longrightarrow> finite (unseen seen K ns)"
  by (rule finite_subset [of _ "dom ns \<times> K"]) (auto simp: unseen_def)

lemma card_unseen: "finite K \<Longrightarrow> finite (dom ns) \<Longrightarrow> card (unseen seen K ns) \<le> card (dom ns) * card K"
  using card_mono [of "dom ns \<times> K" "unseen seen K ns"] by (auto simp: unseen_def card_cartesian_product)

section \<open>Passing on ends\<close>

locale flooding =
  fixes react :: "'p \<Rightarrow> 'n \<Rightarrow> 'n \<Rightarrow> (string \<times> 'p) list \<Rightarrow> bool"
    and seen :: "'p \<Rightarrow> 'n \<Rightarrow> bool" and good :: "'n \<Rightarrow> bool" and bound :: nat
  assumes react_good: "good n \<Longrightarrow> react p n n' ms \<Longrightarrow> good n'"
    and react_mono: "good n \<Longrightarrow> react p n n' ms \<Longrightarrow> seen q n \<Longrightarrow> seen q n'"
    and react_same: "good n \<Longrightarrow> react p n n' ms \<Longrightarrow> (a, q) \<in> set ms \<Longrightarrow> q = p"
    and react_once: "good n \<Longrightarrow> react p n n' ms \<Longrightarrow> ms \<noteq> [] \<Longrightarrow> \<not> seen p n \<and> seen p n'"
    and react_bound: "good n \<Longrightarrow> react p n n' ms \<Longrightarrow> length ms \<le> bound"
begin

lemma net_ok_step: "net_step react s s' \<Longrightarrow> net_ok good K s \<Longrightarrow> net_ok good K s'"
proof (induction rule: net_step.induct)
  case (deliver a p fs ns n n' ms)
  then have "p \<in> K" "good n" "good n'" using react_good [of n p n' ms] by (auto simp: net_ok_def)
  with deliver react_same [of n p n' ms] show ?case by (fastforce simp: net_ok_def dest: in_diffD)
qed (auto simp: net_ok_def dest: in_diffD)

lemma net_ok_run: "(net_step react)\<^sup>*\<^sup>* s s' \<Longrightarrow> net_ok good K s \<Longrightarrow> net_ok good K s'"
  by (induction rule: rtranclp_induct) (auto intro: net_ok_step)

text \<open>The number of calls that can still be made, at most.\<close>

lemma step_decreases:
  assumes "net_step react s s'" "net_ok good K s"
  shows "bound * card (unseen seen K (nodes s')) + size (in_flight s') < bound * card (unseen seen K (nodes s)) + size (in_flight s)"
  using assms
proof (induction rule: net_step.induct)
  case (deliver a p fs ns n n' ms)
  let ?U = "unseen seen K ns" and ?U' = "unseen seen K (ns(a \<mapsto> n'))"
  have fin: "finite ?U" using deliver.prems by (simp add: net_ok_def finite_unseen)
  have good: "good n" using deliver by (simp add: net_ok_def)
  have sub: "?U' \<subseteq> ?U" using deliver.hyps(2) react_mono [OF good deliver.hyps(3)] by (auto simp: unseen_def split: if_splits)
  have sz: "Suc (size (fs - {#(a, p)#})) = size fs" using deliver.hyps(1) by (metis insert_DiffM size_add_mset)
  show ?case
  proof (cases "ms = []")
    case True
    have "bound * card ?U' \<le> bound * card ?U" using card_mono [OF fin sub] by simp
    moreover have "size (fs - {#(a, p)#} + mset ms) < size fs" using True sz by simp
    ultimately show ?thesis unfolding net.sel by linarith
  next
    case False
    have "p \<in> K" "length ms \<le> bound" using deliver react_bound [of n p n' ms] by (auto simp: net_ok_def)
    then have "(a, p) \<in> ?U - ?U'" using react_once [OF good deliver.hyps(3) False] deliver.hyps(2) by (auto simp: unseen_def)
    then have "card ?U' < card ?U" using sub fin by (intro psubset_card_mono) auto
    then have "bound * card ?U' + bound \<le> bound * card ?U" by (metis Suc_leI add.commute mult_Suc_right mult_le_mono2)
    moreover have "size (fs - {#(a, p)#} + mset ms) < size fs + bound" using sz \<open>length ms \<le> bound\<close> by simp
    ultimately show ?thesis unfolding net.sel by linarith
  qed
next
  case (lost a p fs ns)
  then have "Suc (size (fs - {#(a, p)#})) = size fs" by (metis insert_DiffM size_add_mset)
  then show ?case by simp
qed

lemma run_bounded:
  assumes "net_ok good K s" "(net_step react ^^ k) s s'"
  shows "k + size (in_flight s') \<le> bound * card (dom (nodes s)) * card K + size (in_flight s)"
proof -
  have "net_ok good K s' \<and> k + (bound * card (unseen seen K (nodes s')) + size (in_flight s'))
      \<le> bound * card (unseen seen K (nodes s)) + size (in_flight s)"
    using assms(2)
  proof (induction k arbitrary: s')
    case (Suc k)
    then obtain s1 where "(net_step react ^^ k) s s1" "net_step react s1 s'" by auto
    with Suc.IH [of s1] show ?case using net_ok_step step_decreases [of s1 s' K] by fastforce
  qed (use assms(1) in simp)
  moreover have "bound * card (unseen seen K (nodes s)) \<le> bound * card (dom (nodes s)) * card K"
    using card_unseen [of K "nodes s" seen] assms(1) by (simp add: net_ok_def mult.assoc)
  ultimately show ?thesis by linarith
qed

lemma run_ends:
  assumes "net_ok good K s"
  shows "\<exists>s'. (net_step react)\<^sup>*\<^sup>* s s' \<and> stuck react s'"
  using assms
proof (induction "bound * card (unseen seen K (nodes s)) + size (in_flight s)" arbitrary: s rule: less_induct)
  case less
  show ?case
  proof (cases "stuck react s")
    case False
    then obtain s1 where s1: "net_step react s s1" by (auto simp: stuck_def)
    from less.hyps [OF step_decreases [OF s1 less.prems] net_ok_step [OF s1 less.prems]] s1
    show ?thesis by (meson converse_rtranclp_into_rtranclp)
  qed auto
qed

end

section \<open>One payload reaches every connected node\<close>

text \<open>
  \<open>willing\<close> nodes take the payload \<open>topic\<close> when it comes and send it to all their neighbours; \<open>quiet\<close> payloads may be under way at the same time
  without making a node unwilling. \<open>topic_net\<close>: all nodes are willing, and a neighbour of a node that has the topic has it too or will get it.
\<close>

definition topic_net ::
    "('p \<Rightarrow> 'n \<Rightarrow> bool) \<Rightarrow> ('n \<Rightarrow> bool) \<Rightarrow> 'p \<Rightarrow> ('n \<Rightarrow> string set) \<Rightarrow> ('n \<Rightarrow> bool) \<Rightarrow> ('p \<Rightarrow> bool) \<Rightarrow> ('n, 'p) net \<Rightarrow> bool" where
  "topic_net seen good topic nbrs willing quiet s \<longleftrightarrow>
     (\<forall>a n. nodes s a = Some n \<longrightarrow> good n \<and> willing n) \<and> (\<forall>(a, p) \<in># in_flight s. quiet p)
     \<and> (\<forall>a n b. nodes s a = Some n \<and> seen topic n \<and> b \<in> nbrs n \<longrightarrow>
          (b, topic) \<in># in_flight s \<or> (\<forall>m. nodes s b = Some m \<longrightarrow> seen topic m))"

locale flood_topic = flooding react seen good bound
  for react :: "'p \<Rightarrow> 'n \<Rightarrow> 'n \<Rightarrow> (string \<times> 'p) list \<Rightarrow> bool" and seen :: "'p \<Rightarrow> 'n \<Rightarrow> bool" and good :: "'n \<Rightarrow> bool" and bound :: nat +
  fixes topic :: 'p and nbrs :: "'n \<Rightarrow> string set" and willing :: "'n \<Rightarrow> bool" and quiet :: "'p \<Rightarrow> bool"
  assumes react_willing: "good n \<Longrightarrow> willing n \<Longrightarrow> quiet q \<Longrightarrow> react q n n' ms \<Longrightarrow> willing n'"
    and react_nbrs: "react q n n' ms \<Longrightarrow> nbrs n' = nbrs n"
    and react_other: "quiet q \<Longrightarrow> q \<noteq> topic \<Longrightarrow> react q n n' ms \<Longrightarrow> seen topic n' = seen topic n"
    and react_topic: "good n \<Longrightarrow> willing n \<Longrightarrow> react topic n n' ms \<Longrightarrow> seen topic n' \<and> (seen topic n \<or> (\<forall>a \<in> nbrs n. (a, topic) \<in> set ms))"
    and can_react: "good n \<Longrightarrow> willing n \<Longrightarrow> \<exists>n' ms. react topic n n' ms"
begin

lemma links_step: "net_step react s s' \<Longrightarrow> links nbrs (nodes s') = links nbrs (nodes s) \<and> dom (nodes s') = dom (nodes s)"
proof (induction rule: net_step.induct)
  case (deliver a p fs ns n n' ms)
  have "dom (ns(a \<mapsto> n')) = dom ns" using deliver.hyps(2) by auto
  then show ?case using react_nbrs [OF deliver.hyps(3)] deliver.hyps(2) by (fastforce simp: links_def split: if_splits)
qed simp

lemma topic_net_step: "net_step react s s' \<Longrightarrow> topic_net seen good topic nbrs willing quiet s \<Longrightarrow> topic_net seen good topic nbrs willing quiet s'"
proof (induction rule: net_step.induct)
  case (deliver a p fs ns n n' ms)
  have n: "good n" "willing n" "quiet p" using deliver by (auto simp: topic_net_def)
  have n': "good n'" "willing n'" "nbrs n' = nbrs n" "\<And>q. seen q n \<Longrightarrow> seen q n'"
    using n deliver.hyps(3) react_good react_willing react_nbrs react_mono by blast+
  have new: "\<forall>b \<in> nbrs n. (b, topic) \<in> set ms" if "seen topic n'" "\<not> seen topic n"
    using that react_other [OF n(3) _ deliver.hyps(3)] react_topic [OF n(1,2)] deliver.hyps(3) by blast
  have fl: "(c, topic) \<in># fs - {#(a, p)#} \<or> c = a \<and> seen topic n'" if "(c, topic) \<in># fs" for c
    using that react_topic [OF n(1,2)] deliver.hyps(1,3) by (metis Pair_inject insert_DiffM insert_noteq_member)
  have "(c, topic) \<in># fs - {#(a, p)#} + mset ms \<or> (\<forall>k. (ns(a \<mapsto> n')) c = Some k \<longrightarrow> seen topic k)"
    if b: "(ns(a \<mapsto> n')) b = Some m" "seen topic m" "c \<in> nbrs m" for b m c
  proof (cases "b = a \<and> \<not> seen topic n")
    case True
    then show ?thesis using b new n'(3) by auto
  next
    case False
    then obtain m0 where "ns b = Some m0" "seen topic m0" "c \<in> nbrs m0" using b deliver.hyps(2) n'(3) by (auto split: if_splits)
    then have "(c, topic) \<in># fs \<or> (\<forall>k. ns c = Some k \<longrightarrow> seen topic k)" using deliver.prems by (auto simp: topic_net_def)
    then show ?thesis using fl n'(4) deliver.hyps(2) by auto
  qed
  moreover have "quiet q" if "(c, q) \<in># fs - {#(a, p)#} + mset ms" for c q
    using that deliver.prems n(3) react_same [OF n(1) deliver.hyps(3)] by (auto simp: topic_net_def dest: in_diffD)
  moreover have "good m \<and> willing m" if "(ns(a \<mapsto> n')) b = Some m" for b m
    using that deliver.prems n' by (auto simp: topic_net_def split: if_splits)
  ultimately show ?case unfolding topic_net_def net.sel by blast
next
  case (lost a p fs ns)
  have fl: "(c, topic) \<in># fs - {#(a, p)#} \<or> c = a" if "(c, topic) \<in># fs" for c
    using that lost.hyps(1) by (metis Pair_inject insert_DiffM insert_noteq_member)
  have "(c, topic) \<in># fs - {#(a, p)#} \<or> (\<forall>k. ns c = Some k \<longrightarrow> seen topic k)" if "ns b = Some m" "seen topic m" "c \<in> nbrs m" for b m c
    using that lost fl [of c] unfolding topic_net_def net.sel by (metis option.distinct(1))
  then show ?case using lost.prems unfolding topic_net_def net.sel by (blast dest: in_diffD)
qed

lemma topic_net_run:
  assumes "(net_step react)\<^sup>*\<^sup>* s s'" "topic_net seen good topic nbrs willing quiet s"
  shows "topic_net seen good topic nbrs willing quiet s' \<and> links nbrs (nodes s') = links nbrs (nodes s)"
  using assms by (induction rule: rtranclp_induct) (use topic_net_step links_step in blast)+

text \<open>At rest, no call with the topic is left.\<close>

lemma topic_rest:
  assumes "topic_net seen good topic nbrs willing quiet s" "stuck react s"
  shows "(c, topic) \<notin># in_flight s"
proof
  assume c: "(c, topic) \<in># in_flight s"
  obtain ns fs where s: "s = Net ns fs" by (cases s)
  show False
  proof (cases "ns c")
    case None
    then show False using c assms(2) net_step.lost [of c topic fs ns react] by (auto simp: s stuck_def)
  next
    case (Some m)
    then obtain m' ms where "react topic m m' ms" using can_react [of m] assms(1) by (auto simp: topic_net_def s)
    then show False using c Some assms(2) net_step.deliver [of c topic fs ns m react m' ms] by (auto simp: s stuck_def)
  qed
qed

lemma flood_rest:
  assumes "topic_net seen good topic nbrs willing quiet s" "net_ok good {topic} s" "(net_step react)\<^sup>*\<^sup>* s s'" "stuck react s'"
  shows "in_flight s' = {#}"
proof -
  have "snd x = topic" if "x \<in># in_flight s'" for x using net_ok_run [OF assms(3,2)] that by (auto simp: net_ok_def)
  moreover have "(c, topic) \<notin># in_flight s'" for c using topic_rest topic_net_run assms by blast
  ultimately show ?thesis by (metis multiset_nonemptyE surjective_pairing)
qed

lemma seen_run:
  assumes "(net_step react)\<^sup>*\<^sup>* s s'" "topic_net seen good topic nbrs willing quiet s" "nodes s a = Some n" "seen topic n"
  shows "\<exists>m. nodes s' a = Some m \<and> seen topic m"
  using assms(1)
proof (induction rule: rtranclp_induct)
  case (step s1 s2)
  then obtain m where m: "nodes s1 a = Some m" "seen topic m" by blast
  then have "good m" using topic_net_run [OF step.hyps(1) assms(2)] by (simp add: topic_net_def)
  from step.hyps(2) show ?case using m \<open>good m\<close> by (cases rule: net_step.cases) (auto dest: react_mono)
qed (use assms in blast)

lemma flood_complete:
  assumes "topic_net seen good topic nbrs willing quiet s" "(net_step react)\<^sup>*\<^sup>* s s'" "stuck react s'"
    and "nodes s a = Some n" "seen topic n" "(a, b) \<in> (links nbrs (nodes s))\<^sup>*"
  shows "\<exists>m. nodes s' b = Some m \<and> seen topic m \<and> willing m"
proof -
  note inv = topic_net_run [OF assms(2,1)]
  from assms(6) have "\<exists>m. nodes s' b = Some m \<and> seen topic m"
  proof (induction rule: rtrancl_induct)
    case (step b c)
    then obtain m where "nodes s' b = Some m" "seen topic m" by blast
    moreover have "(b, c) \<in> links nbrs (nodes s')" using step.hyps(2) inv by simp
    ultimately show ?case using inv topic_rest [of s'] assms(3) by (fastforce simp: links_def topic_net_def)
  qed (use seen_run [OF assms(2,1,4,5)] in blast)
  then show ?thesis using inv by (auto simp: topic_net_def)
qed

end

end
