(* ===== verification/Network.thy ===== *)
theory Network
  imports Sync Gossip
begin

text \<open>
  Many nodes: the networks of \<open>Gossip\<close> with the nodes of \<^verbatim>\<open>pkg/node.go\<close>, whose calls to \<^verbatim>\<open>ForwardTransaction\<close> and \<^verbatim>\<open>ForwardBlock\<close> are under way. A call is
  handled by the node at its address, in any order; the calls of that handler join those under way. The node's other handlers and its goroutines
  do not run meanwhile, and the peers of the nodes stay as they are.
\<close>

section \<open>Forwarding\<close>

datatype payload = PayTx proto_Transaction | PayBlk proto_Block

definition forward ::
    "('pk, 'sk) ecdsa \<Rightarrow> (byte list \<Rightarrow> byte list) \<Rightarrow> string list \<Rightarrow> payload \<Rightarrow> ('pk, 'sk) Node \<Rightarrow> (('pk, 'sk) Node \<times> node_event list \<times> bool) go" where
  "forward ec H ks p n = (case p of PayTx req \<Rightarrow> ForwardTransaction ec H ks req n | PayBlk req \<Rightarrow> ForwardBlock ec H ks req n)"

text \<open>The calls among the events of a handler.\<close>

fun fwd_call :: "node_event \<Rightarrow> (string \<times> payload) option" where
  "fwd_call (RpcForwardTransaction a req) = Some (a, PayTx req)"
| "fwd_call (RpcForwardBlock a req) = Some (a, PayBlk req)"
| "fwd_call ev = None"

definition relays ::
    "('pk, 'sk) ecdsa \<Rightarrow> (byte list \<Rightarrow> byte list) \<Rightarrow> payload \<Rightarrow> ('pk, 'sk) Node \<Rightarrow> ('pk, 'sk) Node \<Rightarrow> (string \<times> payload) list \<Rightarrow> bool" where
  "relays ec H p n n' ms \<longleftrightarrow>
     (\<exists>ks ev err. range_order (peers (PeerDb n)) ks \<and> forward ec H ks p n = Inr (n', ev, err) \<and> ms = List.map_filter fwd_call ev)"

definition has_seen :: "(byte list \<Rightarrow> byte list) \<Rightarrow> payload \<Rightarrow> ('pk, 'sk) Node \<Rightarrow> bool" where
  "has_seen H p n = (case p of
     PayTx req \<Rightarrow> seen (TxMap n) (Transaction_Hash H (Transaction_Deserialize req))
   | PayBlk req \<Rightarrow> (case Block_Deserialize req of Inl e \<Rightarrow> False | Inr b \<Rightarrow> seen (BlockMap n) (Block_Hash H b)))"

definition good_node :: "(byte list \<Rightarrow> byte list) \<Rightarrow> ('pk, 'sk) Node \<Rightarrow> bool" where
  "good_node H n \<longleftrightarrow> (\<exists>conf. nodeinv H conf n)"

lemma reach_good: "node_reach ec H conf n \<Longrightarrow> good_node H n"
  by (auto simp: good_node_def dest: node_reach_inv)

definition peer_names :: "('pk, 'sk) Node \<Rightarrow> string set" where
  "peer_names n = set (gkeys (peers (PeerDb n)))"

lemma peer_calls:
  assumes "good_node H n" "range_order (peers (PeerDb n)) ks"
  shows "map (peer_addr n) (PeerDb_List ks (PeerDb n)) = ks"
proof -
  have ok: "peers_ok (addr_mem n) (PeerDb n)" using assms(1) by (auto simp: good_node_def nodeinv_def)
  have "\<forall>k \<in> set ks. \<exists>p. gget (peers (PeerDb n)) k = Some p \<and> peer_addr n p = k"
    using ok range_order_set [OF assms(2)] by (auto simp: peers_ok_def in_gkeys_iff)
  then show ?thesis unfolding PeerDb_List_def by (induction ks) (auto simp: List.map_filter_simps)
qed

lemma calls_to_peers:
  "List.map_filter fwd_call (map (\<lambda>p. RpcForwardTransaction (f p) req) ps) = map (\<lambda>k. (k, PayTx req)) (map f ps)"
  "List.map_filter fwd_call (map (\<lambda>p. RpcForwardBlock (f p) reqb) ps) = map (\<lambda>k. (k, PayBlk reqb)) (map f ps)"
  by (simp_all add: List.map_filter_def comp_def)

lemma map_filter_append [simp]: "List.map_filter f (xs @ ys) = List.map_filter f xs @ List.map_filter f ys"
  by (simp add: List.map_filter_def)

text \<open>What becomes of a call, as far as the network is concerned.\<close>

lemma relays_tx:
  assumes "relays ec H (PayTx req) n n' ms"
  obtains "n' = n" "ms = []" "has_seen H (PayTx req) n \<or> ChkTx ec H (MxBlkSz (n_Conf n)) (Chain n) (Some (Transaction_Deserialize req)) = Inr False"
  | ks where "\<not> has_seen H (PayTx req) n" "n' = n\<lparr>TxMap := gset (Transaction_Hash H (Transaction_Deserialize req)) True (TxMap n)\<rparr>"
      "range_order (peers (PeerDb n)) ks" "ms = map (\<lambda>p. (peer_addr n p, PayTx req)) (PeerDb_List ks (PeerDb n))"
proof -
  obtain ks ev err where r: "range_order (peers (PeerDb n)) ks" "ForwardTransaction ec H ks req n = Inr (n', ev, err)" "ms = List.map_filter fwd_call ev"
    using assms by (auto simp: relays_def forward_def)
  show thesis
  proof (cases "seen (TxMap n) (Transaction_Hash H (Transaction_Deserialize req))")
    case True
    with r that(1) show thesis by (auto simp: ForwardTransaction_def has_seen_def List.map_filter_simps)
  next
    case False
    then obtain ok where ok: "ChkTx ec H (MxBlkSz (n_Conf n)) (Chain n) (Some (Transaction_Deserialize req)) = Inr ok"
      using r(2) by (auto simp: ForwardTransaction_def go_simps Let_def)
    show thesis
    proof (cases ok)
      case True
      with r False ok Transaction_Serialize_Deserialize [of req] show thesis
        by (intro that(2) [of ks]) (auto simp: ForwardTransaction_def has_seen_def go_simps Let_def calls_to_peers List.map_filter_simps)
    next
      case False
      with r ok \<open>\<not> seen _ _\<close> show thesis by (intro that(1)) (auto simp: ForwardTransaction_def go_simps Let_def List.map_filter_simps)
    qed
  qed
qed

lemma relays_blk:
  assumes "relays ec H (PayBlk req) n n' ms"
  obtains "n' = n" "ms = []" "has_seen H (PayBlk req) n"
  | b where "Block_Deserialize req = Inr b" "\<not> has_seen H (PayBlk req) n" "n' = n\<lparr>BlockMap := gset (Block_Hash H b) True (BlockMap n)\<rparr>" "ms = []"
      "ChkBlk ec H (MxBlkSz (n_Conf n)) (Chain n) (Some b) = Inr False"
  | b bc ks where "Block_Deserialize req = Inr b" "\<not> has_seen H (PayBlk req) n" "Blockchain_Add H (Some b) (Chain n) = Inr bc"
      "n' = n\<lparr>BlockMap := gset (Block_Hash H b) True (BlockMap n), Chain := bc\<rparr>" "range_order (peers (PeerDb n)) ks"
      "ms = map (\<lambda>p. (peer_addr n p, PayBlk req)) (PeerDb_List ks (PeerDb n))"
proof -
  obtain ks ev err where r: "range_order (peers (PeerDb n)) ks" "ForwardBlock ec H ks req n = Inr (n', ev, err)" "ms = List.map_filter fwd_call ev"
    using assms by (auto simp: relays_def forward_def)
  from r(2) show thesis
  proof (cases rule: ForwardBlock_cases)
    case (1 b)
    with r that(1) show thesis by (simp add: has_seen_def List.map_filter_simps)
  next
    case (2 b)
    with r that(2) [of b] show thesis by (simp add: has_seen_def List.map_filter_simps)
  next
    case (3 b bc)
    have w: "List.map_filter fwd_call wev = []" if "(if c then safe_block m else Inr []) = Inr wev" for c m wev
      using that by (auto simp: safe_block_def Let_def List.map_filter_simps split: if_splits list.splits)
    have "Block_Serialize b = req" using 3(1) by (auto simp: Block_Deserialize_def Block_Serialize_def Let_def comp_def Transaction_Serialize_Deserialize split: option.splits)
    then have "ms = map (\<lambda>p. (peer_addr n p, PayBlk req)) (PeerDb_List ks (PeerDb n))"
      using r(2,3) 3 by (auto simp: ForwardBlock_def go_simps Let_def calls_to_peers List.map_filter_simps dest: w)
    with r 3 that(3) [of b bc ks] show thesis by (simp add: has_seen_def)
  qed
qed

lemma good_forward: "good_node H n \<Longrightarrow> relays ec H p n n' ms \<Longrightarrow> good_node H n'"
  by (cases p) (auto simp: good_node_def relays_def forward_def dest: ForwardTransaction_inv ForwardBlock_inv)

lemma good_peers: "good_node H n \<Longrightarrow> range_order (peers (PeerDb n)) ks \<Longrightarrow> length (PeerDb_List ks (PeerDb n)) \<le> 200"
proof -
  assume g: "good_node H n" and ks: "range_order (peers (PeerDb n)) ks"
  have "length (PeerDb_List ks (PeerDb n)) = length ks" using arg_cong [OF peer_calls [OF g ks], of length] by simp
  also have "\<dots> = length (peers (PeerDb n))" using arg_cong [OF ks [unfolded range_order_def], of size] by (simp add: gkeys_def)
  finally show ?thesis using g by (auto simp: good_node_def nodeinv_def peers_ok_def)
qed

text \<open>What a call changes of a node, and what it sends.\<close>

lemma relays_effect:
  assumes "relays ec H p n n' ms"
  shows "\<exists>k. n' = n \<or> n' = n\<lparr>TxMap := gset k True (TxMap n)\<rparr> \<or> n' = n\<lparr>BlockMap := gset k True (BlockMap n)\<rparr>
        \<or> (\<exists>bc. n' = n\<lparr>BlockMap := gset k True (BlockMap n), Chain := bc\<rparr>)"
    and "ms \<noteq> [] \<Longrightarrow> \<not> has_seen H p n \<and> has_seen H p n'"
    and "ms \<noteq> [] \<Longrightarrow> \<exists>ks. range_order (peers (PeerDb n)) ks \<and> ms = map (\<lambda>x. (peer_addr n x, p)) (PeerDb_List ks (PeerDb n))"
  using assms by (cases p; auto elim!: relays_tx relays_blk simp: has_seen_def)+

lemma relays_keeps:
  assumes "relays ec H p n n' ms"
  shows "peer_names n' = peer_names n" "n_Conf n' = n_Conf n" "n_Addr n' = n_Addr n" "has_seen H q n \<Longrightarrow> has_seen H q n'"
  using relays_effect(1) [OF assms] by (auto simp: peer_names_def has_seen_def split: payload.splits sum.splits)

text \<open>Both handlers keep the promises of \<open>flooding\<close>, with at most 200 calls each.\<close>

interpretation rel: flooding "relays ec H" "has_seen H" "good_node H" 200 for ec :: "('pk, 'sk) ecdsa" and H
proof
  fix p q and n n' :: "('pk, 'sk) Node" and ms and a :: string
  assume r: "relays ec H p n n' ms"
  show "good_node H n \<Longrightarrow> good_node H n'" by (rule good_forward [OF _ r])
  show "has_seen H q n \<Longrightarrow> has_seen H q n'" by (rule relays_keeps(4) [OF r])
  show "q = p" if "(a, q) \<in> set ms" using that relays_effect(3) [OF r] by (cases "ms = []") auto
  show "\<not> has_seen H p n \<and> has_seen H p n'" if "ms \<noteq> []" using relays_effect(2) [OF r that] .
  show "length ms \<le> 200" if "good_node H n" using relays_effect(3) [OF r] good_peers [OF that] by (cases "ms = []") auto
qed

text \<open>
  C13: Forwarding ends. Let any finite number of reachable nodes with any calls under way only forward what they are sent. Then every run is finite:
  it handles at most 200 calls for each pair of a node and a different message, besides those that are under way at the start; and the nodes
  come to rest, with no call left but such on which a handler would panic.
\<close>

theorem forwarding_ends:
  assumes "finite (dom ns)" "\<And>a n. ns a = Some n \<Longrightarrow> node_reach ec H (conf a) n"
  shows "((net_step (relays ec H) ^^ k) (Net ns fs) s' \<longrightarrow> k \<le> 200 * card (dom ns) * card (snd ` set_mset fs) + size fs)
    \<and> (\<exists>s'. (net_step (relays ec H))\<^sup>*\<^sup>* (Net ns fs) s' \<and> stuck (relays ec H) s')"
proof -
  have ok: "net_ok (good_node H) (snd ` set_mset fs) (Net ns fs)"
    using assms(1) node_reach_inv [OF assms(2)] by (auto simp: net_ok_def good_node_def intro: rev_image_eqI)
  then show ?thesis using rel.run_bounded [OF ok, where ec = ec and k = k and s' = s'] rel.run_ends [OF ok, where ec = ec] by auto
qed

text \<open>Two nodes on the example chain for witnesses, the second a peer of the first.\<close>

definition demo_b_req :: proto_VersionRequest where
  "demo_b_req = \<lparr>pvr_Version = 1, pvr_AddrYou = [], pvr_AddrMe = ''b:1'', pvr_BestHeight = 0\<rparr>"

definition demo_a :: "(byte, byte) Node" where
  "demo_a = registered NoConnection 1 3 4 demo_b_req demo_node"

definition demo_pair :: "string \<rightharpoonup> (byte, byte) Node" where
  "demo_pair = [''a:1'' \<mapsto> demo_a, ''b:1'' \<mapsto> demo_node]"

lemma demo_a_reach: "node_reach echo_ecdsa length_digest demo_node_conf demo_a"
proof (rule reach_step [OF demo_node_reach step_version])
  show "Node_VersionHandler NoConnection 1 2 3 4 demo_b_req demo_node = Inr (demo_a,
      [RpcVersion (pvr_AddrMe demo_b_req) (version_request demo_node (pvr_AddrMe demo_b_req))], NoConnection \<noteq> RpcReply)"
    unfolding demo_a_def
    by (rule Version_first) (simp_all add: demo_b_req_def demo_node_def demo_node0_def demo_node_conf_def NoMnrConfig_def AddressDb_New_def PeerDb_New_def)
qed

lemma demo_a_fields:
  "n_Conf demo_a = demo_node_conf" "Chain demo_a = demo_chain" "BlockMap demo_a = [(num_hash 75, True)]" "TxMap demo_a = []" "n_Addr demo_a = []"
  "range_order (peers (PeerDb demo_a)) [''b:1'']" "peer_names demo_a = {''b:1''}"
  by (simp_all add: demo_a_def registered_def demo_node_fields PeerDb_New_def demo_b_req_def range_order_def gkeys_def peer_names_def)

lemma demo_pair_nodes:
  "demo_pair k = Some m \<Longrightarrow> node_reach echo_ecdsa length_digest demo_node_conf m \<and> n_Addr m = [] \<and> Chain m = demo_chain \<and> TxMap m = []
     \<and> BlockMap m = [(num_hash 75, True)] \<and> n_Conf m = demo_node_conf"
  by (auto simp: demo_pair_def demo_a_fields demo_node_fields demo_a_reach demo_node_reach split: if_splits)

lemma demo_pair_links: "(''a:1'', ''b:1'') \<in> (links peer_names demo_pair)\<^sup>*" "finite (dom demo_pair)" "demo_pair ''a:1'' = Some demo_a"
  by (auto simp: links_def demo_pair_def demo_a_fields)

theorem forwarding_ends_witness:
  "\<exists>s'. (net_step (relays echo_ecdsa length_digest))\<^sup>*\<^sup>* (Net demo_pair {#(''a:1'', PayTx (Transaction_Serialize (demo_pay 9 8)))#}) s'
     \<and> stuck (relays echo_ecdsa length_digest) s'"
  using forwarding_ends [OF demo_pair_links(2), of echo_ecdsa length_digest "\<lambda>_. demo_node_conf"] demo_pair_nodes by blast

lemma relaysI: "forward ec H (gkeys (peers (PeerDb n))) p n = Inr (n', ev, err) \<Longrightarrow> relays ec H p n n' (List.map_filter fwd_call ev)"
  unfolding relays_def by (intro exI conjI) (rule range_order_refl, assumption, rule refl)

lemma announce_calls:
  "go_map (\<lambda>p. go_bind A (\<lambda>_. go_bind B (\<lambda>_. go_bind (C p) (\<lambda>_. Inr (f p))))) ps = Inr rs \<Longrightarrow> rs = map f ps"
  by (induction ps arbitrary: rs) (auto simp: go_simps)

section \<open>Transactions reach every connected node\<close>

definition tx_willing :: "('pk, 'sk) ecdsa \<Rightarrow> (byte list \<Rightarrow> byte list) \<Rightarrow> Transaction \<Rightarrow> ('pk, 'sk) Node \<Rightarrow> bool" where
  "tx_willing ec H t n \<longleftrightarrow> ChkTx ec H (MxBlkSz (n_Conf n)) (Chain n) (Some t) = Inr True \<and> (\<exists>a. FmtAddr (n_Addr n) = Inr a)
     \<and> (\<exists>s. Transaction_NameTag H t = Inr s)"

text \<open>Other transactions may be under way too, when they do not collide with \<open>t\<close>.\<close>

fun tx_quiet :: "(byte list \<Rightarrow> byte list) \<Rightarrow> Transaction \<Rightarrow> payload \<Rightarrow> bool" where
  "tx_quiet H t (PayTx req) = (Transaction_Hash H (Transaction_Deserialize req) = Transaction_Hash H t \<longrightarrow> req = Transaction_Serialize t)"
| "tx_quiet H t (PayBlk req) = False"

abbreviation tx_topic :: "Transaction \<Rightarrow> payload" where
  "tx_topic t \<equiv> PayTx (Transaction_Serialize t)"

lemma NameTag_clear [simp]: "Transaction_NameTag H (clear_liminal t) = Transaction_NameTag H t"
  by (simp add: Transaction_NameTag_def)

lemma topic_Deserialize [simp]: "has_seen H (tx_topic t) n = seen (TxMap n) (Transaction_Hash H t)"
  by (simp add: has_seen_def Transaction_Deserialize_Serialize)

lemma relays_tx_chain: "relays ec H (PayTx req) n n' ms \<Longrightarrow> Chain n' = Chain n \<and> BlockMap n' = BlockMap n"
  by (erule relays_tx) auto

interpretation txf: flood_topic "relays ec H" "has_seen H" "good_node H" 200 "tx_topic t" peer_names "tx_willing ec H t" "tx_quiet H t"
  for ec :: "('pk, 'sk) ecdsa" and H t
proof
  fix q and n n' :: "('pk, 'sk) Node" and ms
  show "peer_names n' = peer_names n" if "relays ec H q n n' ms" by (rule relays_keeps(1) [OF that])
  show "tx_willing ec H t n'" if "tx_willing ec H t n" "tx_quiet H t q" "relays ec H q n n' ms"
    using that relays_keeps [OF that(3)] by (cases q) (auto simp: tx_willing_def dest: relays_tx_chain)
  show "has_seen H (tx_topic t) n' = has_seen H (tx_topic t) n" if "tx_quiet H t q" "q \<noteq> tx_topic t" "relays ec H q n n' ms"
    using that by (cases q) (auto elim!: relays_tx)
  show "has_seen H (tx_topic t) n' \<and> (has_seen H (tx_topic t) n \<or> (\<forall>a \<in> peer_names n. (a, tx_topic t) \<in> set ms))"
    if "good_node H n" "tx_willing ec H t n" "relays ec H (tx_topic t) n n' ms"
    using that(3)
  proof (cases rule: relays_tx)
    case (2 ks)
    have "set ms = (\<lambda>k. (k, tx_topic t)) ` set ks" using arg_cong [OF peer_calls [OF that(1) 2(3)], of set] 2(4) by (auto simp: image_def)
    then show ?thesis using 2 range_order_set [OF 2(3)] by (auto simp: peer_names_def Transaction_Deserialize_Serialize)
  qed (use that(2) in \<open>auto simp: tx_willing_def Transaction_Deserialize_Serialize\<close>)
  show "\<exists>n' ms. relays ec H (tx_topic t) n n' ms" if "tx_willing ec H t n"
  proof -
    have "\<exists>n' ev err. ForwardTransaction ec H (gkeys (peers (PeerDb n))) (Transaction_Serialize t) n = Inr (n', ev, err)"
      using that by (auto simp: tx_willing_def ForwardTransaction_def Transaction_Deserialize_Serialize Let_def)
    then show ?thesis using relaysI [of ec H n "tx_topic t"] by (fastforce simp: forward_def)
  qed
qed

text \<open>
  C3: A payment reaches every connected node. Let the nodes of a finite network be reachable and accept a transaction: none has seen it, and
  \<open>ChkTx\<close> accepts it at each. Let the wallet of one of them send it. For a digest of 32 bytes and addresses that can be printed: however the
  calls are delivered, once the nodes have come to rest, no call is left and every node that is connected to the sender over peers has seen the transaction; and the nodes do come to rest.
\<close>

theorem payment_reaches_network:
  assumes H: "\<And>v. length (H v) = 32" and fin: "finite (dom ns)"
    and nodes: "\<And>a n. ns a = Some n \<Longrightarrow> node_reach ec H (conf a) n \<and> (\<exists>s. FmtAddr (n_Addr n) = Inr s)
        \<and> ChkTx ec H (MxBlkSz (conf a)) (Chain n) (Some t) = Inr True"
    and unseen: "\<And>a n. ns a = Some n \<Longrightarrow> \<not> seen (TxMap n) (Transaction_Hash H t)"
    and send: "ns a = Some n" "range_order (peers (PeerDb n)) ks" "HndlWtTx H ks t n = Inr (n', ev)"
  defines "s \<equiv> Net (ns(a \<mapsto> n')) (mset (List.map_filter fwd_call ev))"
  shows "(\<forall>s'. (net_step (relays ec H))\<^sup>*\<^sup>* s s' \<and> stuck (relays ec H) s' \<longrightarrow> in_flight s' = {#}
        \<and> (\<forall>b. (a, b) \<in> (links peer_names ns)\<^sup>* \<longrightarrow> (\<exists>m. nodes s' b = Some m \<and> seen (TxMap m) (Transaction_Hash H t))))
    \<and> (\<exists>s'. (net_step (relays ec H))\<^sup>*\<^sup>* s s' \<and> stuck (relays ec H) s')"
proof -
  have n': "n' = n\<lparr>TxMap := gset (Transaction_Hash H t) True (TxMap n)\<rparr>"
    using send(3) by (auto simp: HndlWtTx_def go_simps Let_def)
  have good: "good_node H m" "n_Conf m = conf k" if "ns k = Some m" for k m
    using node_reach_inv nodes [OF that] by (auto simp: good_node_def nodeinv_def)
  have good': "good_node H n'" using node_reach_inv nodes [OF send(1)] HndlWtTx_inv send(3) by (fastforce simp: good_node_def)
  have will: "tx_willing ec H t m" if "ns k = Some m" for k m
    using nodes [OF that] good(2) [OF that] NameTag_ok [of H t, OF H] by (simp add: tx_willing_def)
  have will': "tx_willing ec H t n'" using will [OF send(1)] by (simp add: tx_willing_def n')
  obtain evs rpcs where "ev = evs @ rpcs" "evs = [] \<or> evs = [GoMnrHndlTx t]"
      "rpcs = map (\<lambda>p. RpcForwardTransaction (peer_addr n p) (Transaction_Serialize t)) (PeerDb_List ks (PeerDb n))"
    using send(3) by (auto simp: HndlWtTx_def go_simps Let_def dest: announce_calls)
  then have calls: "List.map_filter fwd_call ev = map (\<lambda>k. (k, tx_topic t)) ks"
    using peer_calls [OF good(1) [OF send(1)] send(2)] by (auto simp: calls_to_peers List.map_filter_simps)
  have "peer_names n' = set ks" using range_order_set [OF send(2)] by (simp add: n' peer_names_def)
  then have net: "topic_net (has_seen H) (good_node H) (tx_topic t) peer_names (tx_willing ec H t) (tx_quiet H t) s"
    using good(1) good' will will' unseen by (auto simp: topic_net_def s_def calls split: if_splits)
  have "links peer_names (ns(a \<mapsto> n')) = links peer_names ns" using send(1) by (auto simp: links_def n' peer_names_def split: if_splits)
  then have "\<exists>m. nodes s' b = Some m \<and> seen (TxMap m) (Transaction_Hash H t)"
    if "(net_step (relays ec H))\<^sup>*\<^sup>* s s'" "stuck (relays ec H) s'" "(a, b) \<in> (links peer_names ns)\<^sup>*" for s' b
    using txf.flood_complete [OF net that(1,2), of a n' b] that(3) by (auto simp: s_def n')
  moreover have ok: "net_ok (good_node H) {tx_topic t} s" using fin good(1) good' by (auto simp: net_ok_def s_def calls split: if_splits)
  ultimately show ?thesis using rel.run_ends [OF ok] txf.flood_rest [OF net ok] by blast
qed

lemma demo_b_print: "\<exists>s. FmtAddr ''b:1'' = Inr s" "FmtAddr [] = Inr []"
  by (simp_all add: FmtAddr_def Let_def ParseInt_def digit_val_def)

lemma demo_a_peer: "PeerDb_List [''b:1''] (PeerDb demo_a) = [p] \<Longrightarrow> peer_addr demo_a p = ''b:1''"
  using peer_calls [OF reach_good [OF demo_a_reach] demo_a_fields(6)] by simp

lemma demo_a_list: "\<exists>p. PeerDb_List [''b:1''] (PeerDb demo_a) = [p]"
  using peer_calls [OF reach_good [OF demo_a_reach] demo_a_fields(6)] by auto

theorem payment_reaches_network_witness:
  "\<exists>s' m. stuck (relays echo_ecdsa length_digest) s' \<and> nodes s' ''b:1'' = Some m \<and> seen (TxMap m) (Transaction_Hash length_digest (demo_pay 9 8))"
proof -
  obtain p where p: "PeerDb_List [''b:1''] (PeerDb demo_a) = [p]" "peer_addr demo_a p = ''b:1''" using demo_a_list demo_a_peer by blast
  obtain x y where "FmtAddr ''b:1'' = Inr x" "Transaction_NameTag length_digest (demo_pay 9 8) = Inr y"
    using demo_b_print NameTag_ok [of length_digest "demo_pay 9 8", OF length_length_digest] by blast
  then obtain n' ev where send: "HndlWtTx length_digest [''b:1''] (demo_pay 9 8) demo_a = Inr (n', ev)"
    using p demo_b_print(2) by (simp add: HndlWtTx_def Let_def demo_a_fields)
  show ?thesis
    using payment_reaches_network [OF length_length_digest demo_pair_links(2) _ _ demo_pair_links(3) demo_a_fields(6) send,
        of echo_ecdsa "\<lambda>_. demo_node_conf"] demo_pair_nodes demo_pair_links(1) demo_pay_ok [of 8 9] demo_b_print(2)
    by (simp add: demo_node_fields) blast
qed

section \<open>Blocks reach every connected node\<close>

text \<open>A node with the main chain \<open>c\<close> for which a block \<open>b\<close> comes next.\<close>

definition blk_next :: "('pk, 'sk) ecdsa \<Rightarrow> (byte list \<Rightarrow> byte list) \<Rightarrow> Block \<Rightarrow> Block list \<Rightarrow> ('pk, 'sk) Node \<Rightarrow> bool" where
  "blk_next ec H b c n \<longleftrightarrow> \<not> seen (BlockMap n) (Block_Hash H b) \<and> Blockchain_List (Chain n) = Inr c \<and> last_filed H (Chain n)
     \<and> PrvBlkHsh (Hdr b) = Block_Hash H (GetLastBlock (Chain n)) \<and> ChkBlk ec H (MxBlkSz (n_Conf n)) (Chain n) (Some b) = Inr True
     \<and> SafeBlkAmt (WtConf (n_Conf n)) \<noteq> 0"

definition blk_willing :: "('pk, 'sk) ecdsa \<Rightarrow> (byte list \<Rightarrow> byte list) \<Rightarrow> Block \<Rightarrow> Block list \<Rightarrow> ('pk, 'sk) Node \<Rightarrow> bool" where
  "blk_willing ec H b c n \<longleftrightarrow> blk_next ec H b c n \<or> seen (BlockMap n) (Block_Hash H b) \<and> Blockchain_List (Chain n) = Inr (c @ [b])"

abbreviation blk_topic :: "Block \<Rightarrow> payload" where
  "blk_topic b \<equiv> PayBlk (Block_Serialize b)"

text \<open>Transactions may be under way too.\<close>

definition blk_quiet :: "Block \<Rightarrow> payload \<Rightarrow> bool" where
  "blk_quiet b q = (case q of PayTx req \<Rightarrow> True | PayBlk req \<Rightarrow> req = Block_Serialize b)"

lemma blk_topic_seen [simp]: "has_seen H (blk_topic b) n = seen (BlockMap n) (Block_Hash H b)"
  by (simp add: has_seen_def Deserialize_wire)

lemma blk_next_add:
  assumes "good_node H n" "blk_next ec H b c n"
  obtains bc where "Blockchain_Add H (Some b) (Chain n) = Inr bc" "Blockchain_List bc = Inr (c @ [b])"
proof -
  obtain conf bs where run: "chain_run H conf bs (Chain n)" using assms(1) by (auto simp: good_node_def nodeinv_def)
  obtain bc where bc: "Blockchain_Add H (Some b) (Chain n) = Inr bc" "chain_of (LastBlock bc) = chain_of (LastBlock (Chain n)) @ [b]"
    using Add_on_top [of H "Chain n" b] assms(2) by (auto simp: blk_next_def)
  have "Blockchain_List bc = Inr (c @ [b])"
    using run_list [OF run_add [OF run bc(1)]] run_list [OF run] bc(2) assms(2) by (simp add: blk_next_def)
  with bc(1) show thesis by (rule that)
qed

lemma relays_blk_taken:
  assumes "good_node H n" "blk_next ec H (wire_block b) c n" "relays ec H (blk_topic b) n n' ms"
  shows "blk_willing ec H (wire_block b) c n' \<and> seen (BlockMap n') (Block_Hash H b) \<and> (\<forall>a \<in> peer_names n. (a, blk_topic b) \<in> set ms)"
  using assms(3)
proof (cases rule: relays_blk)
  case (3 b' bc ks)
  have "b' = wire_block b" using 3(1) by (simp add: Deserialize_wire)
  moreover have "Blockchain_List bc = Inr (c @ [wire_block b])"
    using blk_next_add [OF assms(1,2)] 3(3) \<open>b' = wire_block b\<close> by (metis sum.inject(2))
  moreover have "set ms = (\<lambda>k. (k, blk_topic b)) ` set ks" using arg_cong [OF peer_calls [OF assms(1) 3(5)], of set] 3(6) by (auto simp: image_def)
  ultimately show ?thesis using 3 range_order_set [OF 3(5)] by (auto simp: peer_names_def blk_willing_def)
qed (use assms(2) in \<open>auto simp: blk_next_def Deserialize_wire\<close>)

interpretation blf: flood_topic "relays ec H" "has_seen H" "good_node H" 200 "blk_topic b" peer_names "blk_willing ec H (wire_block b) c" "blk_quiet b"
  for ec :: "('pk, 'sk) ecdsa" and H b c
proof
  fix q and n n' :: "('pk, 'sk) Node" and ms
  show "peer_names n' = peer_names n" if "relays ec H q n n' ms" by (rule relays_keeps(1) [OF that])
  have again: "n' = n" if "blk_willing ec H (wire_block b) c n" "\<not> blk_next ec H (wire_block b) c n" "relays ec H (blk_topic b) n n' ms"
    using that(3) by (cases rule: relays_blk) (use that(1,2) in \<open>auto simp: blk_willing_def\<close>)
  show "blk_willing ec H (wire_block b) c n'"
    if "good_node H n" "blk_willing ec H (wire_block b) c n" "blk_quiet b q" "relays ec H q n n' ms"
  proof (cases q)
    case (PayTx req)
    then have "Chain n' = Chain n" "BlockMap n' = BlockMap n" using that(4) relays_tx_chain by blast+
    then show ?thesis using that(2) relays_keeps(2) [OF that(4)] by (simp add: blk_willing_def blk_next_def)
  next
    case (PayBlk req)
    then show ?thesis using that again relays_blk_taken [OF that(1)] by (fastforce simp: blk_quiet_def)
  qed
  show "has_seen H (blk_topic b) n' = has_seen H (blk_topic b) n" if "blk_quiet b q" "q \<noteq> blk_topic b" "relays ec H q n n' ms"
    using that by (cases q) (auto simp: blk_quiet_def dest: relays_tx_chain)
  show "has_seen H (blk_topic b) n' \<and> (has_seen H (blk_topic b) n \<or> (\<forall>a \<in> peer_names n. (a, blk_topic b) \<in> set ms))"
    if "good_node H n" "blk_willing ec H (wire_block b) c n" "relays ec H (blk_topic b) n n' ms"
    using that again [OF that(2) _ that(3)] relays_blk_taken [OF that(1) _ that(3)] by (auto simp: blk_willing_def)
  show "\<exists>n' ms. relays ec H (blk_topic b) n n' ms" if "good_node H n" "blk_willing ec H (wire_block b) c n"
  proof -
    have "\<exists>n' ev err. ForwardBlock ec H (gkeys (peers (PeerDb n))) (Block_Serialize b) n = Inr (n', ev, err)"
    proof (cases "blk_next ec H (wire_block b) c n")
      case True
      note blk_next_add [OF that(1) True]
      then obtain bc where "Blockchain_Add H (Some (wire_block b)) (Chain n) = Inr bc" by blast
      from ForwardBlock_accept [OF Deserialize_wire _ _ this, of ec "gkeys (peers (PeerDb n))"] True show ?thesis
        by (auto simp: blk_next_def)
    next
      case False
      then show ?thesis using that(2) by (auto simp: blk_willing_def ForwardBlock_def Deserialize_wire)
    qed
    then show ?thesis using relaysI [of ec H n "blk_topic b"] by (fastforce simp: forward_def)
  qed
qed

text \<open>
  C2: The network agrees on a mined block. Let the nodes of a finite network be reachable and have the same main chain, let a block come next on it for all of
  them: no node has seen it, its parent is the last block of the main chain, which is filed under its hash, \<open>ChkBlk\<close> accepts it, and the wallet's safe
  depth is not zero. Let the miner of one of them hand the block to its node. However the calls are delivered, once the nodes have come to rest, no call is left and every
  node connected to the miner over peers has that main chain with the block at its end; and the nodes do come to rest.
\<close>

theorem mined_block_reaches_network:
  assumes fin: "finite (dom ns)" and nodes: "\<And>k m. ns k = Some m \<Longrightarrow> node_reach ec H (conf k) m \<and> blk_next ec H b c m" and wire: "wire_block b = b"
    and mine: "ns a = Some n" "range_order (peers (PeerDb n)) ks" "HndlMnrBlk H ks (Some b) n = Inr (n', ev)"
  defines "s \<equiv> Net (ns(a \<mapsto> n')) (mset (List.map_filter fwd_call ev))"
  shows "(\<forall>s'. (net_step (relays ec H))\<^sup>*\<^sup>* s s' \<and> stuck (relays ec H) s' \<longrightarrow> in_flight s' = {#}
        \<and> (\<forall>k. (a, k) \<in> (links peer_names ns)\<^sup>* \<longrightarrow> (\<exists>m. nodes s' k = Some m \<and> Blockchain_List (Chain m) = Inr (c @ [b]))))
    \<and> (\<exists>s'. (net_step (relays ec H))\<^sup>*\<^sup>* s s' \<and> stuck (relays ec H) s')"
proof -
  have good: "good_node H m" if "ns k = Some m" for k m using nodes [OF that] by (blast intro: reach_good)
  have good': "good_node H n'" using node_reach_inv nodes [OF mine(1)] HndlMnrBlk_inv mine(3) by (fastforce simp: good_node_def)
  obtain bc where bc: "Blockchain_Add H (Some b) (Chain n) = Inr bc" "Blockchain_List bc = Inr (c @ [b])"
    using blk_next_add [OF good [OF mine(1)]] nodes [OF mine(1)] by blast
  let ?n = "n\<lparr>BlockMap := gset (Block_Hash H b) True (BlockMap n), Chain := bc\<rparr>"
  obtain evs rpcs where e: "ev = evs @ rpcs" "List.map_filter fwd_call evs = []" and n': "n' = ?n"
      "rpcs = map (\<lambda>p. RpcForwardBlock (peer_addr n p) (Block_Serialize b)) (PeerDb_List ks (PeerDb n))"
    using mine(3) bc(1)
    by (auto simp: HndlMnrBlk_def go_simps Let_def safe_block_def List.map_filter_simps dest!: announce_calls split: if_splits list.splits)
  then have calls: "List.map_filter fwd_call ev = map (\<lambda>k. (k, blk_topic b)) ks"
    using peer_calls [OF good [OF mine(1)] mine(2)] by (simp add: calls_to_peers)
  have "blk_willing ec H b c n'" using bc(2) by (simp add: n' blk_willing_def)
  moreover have "peer_names n' = set ks" using range_order_set [OF mine(2)] by (simp add: n' peer_names_def)
  ultimately have net: "topic_net (has_seen H) (good_node H) (blk_topic b) peer_names (blk_willing ec H (wire_block b) c) (blk_quiet b) s"
    using good good' nodes by (auto simp: topic_net_def s_def calls wire blk_quiet_def blk_willing_def blk_next_def split: if_splits)
  have "links peer_names (ns(a \<mapsto> n')) = links peer_names ns" using mine(1) by (auto simp: links_def n' peer_names_def split: if_splits)
  then have "\<exists>m. nodes s' k = Some m \<and> Blockchain_List (Chain m) = Inr (c @ [b])"
    if "(net_step (relays ec H))\<^sup>*\<^sup>* s s'" "stuck (relays ec H) s'" "(a, k) \<in> (links peer_names ns)\<^sup>*" for s' k
    using blf.flood_complete [OF net that(1,2), of a n' k] that(3) by (auto simp: s_def n' wire blk_willing_def blk_next_def)
  moreover have ok: "net_ok (good_node H) {blk_topic b} s" using fin good good' by (auto simp: net_ok_def s_def calls split: if_splits)
  ultimately show ?thesis using rel.run_ends [OF ok] blf.flood_rest [OF net ok] by blast
qed

theorem mined_block_reaches_network_witness:
  "\<exists>s' m. stuck (relays echo_ecdsa length_digest) s' \<and> nodes s' ''b:1'' = Some m
     \<and> Blockchain_List (Chain m) = Inr [gen_block demo_conf, demo_b1, demo_relayed]"
proof -
  have list: "Blockchain_List demo_chain = Inr [gen_block demo_conf, demo_b1]"
    by (simp add: run_list [OF demo_chain_run]) (simp add: demo_chain_eq demo_nodes)
  have wire: "wire_block demo_relayed = demo_relayed" using demo_relayed_wire by (simp add: Deserialize_wire)
  have "last_filed length_digest demo_chain" "PrvBlkHsh (Hdr demo_relayed) = Block_Hash length_digest (GetLastBlock demo_chain)"
    by (simp_all add: last_filed_def GetLastBlock_def demo_chain_eq demo_nodes demo_hash demo_blk_def)
  then have nxt: "node_reach echo_ecdsa length_digest demo_node_conf m \<and> blk_next echo_ecdsa length_digest demo_relayed [gen_block demo_conf, demo_b1] m"
    if "demo_pair k = Some m" for k m
    using demo_pair_nodes [OF that] list demo_blk_ok by (simp add: blk_next_def demo_node_fields demo_relayed_hash)
  obtain p where p: "PeerDb_List [''b:1''] (PeerDb demo_a) = [p]" "peer_addr demo_a p = ''b:1''" using demo_a_list demo_a_peer by blast
  obtain x y where xy: "FmtAddr ''b:1'' = Inr x" "Block_NameTag length_digest demo_relayed = Inr y"
    using demo_b_print NameTag_ok [of length_digest undefined demo_relayed, OF length_length_digest] by blast
  obtain bc where bc: "Blockchain_Add length_digest (Some demo_relayed) demo_chain = Inr bc"
    using blk_next_add [OF reach_good [OF demo_a_reach]] nxt [OF demo_pair_links(3)] by (metis demo_a_fields(2))
  let ?n = "demo_a\<lparr>BlockMap := gset (num_hash 140) True [(num_hash 75, True)], Chain := bc\<rparr>"
  obtain sev where "safe_block ?n = Inr sev" using safe_block_ok [of ?n] by (auto simp: demo_a_fields demo_node_fields)
  then obtain n' ev where mine: "HndlMnrBlk length_digest [''b:1''] (Some demo_relayed) demo_a = Inr (n', ev)"
    using p xy bc demo_b_print(2) by (cases "HasWt (WtConf demo_node_conf)") (simp_all add: HndlMnrBlk_def Let_def demo_a_fields demo_relayed_hash)
  show ?thesis
    using mined_block_reaches_network [OF demo_pair_links(2) nxt wire demo_pair_links(3) demo_a_fields(6) mine] demo_pair_links(1) by fastforce
qed

end
