(* ===== verification/Addr_Gossip.thy ===== *)
theory Addr_Gossip
  imports Network
begin

text \<open>
  Addresses in a network: \<^verbatim>\<open>SendAddresses\<close> of \<^verbatim>\<open>pkg/server.go\<close> passes a list of addresses on to two peers when it learned something from it. The handler
  is another instance of the locale \<open>flooding\<close>: a node has seen a list when it knows every address of it.
\<close>

section \<open>What a node knows\<close>

text \<open>An address that \<^verbatim>\<open>SendAddresses\<close> does not count as new.\<close>

definition addr_known :: "proto_Address \<Rightarrow> ('pk, 'sk) Node \<Rightarrow> bool" where
  "addr_known a n \<longleftrightarrow> pa_Addr a = n_Addr n
     \<or> (case PeerDb_Get (PeerDb n) (pa_Addr a) of
          Some p \<Rightarrow> pa_LastSeen a \<le> LastSeen (addr_mem n ! peer_Addr p)
        | None \<Rightarrow> AddressDb_Get (AddrDb n) (pa_Addr a) \<noteq> None \<or> ad_limit (AddrDb n) \<le> int (length (addresses (AddrDb n))))"

definition addrs_known :: "proto_Addresses \<Rightarrow> ('pk, 'sk) Node \<Rightarrow> bool" where
  "addrs_known req n = (\<forall>a \<in> set (pas_Addrs req). addr_known a n)"

text \<open>The calls among the events of the handler, and the handler as a reaction to a list.\<close>

fun addr_call :: "node_event \<Rightarrow> (string \<times> proto_Addresses) option" where
  "addr_call (RpcSendAddresses a req) = Some (a, req)"
| "addr_call ev = None"

definition passes_on :: "proto_Addresses \<Rightarrow> ('pk, 'sk) Node \<Rightarrow> ('pk, 'sk) Node \<Rightarrow> (string \<times> proto_Addresses) list \<Rightarrow> bool" where
  "passes_on req n n' ms \<longleftrightarrow> (\<exists>capy shuffle outs ks ev. range_order (peers (PeerDb n)) ks
     \<and> SendAddresses capy shuffle outs ks req n = Inr (n', ev) \<and> ms = List.map_filter addr_call ev)"

text \<open>Changes of a node that forget no address and set no time back.\<close>

definition learns :: "('pk, 'sk) Node \<Rightarrow> ('pk, 'sk) Node \<Rightarrow> bool" where
  "learns n n' \<longleftrightarrow> n_Addr n' = n_Addr n \<and> PeerDb n' = PeerDb n \<and> ad_limit (AddrDb n') = ad_limit (AddrDb n)
     \<and> length (addresses (AddrDb n)) \<le> length (addresses (AddrDb n'))
     \<and> (\<forall>k. AddressDb_Get (AddrDb n) k \<noteq> None \<longrightarrow> AddressDb_Get (AddrDb n') k \<noteq> None)
     \<and> length (addr_mem n) \<le> length (addr_mem n') \<and> (\<forall>i < length (addr_mem n). LastSeen (addr_mem n ! i) \<le> LastSeen (addr_mem n' ! i))"

lemma learns_refl: "learns n n"
  by (simp add: learns_def)

lemma learns_trans:
  assumes "learns a b" "learns b c"
  shows "learns a c"
proof -
  have "LastSeen (addr_mem a ! i) \<le> LastSeen (addr_mem c ! i)" if "i < length (addr_mem a)" for i
    using assms that by (meson learns_def order.strict_trans2 order.trans)
  with assms show ?thesis by (simp add: learns_def)
qed

lemma gset_grows: "length m \<le> length (gset k v m)"
  by (induction m) auto

lemma good_peer: "good_node H n \<Longrightarrow> PeerDb_Get (PeerDb n) k = Some p \<Longrightarrow> peer_Addr p < length (addr_mem n) \<and> peer_addr n p = k"
  by (auto simp: good_node_def nodeinv_def peers_ok_def PeerDb_Get_def)

lemma good_addr: "good_node H n \<Longrightarrow> AddressDb_Get (AddrDb n) k = Some r \<Longrightarrow> r < length (addr_mem n)"
  by (auto simp: good_node_def nodeinv_def addrs_ok_def AddressDb_Get_def)

lemma learns_known: "good_node H n \<Longrightarrow> learns n n' \<Longrightarrow> addr_known a n \<Longrightarrow> addr_known a n'"
  using good_peer [of H n "pa_Addr a"] by (fastforce simp: addr_known_def learns_def split: option.splits intro: order.trans)

section \<open>One address\<close>

lemma SendAddresses_one_learns:
  assumes "good_node H n" "SendAddresses_one a (n, f, ev) = (n', f', ev')"
  shows "learns n n' \<and> addr_known a n' \<and> (f' \<longleftrightarrow> f \<or> \<not> addr_known a n) \<and> (\<exists>gs. ev' = ev @ gs \<and> (\<forall>g \<in> set gs. \<exists>r. g = GoVersion r))"
proof (cases "pa_Addr a = n_Addr n")
  case True
  then show ?thesis using assms(2) by (simp add: SendAddresses_one_def learns_refl addr_known_def)
next
  case False
  consider (peer) p where "PeerDb_Get (PeerDb n) (pa_Addr a) = Some p"
    | (addr) r where "PeerDb_Get (PeerDb n) (pa_Addr a) = None" "AddressDb_Get (AddrDb n) (pa_Addr a) = Some r"
    | (new) "PeerDb_Get (PeerDb n) (pa_Addr a) = None" "AddressDb_Get (AddrDb n) (pa_Addr a) = None" by blast
  then show ?thesis
  proof cases
    case peer
    with False good_peer [OF assms(1) peer] assms(2) show ?thesis
      by (auto simp: SendAddresses_one_def Let_def learns_def addr_known_def PeerDb_Get_def PeerDb_UpdateLastSeen_def nth_append nth_list_update
          split: if_splits)
  next
    case addr
    with False good_addr [OF assms(1) addr(2)] assms(2) show ?thesis
      by (auto simp: SendAddresses_one_def Let_def learns_def addr_known_def AddressDb_Get_def AddressDb_UpdateLastSeen_def nth_append nth_list_update
          split: if_splits)
  next
    case new
    with False assms(2) show ?thesis
      by (auto simp: SendAddresses_one_def Let_def learns_def addr_known_def AddressDb_Get_def AddressDb_Add_def Address_New_def nth_append gset_grows
          split: if_splits)
  qed
qed

section \<open>A list of addresses\<close>

lemma SendAddresses_fold:
  assumes "good_node H n" "foldl (\<lambda>s a. SendAddresses_one a s) (n, f, ev) as = (n', f', ev')"
  shows "good_node H n' \<and> learns n n' \<and> (\<forall>a \<in> set as. addr_known a n') \<and> (f' \<longrightarrow> f \<or> (\<exists>a \<in> set as. \<not> addr_known a n))
    \<and> List.map_filter addr_call ev' = List.map_filter addr_call ev"
  using assms
proof (induction as arbitrary: n f ev)
  case (Cons a as)
  obtain n1 f1 ev1 where one: "SendAddresses_one a (n, f, ev) = (n1, f1, ev1)" by (cases "SendAddresses_one a (n, f, ev)")
  have good: "good_node H n1" using Cons.prems(1) SendAddresses_one_inv [of H _ "(n, f, ev)" a] one by (auto simp: good_node_def)
  have ev: "List.map_filter addr_call ev1 = List.map_filter addr_call ev" if "\<exists>gs. ev1 = ev @ gs \<and> (\<forall>g \<in> set gs. \<exists>r. g = GoVersion r)"
    using that by (fastforce simp: List.map_filter_def filter_empty_conv)
  from SendAddresses_one_learns [OF Cons.prems(1) one] Cons.IH [OF good, of f1 ev1] Cons.prems(2) one show ?case
    using learns_known [OF Cons.prems(1)] learns_known [OF good] ev by (auto intro: learns_trans)
qed (simp add: learns_refl)

lemma GetRandom_two: "range_order (peers pdb) ks \<Longrightarrow> GetRandom capy shuffle ks 2 ex pdb = Inr ps \<Longrightarrow> length ps \<le> 2"
proof -
  assume "range_order (peers pdb) ks" and r: "GetRandom capy shuffle ks 2 ex pdb = Inr ps"
  then have "length ks = length (peers pdb)" by (metis gkeys_def length_map range_order_def size_mset)
  then have "length (filter P ks) \<le> length (peers pdb)" for P by (metis length_filter_le)
  then show "length ps \<le> 2" using r order.trans by (fastforce simp: GetRandom_def Let_def List.map_filter_def split: if_splits)
qed

text \<open>What the handler makes of a list: it knows all of it afterwards, and sends on the list itself, to at most two peers, only if it did not know all of it before.\<close>

lemma passes_on_effect:
  assumes "good_node H n" "passes_on req n n' ms"
  shows "good_node H n' \<and> learns n n' \<and> addrs_known req n' \<and> length ms \<le> 2 \<and> (\<forall>(a, q) \<in> set ms. q = req) \<and> (ms \<noteq> [] \<longrightarrow> \<not> addrs_known req n)"
proof -
  obtain capy shuffle outs ks ev where r: "range_order (peers (PeerDb n)) ks" "SendAddresses capy shuffle outs ks req n = Inr (n', ev)"
      "ms = List.map_filter addr_call ev" using assms(2) by (auto simp: passes_on_def)
  obtain n1 f ev1 where fold: "foldl (\<lambda>s a. SendAddresses_one a s) (n, False, []) (pas_Addrs req) = (n1, f, ev1)" by (metis prod_cases3)
  note eff = SendAddresses_fold [OF assms(1) fold]
  have nil: "List.map_filter addr_call ev1 = []" using eff by (simp add: List.map_filter_simps)
  show ?thesis
  proof (cases f)
    case False
    then show ?thesis using r fold eff nil by (simp add: SendAddresses_def addrs_known_def)
  next
    case True
    then obtain ps rpcs where ps: "GetRandom capy shuffle ks 2 [n_Addr n1] (PeerDb n1) = Inr ps" and n': "n' = n1" "ev = ev1 @ rpcs"
      and map: "go_map (\<lambda>p. case p of None \<Rightarrow> Inl NilDeref
        | Some p \<Rightarrow> go_bind (if SendAddressesRPC (outs (peer_addr n1 p)) = None then no_response (peer_addr n1 p) n1 else Inr ()) (\<lambda>_.
            Inr (RpcSendAddresses (peer_addr n1 p) req))) ps = Inr rpcs"
      using r(2) fold by (auto simp: SendAddresses_def go_simps)
    have "length rpcs = length ps \<and> (\<forall>e \<in> set rpcs. \<exists>a. e = RpcSendAddresses a req)"
      using map by (induction ps arbitrary: rpcs) (fastforce simp: go_simps split: option.splits)+
    moreover have "length ps \<le> 2" using GetRandom_two [OF _ ps] r(1) eff by (simp add: learns_def)
    moreover have "\<not> addrs_known req n" using eff True by (auto simp: addrs_known_def)
    ultimately show ?thesis using eff n' r(3) nil
      by (auto simp: addrs_known_def List.map_filter_def intro: order.trans [OF length_filter_le])
  qed
qed

section \<open>Addresses settle\<close>

interpretation adr: flooding passes_on addrs_known "good_node H" 2 for H
proof
  fix p q and n n' :: "('pk, 'sk) Node" and ms and a :: string
  assume g: "good_node H n" and r: "passes_on p n n' ms"
  note eff = passes_on_effect [OF g r]
  show "good_node H n'" "length ms \<le> 2" using eff by simp_all
  show "addrs_known q n \<Longrightarrow> addrs_known q n'" using eff learns_known [OF g] by (auto simp: addrs_known_def)
  show "ms \<noteq> [] \<Longrightarrow> \<not> addrs_known p n \<and> addrs_known p n'" using eff by simp
  show "q = p" if "(a, q) \<in> set ms" using eff that by auto
qed

text \<open>
  C24: Exchanging addresses ends. Let any finite number of reachable nodes with any calls of \<^verbatim>\<open>SendAddresses\<close> under way handle nothing else. Then every run is finite:
  it handles at most two calls for each pair of a node and a different list, besides those that are under way at the start; and the nodes
  come to rest, with no call left but such on which the handler would panic.
\<close>

theorem address_exchange_ends:
  fixes ns :: "string \<rightharpoonup> ('pk, 'sk) Node"
  assumes "finite (dom ns)" "\<And>a n. ns a = Some n \<Longrightarrow> node_reach ec H (conf a) n"
  shows "((net_step passes_on ^^ k) (Net ns fs) s' \<longrightarrow> k \<le> 2 * card (dom ns) * card (snd ` set_mset fs) + size fs)
    \<and> (\<exists>s'. (net_step passes_on)\<^sup>*\<^sup>* (Net ns fs) s' \<and> stuck passes_on s')"
proof -
  have ok: "net_ok (good_node H) (snd ` set_mset fs) (Net ns fs)"
    using assms(1) reach_good [OF assms(2)] by (auto simp: net_ok_def intro: rev_image_eqI)
  then show ?thesis using adr.run_bounded [OF ok, where k = k and s' = s'] adr.run_ends [OF ok] by auto
qed

theorem address_exchange_ends_witness:
  "\<exists>s'. (net_step passes_on)\<^sup>*\<^sup>* (Net demo_pair {#(''a:1'', \<lparr>pas_Addrs = [\<lparr>pa_Addr = ''c:1'', pa_LastSeen = 5\<rparr>]\<rparr>)#}) s' \<and> stuck passes_on s'"
  using address_exchange_ends [OF demo_pair_links(2), of echo_ecdsa length_digest "\<lambda>_. demo_node_conf"] demo_pair_nodes by blast

end
