(* ===== verification/Identifiers.thy ===== *)
theory Identifiers
  imports Relay
begin

text \<open>
  Hashes as identifiers. The program files blocks, transactions and outputs under strings; this theory shows that every such string in a
  reachable node is well formed: \<open>hash_string\<close> for the hashes of blocks and transactions, \<open>locator_string\<close> for the keys of unspent outputs.
\<close>

section \<open>Well-formed identifiers\<close>

definition hash_string :: "string \<Rightarrow> bool" where
  "hash_string s = (case hex_DecodeString s of (v, e) \<Rightarrow> e = None \<and> length v = 32 \<and> hex_EncodeToString v = s)"

definition locator_string :: "string \<Rightarrow> bool" where
  "locator_string k = (case PrsTXOLoc k of Inl e \<Rightarrow> False | Inr (h, i) \<Rightarrow> hash_string h \<and> MkTXOLoc h i = k)"

definition ids_ok :: "('pk, 'sk) Node \<Rightarrow> bool" where
  "ids_ok n \<longleftrightarrow> (\<forall>k \<in> set (gkeys (TxMap n)). hash_string k) \<and> (\<forall>k \<in> set (gkeys (BlockMap n)). hash_string k)
     \<and> (\<forall>m. Mnr n = Some m \<longrightarrow> hash_string (PrvHsh m))"

context digest32
begin

lemma hash_string_Hash: "hash_string (utils_Hash H v)"
  using digest_length by (simp add: hash_string_def) (simp add: utils_Hash_def)

lemma hash_string_hashes [simp]: "hash_string (Transaction_Hash H t)" "hash_string (Block_Hash H b)"
  by (simp_all add: Transaction_Hash_def Block_Hash_def hash_string_Hash)

lemma locator_string_MkTXOLoc: "locator_string (MkTXOLoc (Transaction_Hash H t) i)"
  using PrsTXOLoc_MkTXOLoc [of "Transaction_Hash H t" i] utils_Hash_no_char [of "CHR ''-''" H] hash_string_hashes(1) [of t]
  by (simp add: locator_string_def Transaction_Hash_def)

end

lemmas digest_hashes = digest32.hash_string_hashes

section \<open>Every step keeps them\<close>

text \<open>A miner's hash of the last block is the hash of a block after every operation.\<close>

lemma mnr_hash_ops:
  assumes "hash_string (PrvHsh m)"
  shows "HndlChkBlk H b m = Inr (m', ev) \<Longrightarrow> hash_string (PrvHsh m')" "StartMiner m = Inr (m', ev) \<Longrightarrow> hash_string (PrvHsh m')"
    "Miner_HndlTx to m = Inr (m', ev) \<Longrightarrow> hash_string (PrvHsh m')"
    "op \<in> {Miner_Pause, Miner_Resume, Miner_Kill} \<Longrightarrow> op m = Inr (m', ev) \<Longrightarrow> hash_string (PrvHsh m')"
  using assms
  by (auto simp: HndlChkBlk_def StartMiner_def Miner_HndlTx_def Miner_Pause_def Miner_Resume_def Miner_Kill_def send_update_def go_simps Let_def
      split: if_splits)

lemma mnr_hash_blk:
  assumes "digest32 H" "hash_string (PrvHsh m)" "Miner_HndlBlk H bo m = Inr (m', ev)"
  shows "hash_string (PrvHsh m')"
  using assms(2,3) by (auto simp: Miner_HndlBlk_def go_simps SetHash_def IncChnLen_def digest_hashes [OF assms(1)] split: option.splits)

lemma mnr_hash_mine:
  assumes "digest32 H" "hash_string (PrvHsh m)" "Mine_attempt H stop m = Some (Inr (m', ev))"
  shows "hash_string (PrvHsh m')"
proof -
  have srch: "hash_string (PrvHsh m'')" if "hash_string (PrvHsh m1)" "Mine_search H stop b m1 = Inr (m'', ev)" for b and m1 m'' :: "('pk, 'sk) Miner"
    using that mnr_hash_blk [OF assms(1), of "m1\<lparr>Mining := False\<rparr>"]
    by (auto simp: Mine_search_def Mine_found_def go_simps Let_def split: prod.splits if_splits)
  show ?thesis using assms(2,3) by (auto simp: Mine_attempt_def Let_def go_simps intro: srch [rotated] split: if_splits sum.splits)
qed

lemma Bootstrap_ids:
  assumes H: "digest32 H" and "ids_ok n" "Bootstrap H ks arrivals data n = Inr (n', ev, err)"
  shows "ids_ok n'"
proof -
  have blk: "ids_ok (fst s')" if "ids_ok (fst s)" "Bootstrap_block H orf pb s = Inr s'" for orf pb and s s' :: "('pk, 'sk) Node \<times> node_event list"
    using that mnr_hash_ops(1)
    by (cases s) (auto simp: Bootstrap_block_def go_simps Let_def ids_ok_def gkeys_gset digest_hashes [OF H] split: option.splits if_splits)
  have "ids_ok (fst s')" if "go_fold (\<lambda>h. Bootstrap_block H orf (pb h)) hs (n, []) = Inr s'" for orf pb hs s'
    using go_fold_inv [where P = "\<lambda>s. ids_ok (fst s)", OF blk _ that] assms(2) by simp
  with assms(2,3) show ?thesis
    by (auto simp: Bootstrap_def go_simps Let_def split: if_splits option.splits)
qed

lemma SendAddresses_ids:
  assumes "SendAddresses capy shuffle outs ks req n = Inr (n', ev)" "ids_ok n"
  shows "ids_ok n'"
proof -
  have one: "ids_ok (fst (SendAddresses_one addr s)) = ids_ok (fst s)" for addr and s :: "('pk, 'sk) Node \<times> bool \<times> node_event list"
    by (cases s) (simp add: SendAddresses_one_def Let_def ids_ok_def split: option.splits prod.splits)
  have "ids_ok (fst (foldl (\<lambda>s addr. SendAddresses_one addr s) s as)) = ids_ok (fst s)" for as and s :: "('pk, 'sk) Node \<times> bool \<times> node_event list"
    by (induction as arbitrary: s) (simp_all add: one)
  from this [of "(n, False, [])" "pas_Addrs req"] assms show ?thesis
    by (auto simp: SendAddresses_def go_simps ids_ok_def split: prod.splits if_splits)
qed

lemma Version_ids:
  assumes "Node_VersionHandler out now1 now2 now3 now4 req n = Inr (n', ev, err)" "ids_ok n"
  shows "ids_ok n'"
proof -
  let ?f = "\<lambda>n :: ('pk, 'sk) Node. (TxMap n, BlockMap n, Mnr n)"
  have "?f n'' = ?f n1" if "Version_peer out now2 now3 now4 r req n1 = Inr (n'', ev, err)" for r n1 n''
    using that by (auto simp: Version_peer_def Let_def split: option.splits prod.splits if_splits)
  from this this [of _ "n\<lparr>addr_mem := m, AddrDb := a\<rparr>" for m a] assms(1) have "?f n' = ?f n"
    by (fastforce simp: Node_VersionHandler_def Let_def split: option.splits prod.splits if_splits)
  then show ?thesis using assms(2) by (simp add: ids_ok_def)
qed

lemma node_step_ids:
  assumes H: "digest32 H" and "node_step ec H n n'" "ids_ok n"
  shows "ids_ok n'"
  using assms(2,3)
proof (induction rule: node_step.induct)
  case (step_start listening host n n' ev)
  then show ?case by (auto simp: Node_Start_def Let_def go_simps ids_ok_def Miner_SetAddr_def split: option.splits if_splits)
next
  case (step_recv ks r n n' ev)
  then show ?case
    by (auto simp: Start_recv_def HndlMnrBlk_def HndlWtTx_def go_simps Let_def ids_ok_def gkeys_gset digest_hashes [OF H]
        split: node_recv.splits option.splits if_splits)
next
  case (step_go_version out now a r n n' ev)
  then show ?case by (auto simp: ids_ok_def dest!: SendAddresses_go_mem)
next
  case (step_start_mnr n n' ev)
  then show ?case by (auto simp: Node_StartMiner_def go_simps ids_ok_def dest: mnr_hash_ops(2) split: option.splits)
next
  case (step_fwd_blk ks reqb n n' ev err)
  from step_fwd_blk.hyps show ?case
    by (rule ForwardBlock_cases) (use step_fwd_blk.prems in \<open>auto simp: ids_ok_def gkeys_gset digest_hashes [OF H]\<close>)
next
  case (step_fwd_tx ks reqt n n' ev err)
  then show ?case by (auto simp: ForwardTransaction_def go_simps Let_def ids_ok_def gkeys_gset digest_hashes [OF H] split: if_splits)
next
  case (step_check now addr n n' err)
  then show ?case by (auto simp: peerCheck_def ids_ok_def split: option.splits)
next
  case (step_boot ks arrivals data n n' ev err)
  then show ?case by (blast intro: Bootstrap_ids [OF H])
next
  case (step_version out now1 now2 now3 now4 req n n' ev err)
  then show ?case by (blast intro: Version_ids)
next
  case (step_addrs capy shuffle outs ks reqa n n' ev)
  then show ?case by (blast intro: SendAddresses_ids)
next
  case (step_mnr_op n m op m' mev)
  then show ?case using mnr_hash_ops(4) [of m op m' mev] by (simp add: ids_ok_def)
qed (auto simp: ids_ok_def dest: mnr_hash_ops(3) mnr_hash_blk [OF H] mnr_hash_mine [OF H])

lemma node_reach_ids:
  assumes "digest32 H" "node_reach ec H conf n"
  shows "ids_ok n"
  using assms(2)
proof (induction rule: node_reach.induct)
  case (reach_new draw n)
  then show ?case
    by (auto simp: Node_New_def Miner_New_def go_simps ids_ok_def gkeys_def digest_hashes [OF assms(1)] split: option.splits if_splits)
qed (rule node_step_ids [OF assms(1)])

text \<open>
  C23: The identifiers of a node are well formed. With a digest of 32 bytes, in every reachable node the keys of the maps of transactions and blocks it has seen, the keys
  of its tree of blocks, and the hash its miner builds on are hashes in hex, of 64 digits each; and every key of its map of unspent outputs parses as the locator
  of an output.
\<close>

theorem node_identifiers:
  assumes "\<And>v. length (H v) = 32" "node_reach ec H conf n"
  shows "(\<forall>k \<in> set (gkeys (TxMap n)) \<union> set (gkeys (BlockMap n)) \<union> set (gkeys (blocks (Chain n))). hash_string k \<and> length k = 64)
    \<and> (\<forall>m. Mnr n = Some m \<longrightarrow> hash_string (PrvHsh m))
    \<and> (\<forall>k \<in> set (gkeys (last_utxo (Chain n))). locator_string k)"
proof -
  have H: "digest32 H" by unfold_locales (rule assms(1))
  obtain bs where run: "chain_run H (ChainConf conf) bs (Chain n)" by (rule reach_run [OF assms(2)])
  have "hash_string k" if "k \<in> set (gkeys (blocks (Chain n)))" for k
    using that chain_inv_node(1) [OF run_inv [OF run]] digest_hashes(2) [OF H] by (auto simp: in_gkeys_iff)
  moreover have "locator_string k" if "k \<in> set (gkeys (last_utxo (Chain n)))" for k
    using that chain_inv_last(5) [OF run_inv [OF run]] digest32.locator_string_MkTXOLoc [OF H] by (auto simp: utxo_keys_ok_def)
  moreover have "length k = 64" if "hash_string k" for k using that by (auto simp: hash_string_def split: prod.splits)
  ultimately show ?thesis using node_reach_ids [OF H assms(2)] by (auto simp: ids_ok_def)
qed

theorem node_identifiers_witness: "hash_string (num_hash 75) \<and> list_all locator_string (gkeys (last_utxo demo_chain))"
  using node_identifiers [OF length_length_digest demo_node_reach] by (simp add: demo_node_fields gkeys_def list_all_iff)

section \<open>The first block of a miner\<close>

text \<open>
  A new miner builds on the genesis block of the default configuration, whatever the chain of its node is configured to. On a chain with another genesis block
  its first block has no parent, and the node dereferences it.
\<close>

theorem new_miner_parent:
  assumes "Node_New ec H draw conf = Inr (Some n)" "Mnr n = Some m"
  shows "(gget (blocks (Chain n)) (PrvHsh m) \<noteq> None \<longleftrightarrow> Block_Hash H (gen_block (ChainConf conf)) = Block_Hash H (gen_block bc_DefaultConfig))
    \<and> (Block_Hash H (gen_block (ChainConf conf)) \<noteq> Block_Hash H (gen_block bc_DefaultConfig) \<and> PrvBlkHsh (Hdr b) = PrvHsh m
         \<longrightarrow> HndlMnrBlk H ks (Some b) n = Inl NilDeref)"
  using assms
  by (auto simp: Node_New_def Miner_New_def GenesisBlock_eq Blockchain_New_eq go_simps HndlMnrBlk_def Blockchain_Add_def Let_def
      split: option.splits if_splits)

end
