(* ===== verification/Grpc.thy ===== *)
theory Grpc
  imports Peer_Db
begin

text \<open>
  The generated bindings of \<^verbatim>\<open>pkg/proto/advancedcoin_grpc.pb.go\<close> and the connections of \<^verbatim>\<open>pkg/address/client.go\<close>: the client's methods, the server's
  interface, the handlers that decode a request and call the server, and the table of methods. The run-time of gRPC is not part of the program: a connection
  \<open>'s conn\<close> and the function \<open>dial\<close> that makes one are arguments, and \<open>serves\<close>, \<open>connects\<close> and \<open>codec_ok\<close> state what is documented of them: messages whose strings are not UTF-8 are refused, and a call
  whose reply is not there before its deadline fails.

  The state \<open>'s\<close> is the state of the server. What unmarshalling the bytes of a message gives for each message type is a record \<open>wire\<close>.
\<close>

section \<open>Messages, results and the server's interface\<close>

datatype rpc_err = Unimplemented string | HandlerError | RuntimeError string

text \<open>The pair of a reply, which may be nil, and an error.\<close>

type_synonym 'r reply = "'r option \<times> rpc_err option"

type_synonym ('s, 'r) meth = "'s \<Rightarrow> ('s \<times> 'r reply) go"

datatype msg =
    MsgTransaction proto_Transaction | MsgBlock proto_Block | MsgVersionRequest proto_VersionRequest
  | MsgGetBlocksRequest proto_GetBlocksRequest | MsgGetBlocksResponse proto_GetBlocksResponse
  | MsgGetDataRequest proto_GetDataRequest | MsgGetDataResponse proto_GetDataResponse | MsgAddresses proto_Addresses | MsgEmpty

record wire =
  as_Transaction :: "rpc_err + proto_Transaction"
  as_Block :: "rpc_err + proto_Block"
  as_VersionRequest :: "rpc_err + proto_VersionRequest"
  as_GetBlocksRequest :: "rpc_err + proto_GetBlocksRequest"
  as_GetBlocksResponse :: "rpc_err + proto_GetBlocksResponse"
  as_GetDataRequest :: "rpc_err + proto_GetDataRequest"
  as_GetDataResponse :: "rpc_err + proto_GetDataResponse"
  as_Addresses :: "rpc_err + proto_Addresses"
  as_Empty :: "rpc_err + unit"

record 's BrunoCoinServer =
  srv_ForwardTransaction :: "proto_Transaction \<Rightarrow> ('s, unit) meth"
  srv_ForwardBlock :: "proto_Block \<Rightarrow> ('s, unit) meth"
  srv_Version :: "proto_VersionRequest \<Rightarrow> ('s, unit) meth"
  srv_GetBlocks :: "proto_GetBlocksRequest \<Rightarrow> ('s, proto_GetBlocksResponse) meth"
  srv_GetData :: "proto_GetDataRequest \<Rightarrow> ('s, proto_GetDataResponse) meth"
  srv_SendAddresses :: "proto_Addresses \<Rightarrow> ('s, unit) meth"
  srv_GetAddresses :: "unit \<Rightarrow> ('s, proto_Addresses) meth"

definition UnimplementedBrunoCoinServer :: "'s BrunoCoinServer" where
  "UnimplementedBrunoCoinServer =
     \<lparr>srv_ForwardTransaction = \<lambda>_ s. Inr (s, None, Some (Unimplemented ''method ForwardTransaction not implemented'')),
      srv_ForwardBlock = \<lambda>_ s. Inr (s, None, Some (Unimplemented ''method ForwardBlock not implemented'')),
      srv_Version = \<lambda>_ s. Inr (s, None, Some (Unimplemented ''method Ver not implemented'')),
      srv_GetBlocks = \<lambda>_ s. Inr (s, None, Some (Unimplemented ''method GetBlocks not implemented'')),
      srv_GetData = \<lambda>_ s. Inr (s, None, Some (Unimplemented ''method GetData not implemented'')),
      srv_SendAddresses = \<lambda>_ s. Inr (s, None, Some (Unimplemented ''method SendAddresses not implemented'')),
      srv_GetAddresses = \<lambda>_ s. Inr (s, None, Some (Unimplemented ''method GetAddresses not implemented''))\<rparr>"

section \<open>Handlers\<close>

text \<open>
  An interceptor gets the request as an interface value, the full name of the method, and the function that calls the server, which asserts the
  type of the request again.
\<close>

type_synonym 's interceptor = "msg \<Rightarrow> string \<Rightarrow> (msg \<Rightarrow> ('s, msg) meth) \<Rightarrow> ('s, msg) meth"

type_synonym 's handler = "'s BrunoCoinServer \<Rightarrow> wire \<Rightarrow> 's interceptor option \<Rightarrow> ('s, msg) meth"

definition boxed :: "('r \<Rightarrow> msg) \<Rightarrow> ('s \<times> 'r reply) go \<Rightarrow> ('s \<times> msg reply) go" where
  "boxed out r = go_bind r (\<lambda>(s, rep, err). Inr (s, map_option out rep, err))"

text \<open>What the seven handlers have in common.\<close>

definition unary_handler ::
    "string \<Rightarrow> (rpc_err + 'a) \<Rightarrow> ('a \<Rightarrow> msg) \<Rightarrow> (msg \<Rightarrow> 'a option) \<Rightarrow> ('r \<Rightarrow> msg) \<Rightarrow> ('a \<Rightarrow> ('s, 'r) meth) \<Rightarrow> 's interceptor option \<Rightarrow> ('s, msg) meth" where
  "unary_handler fullMethod dec box assert out call interceptor s =
     (case dec of
        Inl e \<Rightarrow> Inr (s, None, Some e)
      | Inr x \<Rightarrow>
          (case interceptor of
             None \<Rightarrow> boxed out (call x s)
           | Some f \<Rightarrow>
               f (box x) fullMethod (\<lambda>req s. case assert req of None \<Rightarrow> Inl TypeAssertion | Some x \<Rightarrow> boxed out (call x s)) s))"

definition ForwardTransaction_Handler :: "'s handler" where
  "ForwardTransaction_Handler srv w = unary_handler ''/BrunoCoin/ForwardTransaction'' (as_Transaction w) MsgTransaction
     (\<lambda>m. case m of MsgTransaction x \<Rightarrow> Some x | _ \<Rightarrow> None) (\<lambda>_. MsgEmpty) (srv_ForwardTransaction srv)"

definition ForwardBlock_Handler :: "'s handler" where
  "ForwardBlock_Handler srv w = unary_handler ''/BrunoCoin/ForwardBlock'' (as_Block w) MsgBlock
     (\<lambda>m. case m of MsgBlock x \<Rightarrow> Some x | _ \<Rightarrow> None) (\<lambda>_. MsgEmpty) (srv_ForwardBlock srv)"

definition Version_Handler :: "'s handler" where
  "Version_Handler srv w = unary_handler ''/BrunoCoin/Ver'' (as_VersionRequest w) MsgVersionRequest
     (\<lambda>m. case m of MsgVersionRequest x \<Rightarrow> Some x | _ \<Rightarrow> None) (\<lambda>_. MsgEmpty) (srv_Version srv)"

definition GetBlocks_Handler :: "'s handler" where
  "GetBlocks_Handler srv w = unary_handler ''/BrunoCoin/GetBlocks'' (as_GetBlocksRequest w) MsgGetBlocksRequest
     (\<lambda>m. case m of MsgGetBlocksRequest x \<Rightarrow> Some x | _ \<Rightarrow> None) MsgGetBlocksResponse (srv_GetBlocks srv)"

definition GetData_Handler :: "'s handler" where
  "GetData_Handler srv w = unary_handler ''/BrunoCoin/GetData'' (as_GetDataRequest w) MsgGetDataRequest
     (\<lambda>m. case m of MsgGetDataRequest x \<Rightarrow> Some x | _ \<Rightarrow> None) MsgGetDataResponse (srv_GetData srv)"

definition SendAddresses_Handler :: "'s handler" where
  "SendAddresses_Handler srv w = unary_handler ''/BrunoCoin/SendAddresses'' (as_Addresses w) MsgAddresses
     (\<lambda>m. case m of MsgAddresses x \<Rightarrow> Some x | _ \<Rightarrow> None) (\<lambda>_. MsgEmpty) (srv_SendAddresses srv)"

definition GetAddresses_Handler :: "'s handler" where
  "GetAddresses_Handler srv w = unary_handler ''/BrunoCoin/GetAddresses'' (as_Empty w) (\<lambda>_. MsgEmpty)
     (\<lambda>m. case m of MsgEmpty \<Rightarrow> Some () | _ \<Rightarrow> None) MsgAddresses (srv_GetAddresses srv)"

record 's ServiceDesc =
  ServiceName :: string
  Methods :: "(string \<times> 's handler) list"
  Streams :: "string list"
  Metadata :: string

definition BrunoCoin_ServiceDesc :: "'s ServiceDesc" where
  "BrunoCoin_ServiceDesc =
     \<lparr>ServiceName = ''BrunoCoin'',
      Methods =
        [(''ForwardTransaction'', ForwardTransaction_Handler),
         (''ForwardBlock'', ForwardBlock_Handler),
         (''Ver'', Version_Handler),
         (''GetBlocks'', GetBlocks_Handler),
         (''GetData'', GetData_Handler),
         (''SendAddresses'', SendAddresses_Handler),
         (''GetAddresses'', GetAddresses_Handler)],
      Streams = [], Metadata = ''advancedcoin.proto''\<rparr>"

text \<open>\<open>register\<close> is \<^verbatim>\<open>RegisterService\<close> of the server's run-time.\<close>

definition RegisterBrunoCoinServer :: "('s ServiceDesc \<Rightarrow> 's BrunoCoinServer \<Rightarrow> 'r) \<Rightarrow> 's BrunoCoinServer \<Rightarrow> 'r" where
  "RegisterBrunoCoinServer register srv = register BrunoCoin_ServiceDesc srv"

section \<open>Client\<close>

text \<open>A context is its deadline in nanoseconds, if it has one. A connection takes a context, the full name of a method and a request.\<close>

type_synonym ctx = "int option"

type_synonym 's conn = "ctx \<Rightarrow> string \<Rightarrow> msg \<Rightarrow> 's \<Rightarrow> 's \<times> (rpc_err + wire)"

record 's advancedCoinClient =
  client_cc :: "'s conn"

definition NewBrunoCoinClient :: "'s conn \<Rightarrow> 's advancedCoinClient" where
  "NewBrunoCoinClient c = \<lparr>client_cc = c\<rparr>"

definition unary_call ::
    "string \<Rightarrow> msg \<Rightarrow> (wire \<Rightarrow> rpc_err + 'r) \<Rightarrow> 's advancedCoinClient \<Rightarrow> ctx \<Rightarrow> 's \<Rightarrow> 's \<times> 'r reply" where
  "unary_call fullMethod req out c ctx s =
     (case client_cc c ctx fullMethod req s of (s, r) \<Rightarrow>
        (case r of
           Inl e \<Rightarrow> (s, None, Some e)
         | Inr w \<Rightarrow> (case out w of Inl e \<Rightarrow> (s, None, Some e) | Inr rep \<Rightarrow> (s, Some rep, None))))"

definition client_ForwardTransaction :: "proto_Transaction \<Rightarrow> 's advancedCoinClient \<Rightarrow> ctx \<Rightarrow> 's \<Rightarrow> 's \<times> unit reply" where
  "client_ForwardTransaction req = unary_call ''/BrunoCoin/ForwardTransaction'' (MsgTransaction req) as_Empty"

definition client_ForwardBlock :: "proto_Block \<Rightarrow> 's advancedCoinClient \<Rightarrow> ctx \<Rightarrow> 's \<Rightarrow> 's \<times> unit reply" where
  "client_ForwardBlock req = unary_call ''/BrunoCoin/ForwardBlock'' (MsgBlock req) as_Empty"

definition client_Version :: "proto_VersionRequest \<Rightarrow> 's advancedCoinClient \<Rightarrow> ctx \<Rightarrow> 's \<Rightarrow> 's \<times> unit reply" where
  "client_Version req = unary_call ''/BrunoCoin/Ver'' (MsgVersionRequest req) as_Empty"

definition client_GetBlocks :: "proto_GetBlocksRequest \<Rightarrow> 's advancedCoinClient \<Rightarrow> ctx \<Rightarrow> 's \<Rightarrow> 's \<times> proto_GetBlocksResponse reply" where
  "client_GetBlocks req = unary_call ''/BrunoCoin/GetBlocks'' (MsgGetBlocksRequest req) as_GetBlocksResponse"

definition client_GetData :: "proto_GetDataRequest \<Rightarrow> 's advancedCoinClient \<Rightarrow> ctx \<Rightarrow> 's \<Rightarrow> 's \<times> proto_GetDataResponse reply" where
  "client_GetData req = unary_call ''/BrunoCoin/GetData'' (MsgGetDataRequest req) as_GetDataResponse"

definition client_SendAddresses :: "proto_Addresses \<Rightarrow> 's advancedCoinClient \<Rightarrow> ctx \<Rightarrow> 's \<Rightarrow> 's \<times> unit reply" where
  "client_SendAddresses req = unary_call ''/BrunoCoin/SendAddresses'' (MsgAddresses req) as_Empty"

definition client_GetAddresses :: "unit \<Rightarrow> 's advancedCoinClient \<Rightarrow> ctx \<Rightarrow> 's \<Rightarrow> 's \<times> proto_Addresses reply" where
  "client_GetAddresses req = unary_call ''/BrunoCoin/GetAddresses'' MsgEmpty as_Addresses"

lemmas client_defs = client_ForwardTransaction_def client_ForwardBlock_def client_Version_def client_GetBlocks_def client_GetData_def
  client_SendAddresses_def client_GetAddresses_def

section \<open>Connections\<close>

definition RPCTimeout :: int where
  "RPCTimeout = 2 * 1000000000"

text \<open>\<^verbatim>\<open>context.WithTimeout\<close> at the time \<open>now\<close>.\<close>

definition WithTimeout :: "int \<Rightarrow> ctx \<Rightarrow> int \<Rightarrow> ctx" where
  "WithTimeout now ctx d = Some (case ctx of None \<Rightarrow> now + d | Some t \<Rightarrow> min t (now + d))"

definition clientUnaryInterceptor :: "int \<Rightarrow> 's conn \<Rightarrow> 's conn" where
  "clientUnaryInterceptor now invoker ctx m req = invoker (WithTimeout now ctx RPCTimeout) m req"

datatype 's dial_option = WithInsecure | FailOnNonTempDialError bool | WithUnaryInterceptor "'s conn \<Rightarrow> 's conn"

type_synonym 's dialer = "string \<Rightarrow> 's dial_option list \<Rightarrow> rpc_err + 's conn"

definition connectToServer :: "'s dialer \<Rightarrow> int \<Rightarrow> string \<Rightarrow> rpc_err + 's conn" where
  "connectToServer dial now addr = dial addr [WithInsecure, FailOnNonTempDialError True, WithUnaryInterceptor (clientUnaryInterceptor now)]"

definition GetConnection :: "'s dialer \<Rightarrow> int \<Rightarrow> Address \<Rightarrow> rpc_err + 's advancedCoinClient" where
  "GetConnection dial now a = (case connectToServer dial now (addr_Addr a) of Inl e \<Rightarrow> Inl e | Inr c \<Rightarrow> Inr (NewBrunoCoinClient c))"

text \<open>
  A call of \<^verbatim>\<open>client.go\<close> from connecting to closing, with the background context. An error when the connection is closed is only printed.
\<close>

definition rpc :: "'s dialer \<Rightarrow> int \<Rightarrow> Address \<Rightarrow> ('s advancedCoinClient \<Rightarrow> ctx \<Rightarrow> 's \<Rightarrow> 's \<times> 'r reply) \<Rightarrow> 's \<Rightarrow> 's \<times> 'r reply" where
  "rpc dial now a call s = (case GetConnection dial now a of Inl e \<Rightarrow> (s, None, Some e) | Inr c \<Rightarrow> call c None s)"

text \<open>The version call stamps the address once the call has come back.\<close>

definition VersionRPC_wire ::
    "'s dialer \<Rightarrow> int \<Rightarrow> int \<Rightarrow> nat \<Rightarrow> proto_VersionRequest \<Rightarrow> addr_mem \<Rightarrow> 's \<Rightarrow> 's \<times> addr_mem \<times> unit reply" where
  "VersionRPC_wire dial now now' r req mem s =
     (case GetConnection dial now (mem ! r) of
        Inl e \<Rightarrow> (s, mem, None, Some e)
      | Inr c \<Rightarrow> (case client_Version req c None s of (s, rep) \<Rightarrow> (s, mem[r := (mem ! r)\<lparr>SentVer := Some now'\<rparr>], rep)))"

text \<open>The outcome of a call, as the models of the callers in \<open>Peer_Db\<close> and \<open>Node\<close> take it.\<close>

definition outcome_of :: "rpc_err + 's advancedCoinClient \<Rightarrow> 'r reply \<Rightarrow> rpc_outcome" where
  "outcome_of conn r = (if \<not> isl conn then if snd r = None then RpcReply else RpcError else NoConnection)"

lemma unary_call_reply: "fst (snd (unary_call path m out c ctx s)) = None \<longleftrightarrow> snd (snd (unary_call path m out c ctx s)) \<noteq> None"
  by (simp add: unary_call_def split: prod.split sum.split)

lemma rpc_outcome:
  assumes "rpc dial now a (unary_call path m out) s = (s', r)"
  shows "fst r = (case outcome_of (GetConnection dial now a) r of NoConnection \<Rightarrow> None | RpcError \<Rightarrow> None | RpcReply \<Rightarrow> Some (the (fst r)))"
  using assms unary_call_reply [of path m out "projr (GetConnection dial now a)" None s]
  by (cases "GetConnection dial now a") (auto simp: rpc_def outcome_of_def)

text \<open>
  The calls of the client are as the rest of the development takes them. Whatever dialling and the connection do, each call, made through the generated
  client, returns what the definition of that call gives for its outcome: no connection, an error, or the reply; and a version
  call stamps the address exactly when a connection was made.
\<close>

theorem client_calls_refine:
  "(rpc dial now a (client_ForwardTransaction t) s = (s1, r1) \<longrightarrow> fst r1 = ForwardTransactionRPC (outcome_of (GetConnection dial now a) r1))
   \<and> (rpc dial now a (client_ForwardBlock b) s = (s1, r1) \<longrightarrow> fst r1 = ForwardBlockRPC (outcome_of (GetConnection dial now a) r1))
   \<and> (rpc dial now a (client_SendAddresses as) s = (s1, r1) \<longrightarrow> fst r1 = SendAddressesRPC (outcome_of (GetConnection dial now a) r1))
   \<and> (rpc dial now a (client_GetBlocks gb) s = (s1, r2) \<longrightarrow> fst r2 = GetBlocksRPC (outcome_of (GetConnection dial now a) r2) (the (fst r2)))
   \<and> (rpc dial now a (client_GetData gd) s = (s1, r3) \<longrightarrow> fst r3 = GetDataRPC (outcome_of (GetConnection dial now a) r3) (the (fst r3)))
   \<and> (rpc dial now a (client_GetAddresses u) s = (s1, r4) \<longrightarrow> fst r4 = GetAddressesRPC (outcome_of (GetConnection dial now a) r4) (the (fst r4)))
   \<and> (VersionRPC_wire dial now now' r req mem s = (s1, mem', r1)
        \<longrightarrow> (mem', snd r1 \<noteq> None) = Address_VersionRPC (outcome_of (GetConnection dial now (mem ! r)) r1) now' r mem)"
proof (intro conjI impI)
  note defs = client_defs ForwardTransactionRPC_def ForwardBlockRPC_def SendAddressesRPC_def GetBlocksRPC_def GetDataRPC_def GetAddressesRPC_def
  show "fst r1 = ForwardTransactionRPC (outcome_of (GetConnection dial now a) r1)" if "rpc dial now a (client_ForwardTransaction t) s = (s1, r1)"
    using rpc_outcome [OF that [unfolded defs]] by (simp add: defs split: rpc_outcome.splits)
  show "fst r1 = ForwardBlockRPC (outcome_of (GetConnection dial now a) r1)" if "rpc dial now a (client_ForwardBlock b) s = (s1, r1)"
    using rpc_outcome [OF that [unfolded defs]] by (simp add: defs split: rpc_outcome.splits)
  show "fst r1 = SendAddressesRPC (outcome_of (GetConnection dial now a) r1)" if "rpc dial now a (client_SendAddresses as) s = (s1, r1)"
    using rpc_outcome [OF that [unfolded defs]] by (simp add: defs split: rpc_outcome.splits)
  show "fst r2 = GetBlocksRPC (outcome_of (GetConnection dial now a) r2) (the (fst r2))" if "rpc dial now a (client_GetBlocks gb) s = (s1, r2)"
    using rpc_outcome [OF that [unfolded defs]] by (simp add: defs)
  show "fst r3 = GetDataRPC (outcome_of (GetConnection dial now a) r3) (the (fst r3))" if "rpc dial now a (client_GetData gd) s = (s1, r3)"
    using rpc_outcome [OF that [unfolded defs]] by (simp add: defs)
  show "fst r4 = GetAddressesRPC (outcome_of (GetConnection dial now a) r4) (the (fst r4))" if "rpc dial now a (client_GetAddresses u) s = (s1, r4)"
    using rpc_outcome [OF that [unfolded defs]] by (simp add: defs)
  show "(mem', snd r1 \<noteq> None) = Address_VersionRPC (outcome_of (GetConnection dial now (mem ! r)) r1) now' r mem"
    if "VersionRPC_wire dial now now' r req mem s = (s1, mem', r1)"
    using that by (auto simp: VersionRPC_wire_def outcome_of_def Address_VersionRPC_def split: sum.splits prod.splits)
qed

section \<open>What is documented of the run-time\<close>

text \<open>The strings of a message have to be UTF-8; this is \<^verbatim>\<open>utf8.Valid\<close>, on the bytes of the string.\<close>

definition conts :: "nat \<Rightarrow> nat \<Rightarrow> nat \<Rightarrow> nat list \<Rightarrow> bool" where
  "conts n lo hi bs \<longleftrightarrow> n \<le> length bs \<and> lo \<le> hd bs \<and> hd bs \<le> hi \<and> (\<forall>b \<in> set (take n bs). 0x80 \<le> b \<and> b \<le> 0xBF)"

fun utf8 :: "nat list \<Rightarrow> bool" where
  "utf8 [] = True"
| "utf8 (a # bs) =
     (if a < 0x80 then utf8 bs
      else if 0xC2 \<le> a \<and> a \<le> 0xDF then conts 1 0x80 0xBF bs \<and> utf8 (drop 1 bs)
      else if 0xE0 \<le> a \<and> a \<le> 0xEF then conts 2 (if a = 0xE0 then 0xA0 else 0x80) (if a = 0xED then 0x9F else 0xBF) bs \<and> utf8 (drop 2 bs)
      else if 0xF0 \<le> a \<and> a \<le> 0xF4 then conts 3 (if a = 0xF0 then 0x90 else 0x80) (if a = 0xF4 then 0x8F else 0xBF) bs \<and> utf8 (drop 3 bs)
      else False)"

definition utf8_string :: "string \<Rightarrow> bool" where
  "utf8_string s \<longleftrightarrow> utf8 (map of_char s)"

lemma ascii_utf8: "\<forall>c \<in> set s. of_char c < (0x80 :: nat) \<Longrightarrow> utf8_string s"
  unfolding utf8_string_def by (induction s) simp_all

definition tx_wire_ok :: "proto_Transaction \<Rightarrow> bool" where
  "tx_wire_ok t \<longleftrightarrow> (\<forall>i \<in> set (ptx_Inputs t). utf8_string (pti_TransactionHash i) \<and> utf8_string (pti_UnlockingScript i))
     \<and> (\<forall>v \<in> set (ptx_Outputs t). utf8_string (pto_LockingScript v))"

definition block_wire_ok :: "proto_Block \<Rightarrow> bool" where
  "block_wire_ok b \<longleftrightarrow> (case pb_Header b of None \<Rightarrow> True
       | Some h \<Rightarrow> utf8_string (pbh_PrevBlockHash h) \<and> utf8_string (pbh_MerkleRoot h) \<and> utf8_string (pbh_DifficultyTarget h))
     \<and> (\<forall>t \<in> set (pb_Transactions b). tx_wire_ok t)"

fun wire_ok :: "msg \<Rightarrow> bool" where
  "wire_ok (MsgTransaction t) = tx_wire_ok t"
| "wire_ok (MsgBlock b) = block_wire_ok b"
| "wire_ok (MsgVersionRequest v) = (utf8_string (pvr_AddrYou v) \<and> utf8_string (pvr_AddrMe v))"
| "wire_ok (MsgGetBlocksRequest g) = (utf8_string (pgb_TopBlockHash g) \<and> utf8_string (pgb_AddrMe g))"
| "wire_ok (MsgGetBlocksResponse g) = (\<forall>h \<in> set (pgr_BlockHashes g). utf8_string h)"
| "wire_ok (MsgGetDataRequest g) = utf8_string (pgd_BlockHash g)"
| "wire_ok (MsgGetDataResponse g) = (case pgd_Block g of None \<Rightarrow> True | Some b \<Rightarrow> block_wire_ok b)"
| "wire_ok (MsgAddresses as) = (\<forall>a \<in> set (pas_Addrs as). utf8_string (pa_Addr a))"
| "wire_ok MsgEmpty = True"

text \<open>Unmarshalling the bytes of a message that could be marshalled into a message of its own type gives it back.\<close>

definition codec_ok :: "(msg \<Rightarrow> wire) \<Rightarrow> bool" where
  "codec_ok enc \<longleftrightarrow> (\<forall>m. wire_ok m \<longrightarrow>
     (case m of
        MsgTransaction x \<Rightarrow> as_Transaction (enc m) = Inr x
      | MsgBlock x \<Rightarrow> as_Block (enc m) = Inr x
      | MsgVersionRequest x \<Rightarrow> as_VersionRequest (enc m) = Inr x
      | MsgGetBlocksRequest x \<Rightarrow> as_GetBlocksRequest (enc m) = Inr x
      | MsgGetBlocksResponse x \<Rightarrow> as_GetBlocksResponse (enc m) = Inr x
      | MsgGetDataRequest x \<Rightarrow> as_GetDataRequest (enc m) = Inr x
      | MsgGetDataResponse x \<Rightarrow> as_GetDataResponse (enc m) = Inr x
      | MsgAddresses x \<Rightarrow> as_Addresses (enc m) = Inr x
      | MsgEmpty \<Rightarrow> as_Empty (enc m) = Inr ()))"

lemma codec_fields:
  assumes "codec_ok enc"
  shows "wire_ok (MsgTransaction t) \<Longrightarrow> as_Transaction (enc (MsgTransaction t)) = Inr t"
    and "wire_ok (MsgBlock b) \<Longrightarrow> as_Block (enc (MsgBlock b)) = Inr b"
    and "wire_ok (MsgVersionRequest v) \<Longrightarrow> as_VersionRequest (enc (MsgVersionRequest v)) = Inr v"
    and "wire_ok (MsgGetBlocksRequest gb) \<Longrightarrow> as_GetBlocksRequest (enc (MsgGetBlocksRequest gb)) = Inr gb"
    and "wire_ok (MsgGetBlocksResponse rb) \<Longrightarrow> as_GetBlocksResponse (enc (MsgGetBlocksResponse rb)) = Inr rb"
    and "wire_ok (MsgGetDataRequest gd) \<Longrightarrow> as_GetDataRequest (enc (MsgGetDataRequest gd)) = Inr gd"
    and "wire_ok (MsgGetDataResponse rd) \<Longrightarrow> as_GetDataResponse (enc (MsgGetDataResponse rd)) = Inr rd"
    and "wire_ok (MsgAddresses as) \<Longrightarrow> as_Addresses (enc (MsgAddresses as)) = Inr as"
    and "as_Empty (enc MsgEmpty) = Inr ()"
  using assms [unfolded codec_ok_def, rule_format, of "MsgTransaction t"] assms [unfolded codec_ok_def, rule_format, of "MsgBlock b"]
    assms [unfolded codec_ok_def, rule_format, of "MsgVersionRequest v"] assms [unfolded codec_ok_def, rule_format, of "MsgGetBlocksRequest gb"]
    assms [unfolded codec_ok_def, rule_format, of "MsgGetBlocksResponse rb"] assms [unfolded codec_ok_def, rule_format, of "MsgGetDataRequest gd"]
    assms [unfolded codec_ok_def, rule_format, of "MsgGetDataResponse rd"] assms [unfolded codec_ok_def, rule_format, of "MsgAddresses as"]
    assms [unfolded codec_ok_def, rule_format, of MsgEmpty] by simp_all

definition in_time :: "ctx \<Rightarrow> int \<Rightarrow> bool" where
  "in_time ctx t \<longleftrightarrow> (case ctx of None \<Rightarrow> True | Some d \<Rightarrow> t < d)"

text \<open>
  A connection to a server with the service \<open>desc\<close>; \<open>arrival\<close> is the time at which the reply to a call is back at the client. A request that cannot be marshalled is not
  sent and is an error. Otherwise a call by the full name of a method runs that method's handler, without an interceptor. When the reply is back before the deadline, the
  call returns it, or some error if the handler returned one or the reply cannot be marshalled. When it is not, the call returns an error, whether or not the handler has
  run.
\<close>

definition serves :: "'s conn \<Rightarrow> (string \<Rightarrow> msg \<Rightarrow> 's \<Rightarrow> int) \<Rightarrow> (msg \<Rightarrow> wire) \<Rightarrow> 's ServiceDesc \<Rightarrow> 's BrunoCoinServer \<Rightarrow> bool" where
  "serves c arrival enc desc srv \<longleftrightarrow>
     (\<forall>(name, h) \<in> set (Methods desc). \<forall>ctx m s.
        let path = ''/'' @ ServiceName desc @ ''/'' @ name in
        (\<not> wire_ok m \<longrightarrow> (\<exists>e'. c ctx path m s = (s, Inl e')))
        \<and> (\<forall>s' r e. wire_ok m \<and> h srv (enc m) None s = Inr (s', r, e) \<longrightarrow>
             (in_time ctx (arrival path m s) \<and> e = None \<longrightarrow> (\<forall>x. r = Some x \<longrightarrow>
                (if wire_ok x then c ctx path m s = (s', Inr (enc x)) else (\<exists>e'. c ctx path m s = (s', Inl e')))))
             \<and> (in_time ctx (arrival path m s) \<and> e \<noteq> None \<longrightarrow> (\<exists>e'. c ctx path m s = (s', Inl e')))
             \<and> (\<not> in_time ctx (arrival path m s) \<longrightarrow> (\<exists>s2 \<in> {s, s'}. \<exists>e'. c ctx path m s = (s2, Inl e')))))"

text \<open>Dialling an address reaches the connection \<open>c\<close>, with every call going through the interceptor that was asked for.\<close>

definition connects :: "'s dialer \<Rightarrow> string \<Rightarrow> 's conn \<Rightarrow> bool" where
  "connects dial addr c \<longleftrightarrow> (\<forall>opts f. WithUnaryInterceptor f \<in> set opts \<and> (\<forall>g. WithUnaryInterceptor g \<in> set opts \<longrightarrow> g = f)
     \<longrightarrow> dial addr opts = Inr (f c))"

section \<open>From the client's method to the server's\<close>

lemma GetConnection_connects: "connects dial (addr_Addr a) c \<Longrightarrow> GetConnection dial now a = Inr \<lparr>client_cc = clientUnaryInterceptor now c\<rparr>"
  by (auto simp: connects_def GetConnection_def connectToServer_def NewBrunoCoinClient_def)

text \<open>Every call carries a deadline two seconds after it was made.\<close>

lemma rpc_deadline:
  assumes "connects dial (addr_Addr a) c"
  shows "rpc dial now a (unary_call path m out) s = unary_call path m out \<lparr>client_cc = c\<rparr> (Some (now + 2000000000)) s"
  by (simp add: rpc_def GetConnection_connects [OF assms] unary_call_def clientUnaryInterceptor_def WithTimeout_def RPCTimeout_def)

text \<open>
  What a call does in the state \<open>s\<close> of a server, given whether its request can be marshalled (\<open>sent\<close>), whether its reply is back in time, and what the handler does, \<open>h\<close>. An
  error is a nil reply together with an error.
\<close>

definition failed :: "'r reply \<Rightarrow> bool" where
  "failed r \<longleftrightarrow> fst r = None \<and> snd r \<noteq> None"

definition call_result :: "('r \<Rightarrow> msg) \<Rightarrow> bool \<Rightarrow> bool \<Rightarrow> 's \<Rightarrow> ('s \<times> 'r reply) go \<Rightarrow> 's \<times> 'r reply \<Rightarrow> bool" where
  "call_result box sent timely s h res \<longleftrightarrow>
     (\<not> sent \<longrightarrow> fst res = s \<and> failed (snd res))
     \<and> (\<forall>s' r e. sent \<and> h = Inr (s', r, e) \<longrightarrow>
          (timely \<and> e = None \<longrightarrow> (\<forall>x. r = Some x \<longrightarrow> (if wire_ok (box x) then res = (s', Some x, None) else fst res = s' \<and> failed (snd res))))
          \<and> (timely \<and> e \<noteq> None \<longrightarrow> fst res = s' \<and> failed (snd res))
          \<and> (\<not> timely \<longrightarrow> fst res \<in> {s, s'} \<and> failed (snd res)))"

lemma rpc_called:
  assumes con: "connects dial (addr_Addr a) c" and sv: "serves c arrival enc desc srv" and meth: "(name, h) \<in> set (Methods desc)"
    and path: "path = ''/'' @ ServiceName desc @ ''/'' @ name" and run: "wire_ok m \<Longrightarrow> h srv (enc m) None s = boxed box res"
    and out: "\<And>x. wire_ok (box x) \<Longrightarrow> out (enc (box x)) = Inr x"
  shows "call_result box (wire_ok m) (arrival path m s < now + 2000000000) s res (rpc dial now a (unary_call path m out) s)"
proof -
  let ?d = "Some (now + 2000000000)" and ?r = "rpc dial now a (unary_call path m out) s"
  have t: "in_time ?d t \<longleftrightarrow> t < now + 2000000000" for t by (simp add: in_time_def)
  have refused: "\<not> wire_ok m \<Longrightarrow> \<exists>e'. c ?d path m s = (s, Inl e')"
    and served: "\<And>s' r e. wire_ok m \<Longrightarrow> h srv (enc m) None s = Inr (s', r, e) \<Longrightarrow>
      (arrival path m s < now + 2000000000 \<and> e = None \<longrightarrow> (\<forall>x. r = Some x \<longrightarrow>
          (if wire_ok x then c ?d path m s = (s', Inr (enc x)) else (\<exists>e'. c ?d path m s = (s', Inl e')))))
      \<and> (arrival path m s < now + 2000000000 \<and> e \<noteq> None \<longrightarrow> (\<exists>e'. c ?d path m s = (s', Inl e')))
      \<and> (\<not> arrival path m s < now + 2000000000 \<longrightarrow> (\<exists>s2 \<in> {s, s'}. \<exists>e'. c ?d path m s = (s2, Inl e')))"
    using bspec [OF sv [unfolded serves_def] meth] unfolding path t [symmetric] Let_def by fast+
  have err: "fst ?r = s2 \<and> failed (snd ?r)" if "\<exists>e'. c ?d path m s = (s2, Inl e')" for s2
    using that by (auto simp: rpc_deadline [OF con] unary_call_def failed_def)
  have rep: "?r = (s2, Some x, None)" if "c ?d path m s = (s2, Inr (enc (box x)))" "wire_ok (box x)" for s2 x
    using that out by (simp add: rpc_deadline [OF con] unary_call_def)
  show ?thesis
    unfolding call_result_def
  proof (intro conjI impI allI)
    show "fst ?r = s" "failed (snd ?r)" if "\<not> wire_ok m" using err refused that by blast+
  next
    fix s' r e
    assume ok: "wire_ok m \<and> res = Inr (s', r, e)"
    then have h: "h srv (enc m) None s = Inr (s', map_option box r, e)" using run by (simp add: boxed_def)
    note sv' = served [OF conjunct1 [OF ok] h]
    show "if wire_ok (box x) then ?r = (s', Some x, None) else fst ?r = s' \<and> failed (snd ?r)"
      if "arrival path m s < now + 2000000000 \<and> e = None" "r = Some x" for x
      using sv' that rep [of s' x] err [of s'] by (auto split: if_splits)
    show "fst ?r = s'" "failed (snd ?r)" if "arrival path m s < now + 2000000000 \<and> e \<noteq> None" using sv' that err [of s'] by blast+
    show "fst ?r \<in> {s, s'}" "failed (snd ?r)" if "\<not> arrival path m s < now + 2000000000" using sv' that err by blast+
  qed
qed

lemmas handler_defs = ForwardTransaction_Handler_def ForwardBlock_Handler_def Version_Handler_def GetBlocks_Handler_def GetData_Handler_def
  SendAddresses_Handler_def GetAddresses_Handler_def

lemma calls_served:
  assumes "codec_ok enc" "connects dial (addr_Addr a) c" "serves c arrival enc BrunoCoin_ServiceDesc srv"
  shows "call_result (\<lambda>_. MsgEmpty) (wire_ok (MsgTransaction t)) (arrival ''/BrunoCoin/ForwardTransaction'' (MsgTransaction t) s < now + 2000000000) s
      (srv_ForwardTransaction srv t s) (rpc dial now a (client_ForwardTransaction t) s)"
    and "call_result (\<lambda>_. MsgEmpty) (wire_ok (MsgBlock b)) (arrival ''/BrunoCoin/ForwardBlock'' (MsgBlock b) s < now + 2000000000) s
      (srv_ForwardBlock srv b s) (rpc dial now a (client_ForwardBlock b) s)"
    and "call_result (\<lambda>_. MsgEmpty) (wire_ok (MsgVersionRequest v)) (arrival ''/BrunoCoin/Ver'' (MsgVersionRequest v) s < now + 2000000000) s
      (srv_Version srv v s) (rpc dial now a (client_Version v) s)"
    and "call_result MsgGetBlocksResponse (wire_ok (MsgGetBlocksRequest gb)) (arrival ''/BrunoCoin/GetBlocks'' (MsgGetBlocksRequest gb) s < now + 2000000000) s
      (srv_GetBlocks srv gb s) (rpc dial now a (client_GetBlocks gb) s)"
    and "call_result MsgGetDataResponse (wire_ok (MsgGetDataRequest gd)) (arrival ''/BrunoCoin/GetData'' (MsgGetDataRequest gd) s < now + 2000000000) s
      (srv_GetData srv gd s) (rpc dial now a (client_GetData gd) s)"
    and "call_result (\<lambda>_. MsgEmpty) (wire_ok (MsgAddresses as)) (arrival ''/BrunoCoin/SendAddresses'' (MsgAddresses as) s < now + 2000000000) s
      (srv_SendAddresses srv as s) (rpc dial now a (client_SendAddresses as) s)"
    and "call_result MsgAddresses (wire_ok MsgEmpty) (arrival ''/BrunoCoin/GetAddresses'' MsgEmpty s < now + 2000000000) s
      (srv_GetAddresses srv u s) (rpc dial now a (client_GetAddresses u) s)"
proof -
  note called = rpc_called [OF assms(2,3)] and defs = BrunoCoin_ServiceDesc_def handler_defs unary_handler_def client_defs
  note codec = codec_fields [OF assms(1)]
  show "call_result (\<lambda>_. MsgEmpty) (wire_ok (MsgTransaction t)) (arrival ''/BrunoCoin/ForwardTransaction'' (MsgTransaction t) s < now + 2000000000) s
      (srv_ForwardTransaction srv t s) (rpc dial now a (client_ForwardTransaction t) s)"
    unfolding client_defs by (rule called [where name = "''ForwardTransaction''" and h = ForwardTransaction_Handler])
      (simp_all add: defs codec del: wire_ok.simps)
  show "call_result (\<lambda>_. MsgEmpty) (wire_ok (MsgBlock b)) (arrival ''/BrunoCoin/ForwardBlock'' (MsgBlock b) s < now + 2000000000) s
      (srv_ForwardBlock srv b s) (rpc dial now a (client_ForwardBlock b) s)"
    unfolding client_defs by (rule called [where name = "''ForwardBlock''" and h = ForwardBlock_Handler])
      (simp_all add: defs codec del: wire_ok.simps)
  show "call_result (\<lambda>_. MsgEmpty) (wire_ok (MsgVersionRequest v)) (arrival ''/BrunoCoin/Ver'' (MsgVersionRequest v) s < now + 2000000000) s
      (srv_Version srv v s) (rpc dial now a (client_Version v) s)"
    unfolding client_defs by (rule called [where name = "''Ver''" and h = Version_Handler])
      (simp_all add: defs codec del: wire_ok.simps)
  show "call_result MsgGetBlocksResponse (wire_ok (MsgGetBlocksRequest gb)) (arrival ''/BrunoCoin/GetBlocks'' (MsgGetBlocksRequest gb) s < now + 2000000000) s
      (srv_GetBlocks srv gb s) (rpc dial now a (client_GetBlocks gb) s)"
    unfolding client_defs by (rule called [where name = "''GetBlocks''" and h = GetBlocks_Handler])
      (simp_all add: defs codec del: wire_ok.simps)
  show "call_result MsgGetDataResponse (wire_ok (MsgGetDataRequest gd)) (arrival ''/BrunoCoin/GetData'' (MsgGetDataRequest gd) s < now + 2000000000) s
      (srv_GetData srv gd s) (rpc dial now a (client_GetData gd) s)"
    unfolding client_defs by (rule called [where name = "''GetData''" and h = GetData_Handler])
      (simp_all add: defs codec del: wire_ok.simps)
  show "call_result (\<lambda>_. MsgEmpty) (wire_ok (MsgAddresses as)) (arrival ''/BrunoCoin/SendAddresses'' (MsgAddresses as) s < now + 2000000000) s
      (srv_SendAddresses srv as s) (rpc dial now a (client_SendAddresses as) s)"
    unfolding client_defs by (rule called [where name = "''SendAddresses''" and h = SendAddresses_Handler])
      (simp_all add: defs codec del: wire_ok.simps)
  show "call_result MsgAddresses (wire_ok MsgEmpty) (arrival ''/BrunoCoin/GetAddresses'' MsgEmpty s < now + 2000000000) s
      (srv_GetAddresses srv u s) (rpc dial now a (client_GetAddresses u) s)"
    unfolding client_defs by (rule called [where name = "''GetAddresses''" and h = GetAddresses_Handler])
      (simp_all add: defs codec del: wire_ok.simps)
qed

end
