(* ===== verification/Rpc.thy ===== *)
theory Rpc
  imports Sync Grpc
begin

text \<open>
  The node as a gRPC server: the methods of \<^verbatim>\<open>pkg/server.go\<close> behind the generated handlers, and what a call of \<^verbatim>\<open>pkg/address/client.go\<close> does at the node
  it reaches.
\<close>

section \<open>The node's methods\<close>






section \<open>A run-time on one machine\<close>









end
