(* ===== verification/Settlement.thy ===== *)
theory Settlement
  imports Wallet Miner
begin

text \<open>
  What payments and blocks do to the money. A map of unspent outputs has a weight for every way to value an output: the amounts locked to one key give
  balances, all amounts give the supply. The lemmas say how the weight changes when a transaction is applied; the properties follow a payment from the
  wallet through a mined block to the balances, and a block to the supply.
\<close>

section \<open>Weights\<close>

definition weight :: "(TransactionOutput \<Rightarrow> 'a::comm_monoid_add) \<Rightarrow> utxo_map \<Rightarrow> 'a" where
  "weight f m = sum_list (map (\<lambda>(k, v). f v) m)"

definition in_key :: "TransactionInput \<Rightarrow> string" where
  "in_key i = MkTXOLoc (txi_TransactionHash i) (txi_OutputIndex i)"

text \<open>What an output is worth to the owner of a key, and to everybody.\<close>

definition owned :: "string \<Rightarrow> TransactionOutput \<Rightarrow> u32" where
  "owned pk v = (if txo_LockingScript v = pk then txo_Amount v else 0)"

definition coins :: "TransactionOutput \<Rightarrow> nat" where
  "coins v = unat (txo_Amount v)"

lemma weight_Nil [simp]: "weight f [] = 0"
  by (simp add: weight_def)

lemma weight_Cons [simp]: "weight f ((k, v) # m) = f v + weight f m"
  by (simp add: weight_def)

lemma weight_gset_new: "k \<notin> set (gkeys m) \<Longrightarrow> weight f (gset k v m) = weight f m + f v"
  by (induction m) (auto simp: gkeys_def ac_simps)

lemma gdel_absent: "k \<notin> set (gkeys m) \<Longrightarrow> gdel k m = m"
  by (induction m) (auto simp: gkeys_def)

lemma weight_gdel: "gm_ok m \<Longrightarrow> gget m k = Some v \<Longrightarrow> weight f (gdel k m) + f v = weight f m"
proof (induction m)
  case (Cons kv m)
  obtain k' v' where kv: "kv = (k', v')" by (cases kv)
  show ?case
  proof (cases "k' = k")
    case True
    then have "gdel k m = m" using Cons.prems(1) kv by (intro gdel_absent) (simp add: gm_ok_def gkeys_def)
    then show ?thesis using True Cons.prems(2) kv by (simp add: add.commute)
  next
    case False
    then show ?thesis using Cons kv by (simp add: gm_ok_def gkeys_def add.assoc)
  qed
qed simp

lemma weight_spend:
  assumes "gm_ok m" "distinct (map g is)" "\<forall>i \<in> set is. gget m (g i) \<noteq> None"
  shows "weight f (foldl (\<lambda>m i. gdel (g i) m) m is) + (\<Sum>i\<leftarrow>is. f (the (gget m (g i)))) = weight f m"
  using assms
proof (induction "is" arbitrary: m)
  case (Cons i "is")
  let ?m = "gdel (g i) m"
  have same: "gget ?m (g j) = gget m (g j)" if "j \<in> set is" for j
  proof -
    have "g i \<notin> g ` set is" using Cons.prems(2) by simp
    then have "g j \<noteq> g i" using that by (metis imageI)
    then show ?thesis by simp
  qed
  have "weight f (foldl (\<lambda>m i. gdel (g i) m) ?m is) + (\<Sum>j\<leftarrow>is. f (the (gget ?m (g j)))) = weight f ?m"
    using Cons.prems same by (intro Cons.IH) auto
  moreover have "(\<Sum>j\<leftarrow>is. f (the (gget ?m (g j)))) = (\<Sum>j\<leftarrow>is. f (the (gget m (g j))))"
    using same by (metis (mono_tags, lifting) map_cong)
  moreover have "weight f ?m + f (the (gget m (g i))) = weight f m" using Cons.prems by (intro weight_gdel) auto
  ultimately show ?case by (simp add: ac_simps)
qed simp

lemma weight_create:
  assumes "distinct ks" "set ks \<inter> set (gkeys m) = {}" "length ks = length vs"
  shows "weight f (foldl (\<lambda>m (k, v). gset k v m) m (zip ks vs)) = weight f m + (\<Sum>v\<leftarrow>vs. f v)"
  using assms
proof (induction ks arbitrary: m vs)
  case (Cons k ks)
  then obtain v vs' where vs: "vs = v # vs'" by (cases vs) auto
  have "weight f (foldl (\<lambda>m (k, v). gset k v m) (gset k v m) (zip ks vs')) = weight f (gset k v m) + (\<Sum>v\<leftarrow>vs'. f v)"
    using Cons.prems vs by (intro Cons.IH) (auto simp: gkeys_gset)
  then show ?case using Cons.prems by (simp add: vs weight_gset_new add.assoc)
qed simp

section \<open>Transactions and blocks that settle\<close>

text \<open>
  A transaction settles on a map when it spends different outputs of the map and the locators of its own outputs are not in use.
\<close>

definition settles :: "(byte list \<Rightarrow> byte list) \<Rightarrow> utxo_map \<Rightarrow> Transaction \<Rightarrow> bool" where
  "settles H m t \<longleftrightarrow> distinct (map in_key (tx_Inputs t)) \<and> (\<forall>i \<in> set (tx_Inputs t). gget m (in_key i) \<noteq> None)
     \<and> set (tx_locs H t) \<inter> set (gkeys m) = {} \<and> length (tx_Outputs t) \<le> 2 ^ 32"

fun settle_all :: "(byte list \<Rightarrow> byte list) \<Rightarrow> utxo_map \<Rightarrow> Transaction list \<Rightarrow> bool" where
  "settle_all H m [] = True"
| "settle_all H m (t # ts) = (settles H m t \<and> settle_all H (utxo_apply_tx H m t) ts)"

text \<open>The outputs a transaction spends.\<close>

definition spent_outputs :: "utxo_map \<Rightarrow> Transaction \<Rightarrow> TransactionOutput list" where
  "spent_outputs m t = map (\<lambda>i. the (gget m (in_key i))) (tx_Inputs t)"

lemma distinct_tx_locs: "length (tx_Outputs t) \<le> 2 ^ 32 \<Longrightarrow> distinct (tx_locs H t)"
proof -
  assume len: "length (tx_Outputs t) \<le> 2 ^ 32"
  have "inj_on (word_of_nat :: nat \<Rightarrow> u32) {..<2 ^ 32}"
    by (rule inj_onI) (metis lessThan_iff unat_of_nat_u32)
  then show ?thesis using len by (auto simp: tx_locs_def distinct_map inj_on_def)
qed

lemma weight_apply:
  assumes "gm_ok m" "settles H m t"
  shows "weight f (utxo_apply_tx H m t) + (\<Sum>v\<leftarrow>spent_outputs m t. f v) = weight f m + (\<Sum>v\<leftarrow>tx_Outputs t. f v)"
proof -
  let ?m = "foldl (\<lambda>m i. gdel (in_key i) m) m (tx_Inputs t)"
  have "set (gkeys ?m) \<subseteq> set (gkeys m)" by (auto simp: in_gkeys_iff gget_foldl_gdel restrict_map_def split: if_splits)
  then have "weight f (foldl (\<lambda>m (k, v). gset k v m) ?m (zip (tx_locs H t) (tx_Outputs t))) = weight f ?m + (\<Sum>v\<leftarrow>tx_Outputs t. f v)"
    using assms(2) distinct_tx_locs [of t H] by (intro weight_create) (auto simp: settles_def tx_locs_def)
  moreover have "weight f ?m + (\<Sum>v\<leftarrow>spent_outputs m t. f v) = weight f m"
    using weight_spend [of m in_key "tx_Inputs t" f] assms by (simp add: settles_def spent_outputs_def comp_def)
  ultimately show ?thesis by (simp add: utxo_apply_tx_def foldl_outputs in_key_def ac_simps)
qed

lemma gm_ok_block [simp]: "gm_ok m \<Longrightarrow> gm_ok (foldl (utxo_apply_tx H) m ts)"
  by (induction ts arbitrary: m) simp_all

section \<open>Weights and the chain\<close>

lemma weight_sum: "gm_ok m \<Longrightarrow> weight f m = (\<Sum>k \<in> set (gkeys m). f (the (gget m k)))"
proof (induction m)
  case (Cons kv m)
  obtain k v where kv: "kv = (k, v)" by (cases kv)
  have k: "k \<notin> set (gkeys m)" "gm_ok m" using Cons.prems kv by (auto simp: gm_ok_def gkeys_def)
  have "(\<Sum>j \<in> set (gkeys m). f (the (gget (kv # m) j))) = (\<Sum>j \<in> set (gkeys m). f (the (gget m j)))"
    by (rule sum.cong) (use k(1) kv in auto)
  then show ?case using Cons.IH k kv by (simp add: gkeys_def)
qed (simp add: gkeys_def)

lemma weight_abs:
  assumes "gm_ok m" "gm_ok m'" "utxo_abs m = utxo_abs m'" "\<And>v. f (unmark v) = f v"
  shows "weight f m = weight f m'"
proof -
  have same: "map_option unmark (gget m k) = map_option unmark (gget m' k)" for k using fun_cong [OF assms(3), of k] by (simp add: utxo_abs_def)
  then have keys: "set (gkeys m) = set (gkeys m')" by (auto simp: set_eq_iff in_gkeys_iff) (metis map_option_eq_Some)+
  have "f (the (gget m k)) = f (the (gget m' k))" if k: "k \<in> set (gkeys m')" for k
  proof -
    obtain v' where "gget m' k = Some v'" using k by (auto simp: in_gkeys_iff)
    moreover obtain v where "gget m k = Some v" using k unfolding keys [symmetric] by (auto simp: in_gkeys_iff)
    ultimately have v: "gget m k = Some v" "gget m' k = Some v'" by simp_all
    then have "unmark v = unmark v'" using same [of k] by simp
    then show ?thesis using assms(4) by (metis v option.sel)
  qed
  then show ?thesis by (simp add: weight_sum assms(1,2) keys)
qed

lemma unmark_amount [simp]: "txo_Amount (unmark v) = txo_Amount v"
  by (simp add: unmark_def)

lemma unmark_values [simp]: "owned pk (unmark v) = owned pk v" "coins (unmark v) = coins v"
  by (simp_all add: owned_def coins_def unmark_def)

text \<open>\<open>GetBalance\<close> is the weight of what the key owns, for every order of the range.\<close>

lemma GetBalance_weight:
  assumes "chain_inv H bc" "range_order (last_utxo bc) ks"
  shows "Blockchain_GetBalance bc ks pk = weight (owned pk) (last_utxo bc)"
proof -
  let ?m = "last_utxo bc"
  have d: "distinct ks" "set ks = set (gkeys ?m)" "gm_ok ?m"
    using range_order_distinct [OF assms(2)] range_order_set [OF assms(2)] chain_inv_last(4) [OF assms(1)] by simp_all
  have "foldl (\<lambda>bal k. case gget m k of None \<Rightarrow> bal | Some v \<Rightarrow> if txo_LockingScript v = pk then bal + txo_Amount v else bal) a ks
      = a + (\<Sum>k\<leftarrow>ks. owned pk (the (gget m k)))" if "set ks \<subseteq> set (gkeys m)" for ks m a
    using that by (induction ks arbitrary: a) (auto simp: owned_def in_gkeys_iff add.assoc split: option.splits)
  from this [of ks ?m 0] have "Blockchain_GetBalance bc ks pk = (\<Sum>k\<leftarrow>ks. owned pk (the (gget ?m k)))"
    using d(2) by (simp add: Blockchain_GetBalance_def)
  then show ?thesis using d by (simp add: sum_list_distinct_conv_sum_set weight_sum)
qed

lemma Add_last_utxo:
  assumes "chain_inv H bc" "Blockchain_Add H (Some b) bc = Inr bc'"
  shows "last_utxo bc' = foldl (utxo_apply_tx H) (last_utxo bc) (Transactions b)"
proof -
  from assms(2) obtain p where p: "gget (blocks bc) (PrvBlkHsh (Hdr b)) = Some p"
    and bc': "utxo_mem bc' = (utxo_mem bc)[utxo p := foldl (utxo_apply_tx H) (node_utxo bc p) (Transactions b)]"
    by (rule Add_cases) simp
  have "utxo p = 0" "utxo (LastBlock bc) = 0" "length (utxo_mem bc) = 1" "utxo (LastBlock bc') = 0"
    using chain_inv_node(3) [OF assms(1) p] chain_inv_last [OF assms(1)] chain_inv_last(2) [OF Add_inv [OF assms]] by simp_all
  then show ?thesis by (simp add: bc')
qed

section \<open>A payment of the wallet\<close>

abbreviation key_of :: "('pk, 'sk) SimpleID \<Rightarrow> string" where
  "key_of i \<equiv> hex_EncodeToString (GetPublicKeyBytes i)"

abbreviation plain_output :: "u32 \<Rightarrow> string \<Rightarrow> TransactionOutput" where
  "plain_output amt pk \<equiv> \<lparr>txo_Amount = amt, txo_LockingScript = pk, txo_Liminal = False\<rparr>"

text \<open>What the transaction of a request spends and creates.\<close>

lemma input_made: "HndlTxReq_input ec H i (r, ut) = Inr p \<Longrightarrow> pti_TransactionHash p = TxHsh ut \<and> pti_OutputIndex p = OutIdx ut \<and> pti_Amount p = Amt ut"
  by (auto simp: HndlTxReq_input_def NewTxInpt_def go_simps)

lemma inputs_made:
  "go_map (HndlTxReq_input ec H i) (map (\<lambda>(j, ut). (draw j, ut)) (enumerate k infos)) = Inr ps
   \<Longrightarrow> map (in_key \<circ> TransactionInput_Deserialize) ps = map (\<lambda>ut. MkTXOLoc (TxHsh ut) (OutIdx ut)) infos \<and> map pti_Amount ps = map Amt infos"
proof (induction infos arbitrary: k ps)
  case (Cons ut infos)
  then obtain p ps' where "HndlTxReq_input ec H i (draw k, ut) = Inr p" "ps = p # ps'"
      "go_map (HndlTxReq_input ec H i) (map (\<lambda>(j, ut). (draw j, ut)) (enumerate (Suc k) infos)) = Inr ps'"
    by (auto simp: go_simps)
  with Cons.IH [OF this(3)] input_made [OF this(1)] show ?case by (simp add: in_key_def TransactionInput_Deserialize_def)
qed simp

lemma HndlTxReq_tx:
  assumes run: "chain_run H conf bs bc" and ord: "range_order (last_utxo bc) ks"
    and req: "HndlTxReq ec H ks draw txR w bc = Inr (w', bc', [t])"
  obtains P where "map in_key (tx_Inputs t) = P" "distinct P" "\<forall>k \<in> set P. avail (last_utxo bc) (key_of (wt_Id w)) k"
    and "chain_inv H bc'" "utxo_abs (last_utxo bc') = utxo_abs (last_utxo bc)"
    and "map txi_Amount (tx_Inputs t) = map (worth (last_utxo bc)) P"
    and "tx_Outputs t = plain_output (req_Amt txR) (hex_EncodeToString (PubK txR)) #
      (if SumInputs t = req_Amt txR + Fee txR then [] else [plain_output (SumInputs t - (req_Amt txR + Fee txR)) (key_of (wt_Id w))])"
    and "req_Amt txR + Fee txR \<le> SumInputs t"
proof -
  let ?m = "last_utxo bc" and ?me = "key_of (wt_Id w)" and ?tot = "req_Amt txR + Fee txR"
  define P where "P = picked ?tot ?me ?m 0 ks"
  note inv = run_inv [OF run]
  obtain m' where g: "GetUTXOForAmt ks ?tot ?me bc = (let bc' = bc\<lparr>utxo_mem := (utxo_mem bc)[utxo (LastBlock bc) := m']\<rparr>; cur = sum_list (map (worth ?m) P)
       in if cur < ?tot then Inr (bc', [], 0, False) else Inr (bc', map (info_for ?m) P, cur - ?tot, True))"
    using GetUTXOForAmt_eq [OF inv ord, of ?tot ?me] unfolding P_def by metis
  have "req_Amt txR \<noteq> 0" using req by (auto simp: HndlTxReq_def)
  then obtain change inpts where f: "GetUTXOForAmt ks ?tot ?me bc = Inr (bc', map (info_for ?m) P, change, True)" "change = sum_list (map (worth ?m) P) - ?tot" "?tot \<le> sum_list (map (worth ?m) P)"
    and ins: "go_map (HndlTxReq_input ec H (wt_Id w)) (map (\<lambda>(j, ut). (draw j, ut)) (enumerate 0 (map (info_for ?m) P))) = Inr inpts"
    and t: "t = Transaction_Deserialize (NewTx (TxVer (wt_Conf w)) inpts (let outpts = [NewTxOutpt (req_Amt txR) (hex_EncodeToString (PubK txR))] in
      if change > 0 then outpts @ [NewTxOutpt change ?me] else outpts) (wc_DefLckTm (wt_Conf w)))"
    using req g by (auto simp: HndlTxReq_def Let_def go_simps split: if_splits)
  have av: "\<forall>k \<in> set P. avail ?m ?me k" by (auto simp: P_def dest: picked_avail)
  have key: "MkTXOLoc (TxHsh (info_for ?m k)) (OutIdx (info_for ?m k)) = k \<and> Amt (info_for ?m k) = worth ?m k" if "k \<in> set P" for k
  proof -
    have "k \<in> set (gkeys ?m)" using av that by (auto simp: avail_def in_gkeys_iff split: option.splits)
    then obtain t i where "k = MkTXOLoc (Transaction_Hash H t) i" using chain_inv_last(5) [OF inv] by (auto simp: utxo_keys_ok_def)
    then show ?thesis by (simp add: info_for_def PrsTXOLoc_MkTXOLoc minus_not_hash)
  qed
  have ti: "tx_Inputs t = map TransactionInput_Deserialize inpts" by (simp add: t Transaction_Deserialize_maps NewTx_def)
  have "map (\<lambda>ut. MkTXOLoc (TxHsh ut) (OutIdx ut)) (map (info_for ?m) P) = P" "map Amt (map (info_for ?m) P) = map (worth ?m) P"
    using key by (auto intro!: map_idI)
  then have P: "map in_key (tx_Inputs t) = P" "map txi_Amount (tx_Inputs t) = map (worth ?m) P"
    using inputs_made [OF ins] by (simp_all add: ti comp_def TransactionInput_Deserialize_def)
  then have sum: "SumInputs t = sum_list (map (worth ?m) P)" by (simp add: SumInputs_sum)
  have "tx_Outputs t = plain_output (req_Amt txR) (hex_EncodeToString (PubK txR)) # (if SumInputs t = ?tot then [] else [plain_output (SumInputs t - ?tot) ?me])"
    using f(2) unfolding sum by (simp add: t Transaction_Deserialize_maps NewTx_def NewTxOutpt_def TransactionOutput_Deserialize_def Let_def word_gt_0)
  moreover have "distinct P" unfolding P_def by (rule picked_distinct [OF range_order_distinct [OF ord chain_inv_last(4) [OF inv]]])
  moreover have "?tot \<le> SumInputs t" using f(3) sum by simp
  ultimately show thesis using that [OF P(1) _ av] P(2) GetUTXOForAmt_inv [OF inv ord f(1)] by blast
qed

lemma spent_abs:
  assumes "utxo_abs m = utxo_abs m'" "\<And>v. f (unmark v) = f v" "gget m k \<noteq> None"
  shows "gget m' k \<noteq> None \<and> f (the (gget m' k)) = f (the (gget m k))"
proof -
  have same: "map_option unmark (gget m k) = map_option unmark (gget m' k)" using fun_cong [OF assms(1), of k] by (simp add: utxo_abs_def)
  obtain v where v: "gget m k = Some v" using assms(3) by blast
  then obtain v' where v': "gget m' k = Some v'" "unmark v' = unmark v" using same by (cases "gget m' k") auto
  then have "f v' = f v" using assms(2) by metis
  then show ?thesis using v v' by simp
qed

lemma abs_keys: "utxo_abs m = utxo_abs m' \<Longrightarrow> set (gkeys m) = set (gkeys m')"
  by (auto simp: set_eq_iff in_gkeys_iff utxo_abs_def fun_eq_iff) (metis map_option_eq_Some)+

lemma clear_liminal_fields [simp]:
  "tx_Inputs (clear_liminal t) = tx_Inputs t" "tx_Outputs (clear_liminal t) = map unmark (tx_Outputs t)" "tx_locs H (clear_liminal t) = tx_locs H t"
proof -
  show "tx_Outputs (clear_liminal t) = map unmark (tx_Outputs t)" by (simp add: clear_liminal_def unmark_def)
  then show "tx_locs H (clear_liminal t) = tx_locs H t" by (simp add: tx_locs_def)
qed (simp add: clear_liminal_def)

text \<open>A coinbase on a map that does not have its locator.\<close>

lemma coinbase_settles:
  assumes "tx_Inputs cb = []" "tx_Outputs cb = [v]" "gm_ok m" "MkTXOLoc (Transaction_Hash H cb) 0 \<notin> set (gkeys m)"
  shows "settles H m cb" "weight f (utxo_apply_tx H m cb) = weight f m + f v"
    "gget (utxo_apply_tx H m cb) = (gget m)(MkTXOLoc (Transaction_Hash H cb) 0 \<mapsto> v)"
proof -
  have locs: "tx_locs H cb = [MkTXOLoc (Transaction_Hash H cb) 0]" by (simp add: tx_locs_def assms(2))
  show s: "settles H m cb" using assms by (simp add: settles_def locs)
  show "weight f (utxo_apply_tx H m cb) = weight f m + f v"
    using weight_apply [OF assms(3) s, of f] by (simp add: spent_outputs_def assms(1,2))
  show "gget (utxo_apply_tx H m cb) = (gget m)(MkTXOLoc (Transaction_Hash H cb) 0 \<mapsto> v)"
    by (rule ext) (simp add: utxo_apply_tx_gget tx_spent_def assms(1,2) locs restrict_map_def)
qed

lemma mined_txs:
  assumes "\<And>v. length (H v) = 32" "ready m" "Mine_attempt H stop m = Some (Inr (m', ev))" "SendBlkEv b \<in> set ev"
  shows "Transactions b = cb_tx m (NewMiningPool m) # map clear_liminal (NewMiningPool m)" "PrvBlkHsh (Hdr b) = PrvHsh m"
proof -
  obtain found b0 where cn: "CalcNonce H stop m (candidate H m) = (found, b0)" by fastforce
  have "found" "b0 = b" using assms(3,4) unfolding Mine_attempt_ready [OF assms(1,2)] cn by (auto simp: Let_def split: if_splits)
  then obtain n where "b = (candidate H m)\<lparr>Hdr := (Hdr (candidate H m))\<lparr>Nonce := n\<rparr>\<rparr>"
    using CalcNonce_loop_found [of H stop "NncLim (mnr_Conf m)" "DifTrg m" 0 "candidate H m" b] cn by (auto simp: CalcNonce_def)
  then show "Transactions b = cb_tx m (NewMiningPool m) # map clear_liminal (NewMiningPool m)" "PrvBlkHsh (Hdr b) = PrvHsh m"
    by (simp_all add: candidate_def)
qed

text \<open>The outputs a payment of the wallet creates, less those it spends, as far as the owner of a key is concerned.\<close>

lemma payment_weight:
  assumes "gm_ok m" "settles H m (clear_liminal t)"
    and ins: "\<forall>k \<in> set (map in_key (tx_Inputs t)). avail m0 me k" "map txi_Amount (tx_Inputs t) = map (worth m0) (map in_key (tx_Inputs t))"
    and same: "\<forall>k \<in> set (map in_key (tx_Inputs t)). owned pk (the (gget m k)) = owned pk (the (gget m0 k))"
    and outs: "tx_Outputs t = plain_output amt payee # (if SumInputs t = tot then [] else [plain_output (SumInputs t - tot) me])"
  shows "weight (owned pk) (utxo_apply_tx H m (clear_liminal t)) =
    weight (owned pk) m + (if pk = payee then amt else 0) - (if pk = me then tot else 0)"
proof -
  have "owned pk (the (gget m (in_key i))) = (if pk = me then worth m0 (in_key i) else 0)" if i: "i \<in> set (tx_Inputs t)" for i
  proof -
    have "avail m0 me (in_key i)" using ins(1) i by simp
    then obtain v where "gget m0 (in_key i) = Some v" "txo_LockingScript v = me" by (auto simp: avail_def split: option.splits)
    then show ?thesis using same i by (auto simp: owned_def worth_def)
  qed
  then have "map (owned pk) (spent_outputs m (clear_liminal t)) = map (\<lambda>i. if pk = me then worth m0 (in_key i) else 0) (tx_Inputs t)"
    by (simp add: spent_outputs_def)
  then have "(\<Sum>v\<leftarrow>spent_outputs m (clear_liminal t). owned pk v) = (if pk = me then SumInputs t else 0)"
    by (simp add: SumInputs_sum ins(2) comp_def)
  moreover have "(\<Sum>v\<leftarrow>tx_Outputs (clear_liminal t). owned pk v) = (if pk = payee then amt else 0) + (if pk = me then SumInputs t - tot else 0)"
    by (simp add: outs comp_def) (simp add: owned_def)
  ultimately have "weight (owned pk) (utxo_apply_tx H m (clear_liminal t)) + (if pk = me then SumInputs t else 0)
      = weight (owned pk) m + ((if pk = payee then amt else 0) + (if pk = me then SumInputs t - tot else 0))"
    using weight_apply [OF assms(1,2), of "owned pk"] by simp
  then show ?thesis by (simp add: algebra_simps split: if_splits)
qed

text \<open>
  C7: A payment settles. Let a wallet make a payment on a reachable chain, let a miner whose pool is that payment mine a block, and let a chain that has taken the same
  blocks take this block too. When the locators of the two transactions of the block are new, the balance of the payee has grown by the amount,
  that of the payer has shrunk by amount and fee, that of the miner has grown by the fee and the subsidy, and no other balance has changed, all modulo \<open>2 ^ 32\<close> and
  whatever order the maps are iterated in. Payer, payee and miner need not be different.
\<close>

theorem payment_settles:
  fixes t :: Transaction
  assumes H: "\<And>v. length (H v) = 32" and run: "chain_run H conf bs bc" and ord: "range_order (last_utxo bc) ks"
    and pay: "HndlTxReq ec H ks draw txR w bc = Inr (w', bc1, [t])"
    and mine: "ready m" "NewMiningPool m = [t]" "Mine_attempt H stop m = Some (Inr (m', ev))" "SendBlkEv b \<in> set ev"
    and add: "chain_run H conf bs bcp" "Blockchain_Add H (Some b) bcp = Inr bc2" and ord2: "range_order (last_utxo bc2) ks2"
    and new: "MkTXOLoc (Transaction_Hash H (cb_tx m [t])) 0 \<notin> set (gkeys (last_utxo bc))" "set (tx_locs H t) \<inter> set (gkeys (last_utxo bc)) = {}"
      "Transaction_Hash H (cb_tx m [t]) \<noteq> Transaction_Hash H t"
  shows "Blockchain_GetBalance bc2 ks2 pk = Blockchain_GetBalance bc ks pk + (if pk = hex_EncodeToString (PubK txR) then req_Amt txR else 0)
    - (if pk = key_of (wt_Id w) then req_Amt txR + Fee txR else 0)
    + (if pk = key_of (mnr_Id m) then Fee txR + subsidy (mnr_Conf m) (ChnLen m) else 0)"
proof -
  let ?cb = "cb_tx m [t]" and ?m = "last_utxo bcp"
  let ?L = "MkTXOLoc (Transaction_Hash H ?cb) 0" and ?m1 = "utxo_apply_tx H ?m ?cb"
  note inv = run_inv [OF run] and invp = run_inv [OF add(1)]
  have abs: "utxo_abs (last_utxo bc) = utxo_abs ?m" using run_utxo(1) [OF run] run_utxo(1) [OF add(1)] by simp
  have gm: "gm_ok ?m" "gm_ok (last_utxo bc)" "gm_ok ?m1" using chain_inv_last(4) [OF invp] chain_inv_last(4) [OF inv] by simp_all
  obtain P where P: "map in_key (tx_Inputs t) = P" "distinct P" "\<forall>k \<in> set P. avail (last_utxo bc) (key_of (wt_Id w)) k"
      "map txi_Amount (tx_Inputs t) = map (worth (last_utxo bc)) P"
    and outs: "tx_Outputs t = plain_output (req_Amt txR) (hex_EncodeToString (PubK txR)) #
      (if SumInputs t = req_Amt txR + Fee txR then [] else [plain_output (SumInputs t - (req_Amt txR + Fee txR)) (key_of (wt_Id w))])"
    by (rule HndlTxReq_tx [OF run ord pay])
  have "SumInputs t - SumOutputs t = Fee txR" by (simp add: SumOutputs_sum outs)
  then have cb: "tx_Inputs ?cb = []" "tx_Outputs ?cb = [plain_output (Fee txR + subsidy (mnr_Conf m) (ChnLen m)) (key_of (mnr_Id m))]"
    by (simp_all add: cb_tx_def)
  have "?L \<notin> set (gkeys ?m)" using new(1) abs_keys [OF abs] by simp
  note c = coinbase_settles [OF cb gm(1) this]
  have here: "k \<noteq> ?L \<and> gget ?m k \<noteq> None \<and> owned pk (the (gget ?m k)) = owned pk (the (gget (last_utxo bc) k))" if "k \<in> set P" for k
  proof -
    have "gget (last_utxo bc) k \<noteq> None" using P(3) that by (auto simp: avail_def split: option.splits)
    then show ?thesis using spent_abs [OF abs, of "owned pk" k] new(1) by (auto simp: in_gkeys_iff)
  qed
  have "\<forall>k \<in> set (tx_locs H t). k \<noteq> ?L" using new(3) by (auto simp: tx_locs_def)
  then have "settles H ?m1 (clear_liminal t)"
    using P(1,2) here new(2) abs_keys [OF abs] by (fastforce simp: settles_def c(3) in_gkeys_iff outs disjoint_iff)
  then have "weight (owned pk) (utxo_apply_tx H ?m1 (clear_liminal t)) = weight (owned pk) ?m1
      + (if pk = hex_EncodeToString (PubK txR) then req_Amt txR else 0) - (if pk = key_of (wt_Id w) then req_Amt txR + Fee txR else 0)"
    by (rule payment_weight [OF gm(3) _ _ _ _ outs]) (use P here in \<open>auto simp: c(3)\<close>)
  moreover have "last_utxo bc2 = utxo_apply_tx H ?m1 (clear_liminal t)"
    using Add_last_utxo [OF invp add(2)] mined_txs(1) [OF H mine(1,3,4)] mine(2) by simp
  moreover have "weight (owned pk) ?m = weight (owned pk) (last_utxo bc)" by (rule weight_abs [OF gm(1,2) abs [symmetric]]) simp
  ultimately show ?thesis
    using GetBalance_weight [OF inv ord] GetBalance_weight [OF run_inv [OF run_add [OF add]] ord2] c(2) [of "owned pk"]
    by (simp add: owned_def algebra_simps)
qed

text \<open>A payment of the example wallet on the example chain, and a miner that has it in its pool.\<close>

definition demo_payment :: "string \<Rightarrow> Transaction" where
  "demo_payment sc = \<lparr>tx_Version = TxVer wt_DefaultConfig,
     tx_Inputs = [\<lparr>txi_TransactionHash = num_hash 69, txi_OutputIndex = 0, txi_UnlockingScript = sc, txi_Amount = 9\<rparr>],
     tx_Outputs = [plain_output 6 ''01'', plain_output 1 ''aa''], tx_LockTime = wc_DefLckTm wt_DefaultConfig\<rparr>"

definition demo_payer :: "string \<Rightarrow> u32 \<Rightarrow> Transaction \<Rightarrow> (byte, byte) Miner" where
  "demo_payer h n t = demo_mnr\<lparr>mnr_Conf := (mnr_Conf demo_mnr)\<lparr>mc_Ver := 100\<rparr>, TxP := (TxP demo_mnr)\<lparr>TxQ := [\<lparr>hn_P = 1, hn_T = t\<rparr>]\<rparr>,
     PrvHsh := h, ChnLen := n\<rparr>"

lemma demo_wallet_conf: "wt_Conf (demo_wallet age) = wt_DefaultConfig"
  by (simp add: demo_wallet_def)

lemma demo_payment_made:
  "\<exists>w' bc' sc. HndlTxReq echo_ecdsa length_digest (gkeys (last_utxo demo_chain)) (\<lambda>j. j) \<lparr>PubK = [1], req_Amt = 6, Fee = 2\<rparr> (demo_wallet 0) demo_chain
     = Inr (w', bc', [demo_payment sc])"
proof -
  have "PrsTXOLoc (MkTXOLoc (num_hash 69) 0) = Inr (num_hash 69, 0)"
    using PrsTXOLoc_MkTXOLoc [of "num_hash 69" 0] by (simp add: num_hash_def hex_Encode_no_char)
  moreover have "\<exists>sc. MkSig echo_ecdsa length_digest 0 (plain_output 9 ''aa''\<lparr>txo_Liminal := True\<rparr>) (wt_Id (demo_wallet 0)) = Inr sc"
    by (simp add: demo_wallet_def CreateSimpleID_def echo_ecdsa_def MkSig_def PrivateKeyToBytes_def PublicKeyToBytes_def GetPrivateKey_def
        split: prod.splits option.splits)
  moreover have "hex_EncodeToString [1] = ''01''" by (simp add: hex_EncodeToString_def hex_char_def char_of_def bit_0)
  ultimately show ?thesis
    by (auto simp: HndlTxReq_def demo_wallet_key(1) GetUTXOForAmt_def demo_chain_eq demo_nodes gkeys_def Let_def HndlTxReq_input_def
        demo_payment_def Transaction_Deserialize_maps NewTx_def NewTxInpt_def NewTxOutpt_def TransactionInput_Deserialize_def
        TransactionOutput_Deserialize_def demo_wallet_conf)
qed

lemma demo_payer_fields:
  assumes "Transaction_Sz t = 88" "10 \<le> length h"
  shows "ready (demo_payer h n t)" "NewMiningPool (demo_payer h n t) = [t]" "PrvHsh (demo_payer h n t) = h" "mnr_Id (demo_payer h n t) = demo_id"
    "DifTrg (demo_payer h n t) = easy_target" "mnr_Conf (demo_payer h n t) = (mnr_Conf demo_mnr)\<lparr>mc_Ver := 100\<rparr>" "ChnLen (demo_payer h n t) = n"
proof -
  show p: "NewMiningPool (demo_payer h n t) = [t]" using assms by (simp add: demo_payer_def demo_mnr_def NewMiningPool_def mnr_DefaultConfig_def)
  show "ready (demo_payer h n t)" using demo_ready assms(2) p by (simp add: ready_def) (simp add: demo_payer_def PriMet_def)
qed (use demo_target in \<open>simp_all add: demo_payer_def demo_mnr_def DifTrg_def\<close>)

lemma demo_payer_mines:
  assumes "Transaction_Sz t = 88" "10 \<le> length h"
  shows "\<exists>m' ev b. Mine_attempt length_digest (\<lambda>_. False) (demo_payer h n t) = Some (Inr (m', ev)) \<and> SendBlkEv b \<in> set ev"
proof -
  let ?m = "demo_payer h n t"
  let ?c = "candidate length_digest ?m"
  note f = demo_payer_fields [OF assms, of n]
  have "SatisfiesPOW length_digest (?c\<lparr>Hdr := (Hdr ?c)\<lparr>Nonce := 0\<rparr>\<rparr>) easy_target" by (simp add: easy_target_POW)
  then have "fst (CalcNonce length_digest (\<lambda>_. False) ?m ?c)"
    unfolding CalcNonce_def using CalcNonce_loop_finds [of 0 0] demo_target(2) by (simp add: f)
  then obtain b where "CalcNonce length_digest (\<lambda>_. False) ?m ?c = (True, b)" by (metis (full_types) prod.collapse)
  then show ?thesis using Mine_attempt_ready [OF length_length_digest f(1), where stop = "\<lambda>_. False"] by simp
qed

lemma show_100: "show_u32 100 = ''100''"
  by (simp add: show_u32_def show_nat.simps [of 100] eval_simps)

lemma demo_payment_hash:
  "Transaction_Sz (demo_payment sc) = 88" "Transaction_Hash length_digest (demo_payment sc) = num_hash 198"
  "Transaction_Hash length_digest (cb_tx (demo_payer h n t) ts) = num_hash 71"
  by (simp_all add: Transaction_Sz_eq demo_payment_def wt_DefaultConfig_def Transaction_Hash_def utils_Hash_def length_digest_def Transaction_data_def
      TransactionOutput_Hash_def TransactionInput_Hash_def num_hash_def cb_tx_def demo_payer_def demo_mnr_def mnr_DefaultConfig_def
      show_100 eval_simps)

theorem payment_settles_witness:
  "\<exists>b bc2. Blockchain_Add length_digest (Some b) demo_chain = Inr bc2
     \<and> Blockchain_GetBalance bc2 (gkeys (last_utxo bc2)) ''01'' = 6 \<and> Blockchain_GetBalance bc2 (gkeys (last_utxo bc2)) ''aa'' = 1"
proof -
  obtain w' bc1 sc where pay: "HndlTxReq echo_ecdsa length_digest (gkeys (last_utxo demo_chain)) (\<lambda>j. j) \<lparr>PubK = [1], req_Amt = 6, Fee = 2\<rparr>
      (demo_wallet 0) demo_chain = Inr (w', bc1, [demo_payment sc])" using demo_payment_made by blast
  let ?t = "demo_payment sc"
  have len: "10 \<le> length (num_hash 75)" by (simp add: num_hash_def)
  note f = demo_payer_fields [OF demo_payment_hash(1) len, of 25 sc]
  obtain m' ev b where mine: "Mine_attempt length_digest (\<lambda>_. False) (demo_payer (num_hash 75) 25 ?t) = Some (Inr (m', ev))" "SendBlkEv b \<in> set ev"
    using demo_payer_mines [OF demo_payment_hash(1) len] by blast
  have "PrvBlkHsh (Hdr b) = num_hash 75" using mined_txs(2) [OF length_length_digest f(1) mine] f(3) by simp
  then obtain bc2 where add: "Blockchain_Add length_digest (Some b) demo_chain = Inr bc2" by (simp add: Blockchain_Add_def demo_chain_eq Let_def)
  have k: "set (gkeys (last_utxo demo_chain)) = {MkTXOLoc (num_hash 69) 0, MkTXOLoc (num_hash 70) 0}" by (simp add: demo_chain_eq demo_nodes gkeys_def)
  have bal: "Blockchain_GetBalance demo_chain (gkeys (last_utxo demo_chain)) ''01'' = 0" "Blockchain_GetBalance demo_chain (gkeys (last_utxo demo_chain)) ''aa'' = 9"
    by (simp_all add: Blockchain_GetBalance_def demo_chain_eq demo_nodes gkeys_def)
  have keys: "hex_EncodeToString [1] = ''01''" "key_of demo_id = ''09''"
    by (simp_all add: demo_id_def echo_ecdsa_def CreateSimpleID_def PrivateKeyToBytes_def PublicKeyToBytes_def GetPublicKeyBytes_def
        hex_EncodeToString_def hex_char_def char_of_def bit_0)
  have new: "set (tx_locs length_digest ?t) \<inter> set (gkeys (last_utxo demo_chain)) = {}"
    by (auto simp: k tx_locs_def demo_payment_hash(2))
  have "Blockchain_GetBalance bc2 (gkeys (last_utxo bc2)) pk = Blockchain_GetBalance demo_chain (gkeys (last_utxo demo_chain)) pk
      + (if pk = ''01'' then 6 else 0) - (if pk = ''aa'' then 8 else 0)
      + (if pk = ''09'' then 2 + subsidy (mnr_Conf (demo_payer (num_hash 75) 25 ?t)) (ChnLen (demo_payer (num_hash 75) 25 ?t)) else 0)" for pk
    using payment_settles [OF length_length_digest demo_chain_run range_order_refl pay f(1,2) mine demo_chain_run add range_order_refl _ new, of pk]
    by (simp add: demo_payment_hash(2,3) k demo_wallet_key keys f)
  then show ?thesis using add bal by (intro exI [of _ b] exI [of _ bc2]) simp
qed

section \<open>The supply\<close>

text \<open>What a transaction claims to spend, what it pays out and what it leaves to the miner, as numbers without a bound.\<close>

definition in_coins :: "Transaction \<Rightarrow> nat" where
  "in_coins t = (\<Sum>i\<leftarrow>tx_Inputs t. unat (txi_Amount i))"

definition out_coins :: "Transaction \<Rightarrow> nat" where
  "out_coins t = (\<Sum>v\<leftarrow>tx_Outputs t. coins v)"

text \<open>A transaction is honest on a map when it settles there, its inputs state the amounts of the outputs they spend, and it pays out no more than these.\<close>

definition honest :: "(byte list \<Rightarrow> byte list) \<Rightarrow> utxo_map \<Rightarrow> Transaction \<Rightarrow> bool" where
  "honest H m t \<longleftrightarrow> settles H m t \<and> map txi_Amount (tx_Inputs t) = map txo_Amount (spent_outputs m t)
     \<and> out_coins t \<le> in_coins t \<and> in_coins t < 2 ^ 32"

fun honest_all :: "(byte list \<Rightarrow> byte list) \<Rightarrow> utxo_map \<Rightarrow> Transaction list \<Rightarrow> bool" where
  "honest_all H m [] = True"
| "honest_all H m (t # ts) = (honest H m t \<and> honest_all H (utxo_apply_tx H m t) ts)"

lemma honest_fee: "honest H m t \<Longrightarrow> unat (SumInputs t - SumOutputs t) = in_coins t - out_coins t"
  by (simp add: unat_sub_if' word_le_nat_alt unat_SumInputs unat_SumOutputs honest_def in_coins_def out_coins_def coins_def comp_def)

lemma honest_apply:
  assumes "gm_ok m" "honest H m t"
  shows "weight coins (utxo_apply_tx H m t) + unat (SumInputs t - SumOutputs t) = weight coins m"
proof -
  have "map unat (map txi_Amount (tx_Inputs t)) = map unat (map txo_Amount (spent_outputs m t))" using assms(2) by (simp only: honest_def)
  then have "(\<Sum>v\<leftarrow>spent_outputs m t. coins v) = in_coins t" by (simp add: in_coins_def coins_def comp_def)
  then have "weight coins (utxo_apply_tx H m t) + in_coins t = weight coins m + out_coins t"
    using weight_apply [OF assms(1), of H t coins] assms(2) by (simp add: honest_def out_coins_def)
  then show ?thesis using assms(2) by (simp add: honest_fee [OF assms(2)] honest_def)
qed

lemma honest_all_apply:
  "gm_ok m \<Longrightarrow> honest_all H m ts \<Longrightarrow> weight coins (foldl (utxo_apply_tx H) m ts) + (\<Sum>t\<leftarrow>ts. unat (SumInputs t - SumOutputs t)) = weight coins m"
proof (induction ts arbitrary: m)
  case (Cons t ts)
  then have "weight coins (foldl (utxo_apply_tx H) (utxo_apply_tx H m t) ts) + (\<Sum>t\<leftarrow>ts. unat (SumInputs t - SumOutputs t)) = weight coins (utxo_apply_tx H m t)"
    by (intro Cons.IH) simp_all
  then show ?case using honest_apply [of m H t] Cons.prems by simp
qed simp

lemma no_wrap: "F \<le> (F + s) mod N \<Longrightarrow> s < N \<Longrightarrow> F + s < (N :: nat)"
proof (rule ccontr)
  assume F: "F \<le> (F + s) mod N" "s < N" "\<not> F + s < N"
  have "(F + s) mod N < N" using F(2) by simp
  then have "F < N" using F(1) by linarith
  then have "(F + s) mod N = F + s - N" using F(2,3) by (simp add: mod_if)
  with F show False by linarith
qed

text \<open>The number of blocks on which the subsidy is based is the length of the miner's chain; this is what the block at that length issues.\<close>

definition schedule :: "mnr_Config \<Rightarrow> nat \<Rightarrow> nat" where
  "schedule c k = unat (InitSubsdy c) div 2 ^ min (k div unat (SubsdyHlvRt c)) (unat (MxHlvgs c))"

definition fees :: "Transaction list \<Rightarrow> nat" where
  "fees ts = (\<Sum>t\<leftarrow>ts. unat (SumInputs t - SumOutputs t))"

lemma honest_clear_liminal [simp]: "honest H m (clear_liminal t) = honest H m t"
  by (simp add: honest_def settles_def spent_outputs_def in_coins_def out_coins_def comp_def)

text \<open>What the wallet pays is honest: its claims are the amounts it spends, and it pays out no more, as long as the amounts fit in 32 bits.\<close>

lemma wallet_payment_honest:
  assumes run: "chain_run H conf bs bc" and ord: "range_order (last_utxo bc) ks"
    and req: "HndlTxReq ec H ks draw txR w bc = Inr (w', bc', [t])"
    and small: "in_coins t < 2 ^ 32" "unat (req_Amt txR) + unat (Fee txR) < 2 ^ 32" and new: "set (tx_locs H t) \<inter> set (gkeys (last_utxo bc)) = {}"
  shows "honest H (last_utxo bc) t"
proof -
  let ?m = "last_utxo bc" and ?tot = "req_Amt txR + Fee txR"
  obtain P where P: "map in_key (tx_Inputs t) = P" "distinct P" "\<forall>k \<in> set P. avail ?m (key_of (wt_Id w)) k"
      and claims: "map txi_Amount (tx_Inputs t) = map (worth ?m) P"
      and outs: "tx_Outputs t = plain_output (req_Amt txR) (hex_EncodeToString (PubK txR)) #
        (if SumInputs t = ?tot then [] else [plain_output (SumInputs t - ?tot) (key_of (wt_Id w))])"
      and enough: "?tot \<le> SumInputs t"
    by (rule HndlTxReq_tx [OF run ord req])
  have here: "\<exists>v. gget ?m k = Some v \<and> worth ?m k = txo_Amount v" if "k \<in> set P" for k
    using P(3) that by (auto simp: avail_def worth_def split: option.splits)
  then have "settles H ?m t" using P(1,2) new by (fastforce simp: settles_def outs)
  moreover have "map txi_Amount (tx_Inputs t) = map txo_Amount (spent_outputs ?m t)"
    unfolding claims spent_outputs_def P(1) [symmetric] using here P(1) by fastforce
  moreover have "out_coins t \<le> in_coins t"
  proof -
    have "unat (SumInputs t) = in_coins t" using small(1) by (simp add: unat_SumInputs in_coins_def comp_def)
    moreover have "unat ?tot = unat (req_Amt txR) + unat (Fee txR)" using small(2) by (simp add: unat_word_ariths(1))
    moreover have "out_coins t \<le> unat (req_Amt txR) + (unat (SumInputs t) - unat ?tot)"
      using enough by (simp add: out_coins_def outs coins_def unat_sub word_le_nat_alt)
    ultimately show ?thesis using enough by (simp add: word_le_nat_alt)
  qed
  ultimately show ?thesis using small(1) by (simp add: honest_def)
qed

text \<open>
  The conditions under which a block \<open>b\<close> keeps the books on a map \<open>m\<close>. None of them is checked by the code when it adds a block: the coinbase's locator is not in use, the
  payments, one after the other, are honest, and the amount of the coinbase is not less than the fees, so it has not wrapped around.
\<close>

definition honest_block :: "(byte list \<Rightarrow> byte list) \<Rightarrow> utxo_map \<Rightarrow> Block \<Rightarrow> bool" where
  "honest_block H m b \<longleftrightarrow> MkTXOLoc (Transaction_Hash H (hd (Transactions b))) 0 \<notin> set (gkeys m)
     \<and> honest_all H (utxo_apply_tx H m (hd (Transactions b))) (tl (Transactions b))
     \<and> fees (tl (Transactions b)) \<le> out_coins (hd (Transactions b))"

lemma mined_supply:
  assumes H: "\<And>v. length (H v) = 32" and inv: "chain_inv H bc"
    and mine: "ready m" "Mine_attempt H stop m = Some (Inr (m', ev))" "SendBlkEv b \<in> set ev" and add: "Blockchain_Add H (Some b) bc = Inr bc'"
    and honest: "honest_block H (last_utxo bc) b"
  shows "weight coins (last_utxo bc') = weight coins (last_utxo bc) + unat (subsidy (mnr_Conf m) (ChnLen m))"
proof -
  let ?ts = "NewMiningPool m" and ?s = "subsidy (mnr_Conf m) (ChnLen m)" and ?m = "last_utxo bc"
  have txs: "Transactions b = cb_tx m ?ts # map clear_liminal ?ts" by (rule mined_txs(1) [OF H mine])
  have fee: "SumInputs (clear_liminal t) - SumOutputs (clear_liminal t) = SumInputs t - SumOutputs t" for t
    by (simp add: SumInputs_sum SumOutputs_sum comp_def unmark_def)
  have f: "fees (tl (Transactions b)) = sum_list (map unat (map (\<lambda>t. SumInputs t - SumOutputs t) ?ts))" by (simp add: txs fees_def fee comp_def)
  let ?v = "plain_output (sum_list (map (\<lambda>t. SumInputs t - SumOutputs t) ?ts) + ?s) (key_of (mnr_Id m))"
  have cb: "tx_Inputs (cb_tx m ?ts) = []" "tx_Outputs (cb_tx m ?ts) = [?v]" by (simp_all add: cb_tx_def)
  have v: "coins ?v = fees (tl (Transactions b)) + unat ?s"
  proof -
    let ?F = "fees (tl (Transactions b))"
    have "coins ?v = (?F + unat ?s) mod 2 ^ 32"
      unfolding f by (simp add: coins_def unat_word_ariths(1) unat_sum_list_u32 mod_add_left_eq del: sum_list_map_eq_sum_count)
    moreover have "?F \<le> coins ?v" using honest by (simp add: honest_block_def txs out_coins_def cb)
    ultimately show ?thesis using no_wrap [of ?F "unat ?s" "2 ^ 32"] unat_u32_less [of ?s] by simp
  qed
  have gm: "gm_ok ?m" by (rule chain_inv_last(4) [OF inv])
  have free: "MkTXOLoc (Transaction_Hash H (cb_tx m ?ts)) 0 \<notin> set (gkeys ?m)" using honest by (simp add: honest_block_def txs)
  have "weight coins (utxo_apply_tx H ?m (cb_tx m ?ts)) = weight coins ?m + (fees (tl (Transactions b)) + unat ?s)"
    using coinbase_settles(2) [OF cb gm free, of coins] unfolding v .
  moreover have after: "last_utxo bc' = foldl (utxo_apply_tx H) (utxo_apply_tx H ?m (cb_tx m ?ts)) (tl (Transactions b))"
    using Add_last_utxo [OF inv add] by (simp add: txs)
  moreover have "weight coins (foldl (utxo_apply_tx H) (utxo_apply_tx H ?m (cb_tx m ?ts)) (tl (Transactions b))) + fees (tl (Transactions b))
      = weight coins (utxo_apply_tx H ?m (cb_tx m ?ts))"
    using honest_all_apply [OF gm_ok_utxo_apply_tx [OF gm]] honest by (simp only: honest_block_def txs list.sel fees_def)
  ultimately show ?thesis unfolding after by linarith
qed

text \<open>
  A chain all of whose blocks were mined, each by a miner of the same configuration that had counted every block before; \<open>us\<close> are the maps of unspent outputs the blocks
  were added to. Wallets may reserve outputs in between.
\<close>

inductive mined_chain ::
    "(byte list \<Rightarrow> byte list) \<Rightarrow> bc_Config \<Rightarrow> mnr_Config \<Rightarrow> ('pk, 'sk) Miner list \<Rightarrow> utxo_map list \<Rightarrow> Block list \<Rightarrow> Blockchain \<Rightarrow> bool"
  for H conf c where
  mined_new: "Blockchain_New H conf = Inr bc \<Longrightarrow> mined_chain H conf c [] [] [] bc"
| mined_add: "mined_chain H conf c ms us bs bc \<Longrightarrow> ready m \<Longrightarrow> mnr_Conf m = c \<Longrightarrow> unat (ChnLen m) = length bs + 1
    \<Longrightarrow> Mine_attempt H stop m = Some (Inr (m', ev)) \<Longrightarrow> SendBlkEv b \<in> set ev \<Longrightarrow> Blockchain_Add H (Some b) bc = Inr bc'
    \<Longrightarrow> mined_chain H conf c (ms @ [m]) (us @ [last_utxo bc]) (bs @ [b]) bc'"
| mined_reserve: "mined_chain H conf c ms us bs bc \<Longrightarrow> range_order (last_utxo bc) ks
    \<Longrightarrow> GetUTXOForAmt ks amt pk bc = Inr (bc', infos, change, ok) \<Longrightarrow> mined_chain H conf c ms us bs bc'"

lemma mined_chain_run: "mined_chain H conf c ms us bs bc \<Longrightarrow> chain_run H conf bs bc"
  by (induction rule: mined_chain.induct) (auto intro: chain_run.intros)

lemma mined_chain_length: "mined_chain H conf c ms us bs bc \<Longrightarrow> length us = length bs"
  by (induction rule: mined_chain.induct) simp_all

text \<open>The schedule sums to a finite amount when the last halving leaves nothing.\<close>

lemma halves_bounded: "(\<Sum>i<j. (n::nat) div 2 ^ i) + 2 * (n div 2 ^ j) \<le> 2 * n"
proof (induction j)
  case (Suc j)
  have "2 * (n div 2 ^ Suc j) \<le> n div 2 ^ j" by (metis div_mult2_eq power_Suc2 times_div_less_eq_dividend)
  with Suc show ?case by simp
qed simp

lemma sum_blocks: "0 < r \<Longrightarrow> (\<Sum>k<q * r. g (k div r)) = r * (\<Sum>i<q. g i :: nat)" for r :: nat
proof -
  assume r: "0 < r"
  have "(\<Sum>k \<in> {i * r..<i * r + r}. g (k div r)) = r * g i" for i
  proof -
    have "k div r = i" if "k \<in> {i * r..<i * r + r}" for k using that r by (intro div_nat_eqI) (auto simp: algebra_simps)
    then show ?thesis by simp
  qed
  then show ?thesis using sum.nat_group [of "\<lambda>k. g (k div r)" r q] by (simp add: sum_distrib_left)
qed

lemma schedule_bounded:
  assumes r: "SubsdyHlvRt c \<noteq> 0" and last: "unat (InitSubsdy c) < 2 ^ unat (MxHlvgs c)"
  shows "(\<Sum>k<n. schedule c k) \<le> 2 * unat (InitSubsdy c) * unat (SubsdyHlvRt c)"
proof -
  let ?I = "unat (InitSubsdy c)" and ?r = "unat (SubsdyHlvRt c)" and ?M = "unat (MxHlvgs c)"
  have pos: "0 < ?r" using r by (simp add: unat_gt_0)
  have "?I div 2 ^ min j ?M = ?I div 2 ^ j" for j
  proof (cases "j \<le> ?M")
    case False
    then have "(2::nat) ^ ?M \<le> 2 ^ j" by simp
    then have "?I < 2 ^ j" using last by linarith
    then show ?thesis using last False by (simp add: min_def)
  qed (simp add: min_def)
  then have s: "schedule c k = ?I div 2 ^ (k div ?r)" for k by (simp add: schedule_def)
  have "n \<le> Suc (n div ?r) * ?r" using pos by (metis dividend_less_times_div less_imp_le mult.commute mult_Suc_right)
  then have "(\<Sum>k<n. schedule c k) \<le> (\<Sum>k<Suc (n div ?r) * ?r. schedule c k)" by (intro sum_mono2) auto
  also have "\<dots> = ?r * (\<Sum>i<Suc (n div ?r). ?I div 2 ^ i)" unfolding s by (rule sum_blocks [OF pos])
  also have "\<dots> \<le> ?r * (2 * ?I)" by (rule mult_le_mono2) (use halves_bounded [of ?I "Suc (n div ?r)"] in linarith)
  finally show ?thesis by (simp add: ac_simps)
qed

text \<open>
  C11: The money supply. Take a chain of blocks mined by miners that are ready, have one configuration and have each counted every block before, and let every
  block keep the books: its coinbase's locator is not in use when it is added (\<open>equal_rewards_collide\<close> shows
  that it may be), its payments spend different outputs that are there, state their amounts truly, spend less than \<open>2 ^ 32\<close> and pay out no more than that, and have new locators
  themselves, with at most \<open>2 ^ 32\<close> outputs each, and the amount of its
  coinbase has not wrapped around. The code checks none of this when it adds a block; payments the wallet makes are
  like that while their amounts fit in 32 bits and their locators are new (\<open>wallet_payment_honest\<close>). Then the amounts of all
  unspent outputs add up to the genesis amount and what the schedule of the subsidy issues at lengths 1 up to the number of blocks: payments and fees neither create nor
  destroy money. When the last halving leaves nothing, as in the default configuration, the supply stays below a limit however long the chain grows: the genesis amount
  and twice the initial subsidy for every block before the first halving.
\<close>

theorem money_supply:
  assumes "\<And>v. length (H v) = 32" "mined_chain H conf c ms us bs bc" "list_all2 (honest_block H) us bs"
  shows "weight coins (last_utxo bc) = unat (InitSbsdy conf) + (\<Sum>k\<leftarrow>[1..<length bs + 1]. schedule c k)
    \<and> (SubsdyHlvRt c \<noteq> 0 \<and> unat (InitSubsdy c) < 2 ^ unat (MxHlvgs c)
      \<longrightarrow> weight coins (last_utxo bc) \<le> unat (InitSbsdy conf) + 2 * unat (InitSubsdy c) * unat (SubsdyHlvRt c))"
proof (intro conjI impI)
  show sup: "weight coins (last_utxo bc) = unat (InitSbsdy conf) + (\<Sum>k\<leftarrow>[1..<length bs + 1]. schedule c k)"
    using assms(2,3)
  proof (induction rule: mined_chain.induct)
    case (mined_new bc)
    then show ?case by (auto simp: Blockchain_New_eq gen_block_def coins_def)
  next
    case (mined_add ms us bs bc m stop m' ev b bc')
    have honest: "list_all2 (honest_block H) us bs" "honest_block H (last_utxo bc) b"
      using mined_add.prems mined_chain_length [OF mined_add.hyps(1)] by (simp_all add: list_all2_append)
    have "unat (subsidy c (ChnLen m)) = schedule c (length bs + 1)" using mined_add.hyps(4) by (simp add: unat_subsidy schedule_def)
    then show ?case
      using mined_supply [OF assms(1) run_inv [OF mined_chain_run [OF mined_add.hyps(1)]] mined_add.hyps(2,5-7) honest(2)] mined_add.hyps(3)
        mined_add.IH [OF honest(1)] by simp
  next
    case (mined_reserve ms us bs bc ks amt pk bc' infos change ok)
    note inv = run_inv [OF mined_chain_run [OF mined_reserve.hyps(1)]]
    note keep = GetUTXOForAmt_inv [OF inv mined_reserve.hyps(2,3)]
    from keep have "gm_ok (last_utxo bc')" using chain_inv_last(4) [of H bc'] by blast
    then have "weight coins (last_utxo bc') = weight coins (last_utxo bc)"
      by (rule weight_abs [OF _ chain_inv_last(4) [OF inv]]) (use keep in auto)
    then show ?case using mined_reserve.IH mined_reserve.prems by simp
  qed
  assume "SubsdyHlvRt c \<noteq> 0 \<and> unat (InitSubsdy c) < 2 ^ unat (MxHlvgs c)"
  then have "(\<Sum>k<length bs + 1. schedule c k) \<le> 2 * unat (InitSubsdy c) * unat (SubsdyHlvRt c)" by (intro schedule_bounded) simp_all
  moreover have "(\<Sum>k\<leftarrow>[1..<length bs + 1]. schedule c k) = (\<Sum>k \<in> {1..<length bs + 1}. schedule c k)"
    by (simp only: interv_sum_list_conv_sum_set_nat set_upt)
  moreover have "\<dots> \<le> (\<Sum>k<length bs + 1. schedule c k)" by (rule sum_mono2) auto
  ultimately show "weight coins (last_utxo bc) \<le> unat (InitSbsdy conf) + 2 * unat (InitSubsdy c) * unat (SubsdyHlvRt c)" unfolding sup by linarith
qed

text \<open>The example payment, mined on top of the genesis block.\<close>

lemma demo_payment_fields:
  "tx_Inputs (demo_payment sc) = [\<lparr>txi_TransactionHash = num_hash 69, txi_OutputIndex = 0, txi_UnlockingScript = sc, txi_Amount = 9\<rparr>]"
  "tx_Outputs (demo_payment sc) = [plain_output 6 ''01'', plain_output 1 ''aa'']"
  by (simp_all add: demo_payment_def)

lemma demo_payment_honest:
  "gget m (MkTXOLoc (num_hash 69) 0) = Some (plain_output 9 ''aa'') \<Longrightarrow> set (tx_locs length_digest (demo_payment sc)) \<inter> set (gkeys m) = {}
   \<Longrightarrow> honest length_digest m (demo_payment sc)"
  by (simp add: honest_def settles_def in_coins_def out_coins_def coins_def spent_outputs_def unmark_def demo_payment_fields in_key_def)

theorem money_supply_witness:
  "\<exists>b bc. mined_chain length_digest demo_conf ((mnr_Conf demo_mnr)\<lparr>mc_Ver := 100\<rparr>) [demo_payer (num_hash 10) 1 (demo_payment [])] [last_utxo demo_start] [b] bc
     \<and> weight coins (last_utxo bc) = 19 \<and> weight coins (last_utxo bc) \<le> 209"
proof -
  let ?t = "demo_payment []" and ?c = "(mnr_Conf demo_mnr)\<lparr>mc_Ver := 100\<rparr>"
  let ?m = "demo_payer (num_hash 10) 1 ?t"
  have len: "10 \<le> length (num_hash 10)" by (simp add: num_hash_def)
  note f = demo_payer_fields [OF demo_payment_hash(1) len, of 1 "[]"]
  obtain m' ev b where mine: "Mine_attempt length_digest (\<lambda>_. False) ?m = Some (Inr (m', ev))" "SendBlkEv b \<in> set ev"
    using demo_payer_mines [OF demo_payment_hash(1) len] by blast
  note txs = mined_txs [OF length_length_digest f(1) mine, unfolded f(2,3)]
  obtain bc where add: "Blockchain_Add length_digest (Some b) demo_start = Inr bc" using txs(2) by (simp add: Blockchain_Add_def demo_start_eq Let_def)
  have k: "last_utxo demo_start = [(MkTXOLoc (num_hash 69) 0, plain_output 9 ''aa'')]" by (simp add: demo_start_eq demo_nodes)
  have new: "MkTXOLoc (Transaction_Hash length_digest (hd (Transactions b))) 0 \<notin> set (gkeys (last_utxo demo_start))"
    unfolding k by (simp add: txs(1) demo_payment_hash gkeys_def)
  have gm: "gm_ok (last_utxo demo_start)" by (rule chain_inv_last(4) [OF run_inv [OF demo_start_run]])
  have "tx_Inputs (cb_tx ?m [?t]) = []" "tx_Outputs (cb_tx ?m [?t]) = [hd (tx_Outputs (cb_tx ?m [?t]))]" by (simp_all add: cb_tx_def)
  from coinbase_settles(3) [where H = length_digest, OF this gm] new have g: "gget (utxo_apply_tx length_digest (last_utxo demo_start) (cb_tx ?m [?t])) =
      (gget (last_utxo demo_start))(MkTXOLoc (num_hash 71) 0 \<mapsto> hd (tx_Outputs (cb_tx ?m [?t])))" by (simp add: txs(1) demo_payment_hash fun_upd_def)
  have pool: "honest_all length_digest (utxo_apply_tx length_digest (last_utxo demo_start) (hd (Transactions b))) (tl (Transactions b))"
    unfolding txs(1) by (simp add: f, intro demo_payment_honest) (auto simp: g [unfolded k] k in_gkeys_iff tx_locs_def demo_payment_hash(2) split: if_splits)
  have s: "unat (subsidy ?c 1) = 10" by (simp add: unat_subsidy) (simp add: demo_mnr_def mnr_DefaultConfig_def)
  then have s: "subsidy ?c 1 = 10" by (simp add: word_unat_eq_iff)
  have "SumInputs ?t - SumOutputs ?t = 2" by (simp add: SumInputs_sum SumOutputs_sum demo_payment_fields)
  moreover have "fees (tl (Transactions b)) = 2" by (simp add: txs(1) fees_def SumInputs_sum SumOutputs_sum unmark_def comp_def) (simp add: demo_payment_def)
  ultimately have "fees (tl (Transactions b)) \<le> out_coins (hd (Transactions b))" by (simp add: txs(1) out_coins_def cb_tx_def coins_def f s)
  then have honest: "list_all2 (honest_block length_digest) [last_utxo demo_start] [b]" using new pool by (simp add: honest_block_def)
  have "mined_chain length_digest demo_conf ?c ([] @ [?m]) ([] @ [last_utxo demo_start]) ([] @ [b]) bc"
    by (intro mined_add [OF mined_new f(1,6) _ mine add]) (simp_all add: f demo_start_def Blockchain_New_eq)
  then have run: "mined_chain length_digest demo_conf ?c [?m] [last_utxo demo_start] [b] bc" by simp
  have "schedule ?c 1 = 10" by (simp add: schedule_def demo_mnr_def mnr_DefaultConfig_def)
  moreover have "SubsdyHlvRt ?c \<noteq> 0 \<and> unat (InitSubsdy ?c) < 2 ^ unat (MxHlvgs ?c)" "2 * unat (InitSubsdy ?c) * unat (SubsdyHlvRt ?c) = 200"
    by (simp_all add: demo_mnr_def mnr_DefaultConfig_def)
  ultimately have "weight coins (last_utxo bc) = 19 \<and> weight coins (last_utxo bc) \<le> 209"
    using money_supply [OF length_length_digest run honest] by (simp add: demo_conf_def)
  with run show ?thesis by blast
qed

section \<open>Equal rewards\<close>

lemma not_created: "k \<notin> set (tx_locs H t) \<Longrightarrow> tx_created H t k = None"
  by (auto simp: tx_created_def map_of_eq_None_iff dest: set_zip_leftD)

text \<open>
  C36: A miner loses a reward it earns twice. \<open>GenCBTx\<close> makes a coinbase from the configuration, the key and the amount only. When two blocks in a row are mined with the same
  configuration, key and amount of fees and subsidy, their coinbases have the same hash, the second overwrites the unspent output of the first, and the second block leaves the
  unspent outputs, so every balance, as if it had no coinbase. Nothing in between spends the output or has its hash.
\<close>

theorem equal_rewards_collide:
  assumes H: "\<And>v. length (H v) = 32" and run: "chain_run H conf bs bc"
    and mine1: "ready m1" "Mine_attempt H stop1 m1 = Some (Inr (m1', ev1))" "SendBlkEv b1 \<in> set ev1" and add1: "Blockchain_Add H (Some b1) bc = Inr bc1"
    and mine2: "ready m2" "Mine_attempt H stop2 m2 = Some (Inr (m2', ev2))" "SendBlkEv b2 \<in> set ev2" and add2: "Blockchain_Add H (Some b2) bc1 = Inr bc2"
    and same: "mnr_Conf m2 = mnr_Conf m1" "mnr_Id m2 = mnr_Id m1"
      "(\<Sum>t\<leftarrow>NewMiningPool m2. SumInputs t - SumOutputs t) + subsidy (mnr_Conf m2) (ChnLen m2)
        = (\<Sum>t\<leftarrow>NewMiningPool m1. SumInputs t - SumOutputs t) + subsidy (mnr_Conf m1) (ChnLen m1)"
    and kept: "\<forall>t \<in> set (tl (Transactions b1)). Transaction_Hash H t \<noteq> Transaction_Hash H (hd (Transactions b1))
      \<and> (\<forall>i \<in> set (tx_Inputs t). in_key i \<noteq> MkTXOLoc (Transaction_Hash H (hd (Transactions b1))) 0)"
  shows "Transaction_Hash H (hd (Transactions b2)) = Transaction_Hash H (hd (Transactions b1))
    \<and> utxo_abs (last_utxo bc2) = utxo_abs (foldl (utxo_apply_tx H) (last_utxo bc1) (tl (Transactions b2)))"
proof -
  let ?cb = "cb_tx m1 (NewMiningPool m1)"
  let ?L = "MkTXOLoc (Transaction_Hash H ?cb) 0" and ?v = "hd (tx_Outputs ?cb)"
  note txs1 = mined_txs(1) [OF H mine1] and txs2 = mined_txs(1) [OF H mine2]
  have cb: "cb_tx m2 (NewMiningPool m2) = ?cb" using same by (simp add: cb_tx_def)
  have apply_cb: "gget (utxo_apply_tx H m ?cb) = (gget m)(?L \<mapsto> ?v)" for m
    by (rule ext) (simp add: utxo_apply_tx_gget tx_spent_def tx_locs_def cb_tx_def)
  let ?rest = "tl (Transactions b1)"
  have "?L \<notin> tx_spent t \<and> tx_created H t ?L = None" if t: "t \<in> set ?rest" for t
  proof -
    have k: "Transaction_Hash H t \<noteq> Transaction_Hash H ?cb" "\<forall>i \<in> set (tx_Inputs t). in_key i \<noteq> ?L"
      using bspec [OF kept t] by (simp_all add: txs1)
    then have "?L \<notin> set (tx_locs H t)" by (auto simp: tx_locs_def)
    then show ?thesis using k(2) by (auto simp: not_created tx_spent_def in_key_def)
  qed
  from us.untouched [of ?rest ?L H "utxo_apply_tx H (last_utxo bc) ?cb", OF this] have "utxo_abs (last_utxo bc1) ?L = Some (unmark ?v)"
    using Add_last_utxo [OF run_inv [OF run] add1] by (simp add: txs1 utxo_abs_def apply_cb)
  then have "utxo_abs (utxo_apply_tx H (last_utxo bc1) ?cb) = utxo_abs (last_utxo bc1)" by (auto simp: utxo_abs_def apply_cb)
  from us.look_cong [OF this, where ts = "tl (Transactions b2)"]
  show ?thesis using Add_last_utxo [OF run_inv [OF run_add [OF run add1]] add2] by (simp add: txs1 txs2 cb)
qed

definition demo_payment2 :: Transaction where
  "demo_payment2 = \<lparr>tx_Version = 0, tx_Inputs = [\<lparr>txi_TransactionHash = num_hash 70, txi_OutputIndex = 0, txi_UnlockingScript = [], txi_Amount = 7\<rparr>],
     tx_Outputs = [plain_output 4 ''01'', plain_output 1 ''bb''], tx_LockTime = 0\<rparr>"

theorem equal_rewards_collide_witness:
  "\<exists>b1 bc1 b2 bc2. Blockchain_Add length_digest (Some b1) demo_chain = Inr bc1 \<and> Blockchain_Add length_digest (Some b2) bc1 = Inr bc2
     \<and> utxo_abs (last_utxo bc2) = utxo_abs (foldl (utxo_apply_tx length_digest) (last_utxo bc1) (tl (Transactions b2))) \<and> SumOutputs (hd (Transactions b2)) = 4"
proof -
  let ?m1 = "demo_payer (num_hash 75) 25 (demo_payment [])"
  have len: "10 \<le> length (num_hash 75)" by (simp add: num_hash_def)
  note f1 = demo_payer_fields [OF demo_payment_hash(1) len, of 25 "[]"]
  obtain m1' ev1 b1 where mine1: "Mine_attempt length_digest (\<lambda>_. False) ?m1 = Some (Inr (m1', ev1))" "SendBlkEv b1 \<in> set ev1"
    using demo_payer_mines [OF demo_payment_hash(1) len] by blast
  note txs1 = mined_txs [OF length_length_digest f1(1) mine1, unfolded f1(2,3)]
  obtain bc1 where add1: "Blockchain_Add length_digest (Some b1) demo_chain = Inr bc1" and known: "gget (blocks bc1) (Block_Hash length_digest b1) \<noteq> None"
    using txs1(2) by (auto simp: Blockchain_Add_def demo_chain_eq Let_def)
  let ?m2 = "demo_payer (Block_Hash length_digest b1) 26 demo_payment2"
  have ok: "Transaction_Sz demo_payment2 = 88" "10 \<le> length (Block_Hash length_digest b1)"
    by (simp_all add: Transaction_Sz_eq demo_payment2_def Block_Hash_def utils_Hash_def)
  note f2 = demo_payer_fields [OF ok, of 26]
  obtain m2' ev2 b2 where mine2: "Mine_attempt length_digest (\<lambda>_. False) ?m2 = Some (Inr (m2', ev2))" "SendBlkEv b2 \<in> set ev2"
    using demo_payer_mines [OF ok] by blast
  note txs2 = mined_txs [OF length_length_digest f2(1) mine2, unfolded f2(2,3)]
  obtain bc2 where add2: "Blockchain_Add length_digest (Some b2) bc1 = Inr bc2" using known txs2(2) by (auto simp: Blockchain_Add_def Let_def)
  have "unat (subsidy (mnr_Conf ?m1) 25) = 2" "unat (subsidy (mnr_Conf ?m1) 26) = 2"
    by (simp_all add: unat_subsidy f1) (simp_all add: demo_mnr_def mnr_DefaultConfig_def)
  then have sub: "subsidy (mnr_Conf ?m1) 25 = 2" "subsidy (mnr_Conf ?m1) 26 = 2" by (simp_all add: word_unat_eq_iff)
  have fee: "SumInputs (demo_payment []) - SumOutputs (demo_payment []) = 2" "SumInputs demo_payment2 - SumOutputs demo_payment2 = 2"
    by (simp_all add: SumInputs_sum SumOutputs_sum demo_payment_fields demo_payment2_def)
  have "Transaction_Hash length_digest (hd (Transactions b2)) = Transaction_Hash length_digest (hd (Transactions b1))
      \<and> utxo_abs (last_utxo bc2) = utxo_abs (foldl (utxo_apply_tx length_digest) (last_utxo bc1) (tl (Transactions b2)))"
    by (rule equal_rewards_collide [OF length_length_digest demo_chain_run f1(1) mine1 add1 f2(1) mine2 add2])
       (use sub fee in \<open>simp_all add: f1 f2 txs1(1) demo_payment_hash in_key_def demo_payment_fields\<close>)
  moreover have "SumOutputs (hd (Transactions b2)) = 4" using sub fee by (simp add: txs2(1) cb_tx_fields f1 f2)
  ultimately show ?thesis using add1 add2 by blast
qed

end
