(* ===== verification/Mine_Loop.thy ===== *)
theory Mine_Loop
  imports Miner
begin

text \<open>
  The goroutines of the miner, interleaved. \<open>Miner\<close> models each handler of \<^verbatim>\<open>pkg/miner/miner.go\<close> and each search of
  \<^verbatim>\<open>pkg/miner/mine.go\<close> as one atomic step; this theory models them statement by statement, so that handlers, loops and searches of one
  miner run at the same time and meet on the unbuffered channel \<^verbatim>\<open>PoolUpdated\<close>.

  A goroutine is the list of the statements it has left (\<open>stmt\<close>). \<open>exec_stmt\<close> runs the first statement of a goroutine: it panics, or
  gives the new state, the statements that take its place and the goroutines it starts; it is \<open>None\<close> when the statement has to
  wait. \<open>sys_step\<close> picks a goroutine, lets a sender and a receiver on \<^verbatim>\<open>PoolUpdated\<close> meet, or lets the node call another method of the
  miner. \<open>Mine_Runs\<close> shows that the atomic model is the run in which a goroutine is not interrupted.
\<close>

section \<open>Statements\<close>

text \<open>
  \<open>StoreActive\<close> to \<open>CloseSendBlk\<close> are the statements of the methods of \<^verbatim>\<open>miner.go\<close>; the next three are the loop of \<^verbatim>\<open>Mine\<close> with the
  context \<open>c\<close> that it cancels next; the others are the goroutine that the loop starts with the context \<open>c\<close>.
\<close>

datatype stmt =
    StoreActive bool
  | GoMine
  | SendUpdate
  | SendIfActive
  | PoolChkTxs "Transaction list"
  | PoolAdd Transaction
  | SetHashTo string
  | IncLen
  | LogAddr
  | ClosePoolUpdated
  | CloseSendBlk
  | RecvUpdate nat
  | CancelCtx nat
  | TestActive nat
  | TestPriMet nat
  | StartMining
  | ChoosePool
  | MakeCoinbase nat
  | AppendPool nat "Transaction option"
  | MakeBlock nat "Transaction option list"
  | TryNonce nat u32 Block
  | EndMining bool Block
  | LogMined Block
  | SendMined Block

text \<open>The methods of the miner that the node calls or starts, and their statements.\<close>

datatype call =
    CallStartMiner
  | CallHndlChkBlk Block
  | CallHndlBlk "Block option"
  | CallHndlTx "Transaction option"
  | CallPause
  | CallResume
  | CallKill

definition StartMiner_code :: "stmt list" where
  "StartMiner_code = [StoreActive True, GoMine, SendUpdate]"

definition HndlChkBlk_code :: "Block \<Rightarrow> stmt list" where
  "HndlChkBlk_code b = [PoolChkTxs (Transactions b), SendIfActive]"

fun HndlBlk_code :: "(byte list \<Rightarrow> byte list) \<Rightarrow> Block option \<Rightarrow> stmt list" where
  "HndlBlk_code H None = []"
| "HndlBlk_code H (Some b) = HndlChkBlk_code b @ [SetHashTo (Block_Hash H b), IncLen]"

fun HndlTx_code :: "Transaction option \<Rightarrow> stmt list" where
  "HndlTx_code None = []"
| "HndlTx_code (Some t) = [PoolAdd t, SendIfActive]"

definition Pause_code :: "stmt list" where
  "Pause_code = [StoreActive False, SendUpdate, LogAddr]"

definition Resume_code :: "stmt list" where
  "Resume_code = [StoreActive True, SendUpdate, LogAddr]"

definition Kill_code :: "stmt list" where
  "Kill_code = [StoreActive False, ClosePoolUpdated, CloseSendBlk]"

lemmas short_codes [simp] = StartMiner_code_def Pause_code_def Resume_code_def Kill_code_def

fun call_code :: "(byte list \<Rightarrow> byte list) \<Rightarrow> call \<Rightarrow> stmt list" where
  "call_code H CallStartMiner = StartMiner_code"
| "call_code H (CallHndlChkBlk b) = HndlChkBlk_code b"
| "call_code H (CallHndlBlk None) = HndlBlk_code H None"
| "call_code H (CallHndlBlk (Some b)) = HndlBlk_code H (Some b)"
| "call_code H (CallHndlTx None) = HndlTx_code None"
| "call_code H (CallHndlTx (Some t)) = HndlTx_code (Some t)"
| "call_code H CallPause = Pause_code"
| "call_code H CallResume = Resume_code"
| "call_code H CallKill = Kill_code"

text \<open>
  The miner with its goroutines. \<open>sy_cancelled\<close> holds the contexts that are cancelled, \<open>sy_next\<close> is the next fresh context,
  \<open>sy_blk_closed\<close> tells whether \<^verbatim>\<open>SendBlk\<close> is closed (\<open>mnr_closed\<close> is \<^verbatim>\<open>PoolUpdated\<close> here), \<open>sy_out\<close> holds the blocks the node has
  received, in order. Finished goroutines stay in \<open>sy_procs\<close> as empty lists.
\<close>

record ('pk, 'sk) sys =
  sy_mnr :: "('pk, 'sk) Miner"
  sy_procs :: "stmt list list"
  sy_cancelled :: "nat list"
  sy_next :: nat
  sy_blk_closed :: bool
  sy_out :: "Block list"

type_synonym ('pk, 'sk) sys_result = "(('pk, 'sk) sys \<times> stmt list \<times> stmt list list) go option"

definition upd_mnr :: "(('pk, 'sk) Miner \<Rightarrow> ('pk, 'sk) Miner) \<Rightarrow> ('pk, 'sk) sys \<Rightarrow> ('pk, 'sk) sys" where
  "upd_mnr f sy = sy\<lparr>sy_mnr := f (sy_mnr sy)\<rparr>"

fun exec_stmt :: "(byte list \<Rightarrow> byte list) \<Rightarrow> stmt \<Rightarrow> ('pk, 'sk) sys \<Rightarrow> ('pk, 'sk) sys_result" where
  "exec_stmt H (StoreActive v) sy = Some (Inr (upd_mnr (\<lambda>m. m\<lparr>Active := v\<rparr>) sy, [], []))"
| "exec_stmt H GoMine sy = Some (Inr (sy\<lparr>sy_next := Suc (sy_next sy)\<rparr>, [], [[RecvUpdate (sy_next sy)]]))"
| "exec_stmt H SendUpdate sy = (if mnr_closed (sy_mnr sy) then Some (Inl ChanClosed) else None)"
| "exec_stmt H SendIfActive sy = Some (Inr (sy, if Active (sy_mnr sy) then [SendUpdate] else [], []))"
| "exec_stmt H (PoolChkTxs ts) sy = Some (Inr (upd_mnr (\<lambda>m. m\<lparr>TxP := TxPool_ChkTxs H (map Some ts) (TxP m)\<rparr>) sy, [], []))"
| "exec_stmt H (PoolAdd t) sy = Some (Inr (upd_mnr (\<lambda>m. m\<lparr>TxP := TxPool_Add (Some t) (TxP m)\<rparr>) sy, [], []))"
| "exec_stmt H (SetHashTo h) sy = Some (Inr (upd_mnr (SetHash h) sy, [], []))"
| "exec_stmt H IncLen sy = Some (Inr (upd_mnr IncChnLen sy, [], []))"
| "exec_stmt H LogAddr sy = Some (go_bind (FmtAddr (mnr_Addr (sy_mnr sy))) (\<lambda>_. Inr (sy, [], [])))"
| "exec_stmt H ClosePoolUpdated sy =
     Some (if mnr_closed (sy_mnr sy) then Inl ChanClosed else Inr (upd_mnr (\<lambda>m. m\<lparr>mnr_closed := True\<rparr>) sy, [], []))"
| "exec_stmt H CloseSendBlk sy =
     Some (if sy_blk_closed sy then Inl ChanClosed else Inr (sy\<lparr>sy_blk_closed := True\<rparr>, [], []))"
| "exec_stmt H (RecvUpdate c) sy = (if mnr_closed (sy_mnr sy) then Some (Inr (sy, [CancelCtx c], [])) else None)"
| "exec_stmt H (CancelCtx c) sy = Some (Inr (sy\<lparr>sy_cancelled := c # sy_cancelled sy\<rparr>, [TestActive c], []))"
| "exec_stmt H (TestActive c) sy =
     Some (Inr (if \<not> Active (sy_mnr sy) then (sy, [RecvUpdate c], [])
                else (sy\<lparr>sy_next := Suc (sy_next sy)\<rparr>, [RecvUpdate (sy_next sy)], [[TestPriMet (sy_next sy)]])))"
| "exec_stmt H (TestPriMet c) sy =
     Some (Inr (sy, if PriMet (TxP (sy_mnr sy)) then [StartMining, ChoosePool, MakeCoinbase c] else [], []))"
| "exec_stmt H StartMining sy = Some (Inr (upd_mnr (\<lambda>m. m\<lparr>Mining := True\<rparr>) sy, [], []))"
| "exec_stmt H ChoosePool sy = Some (Inr (upd_mnr (\<lambda>m. m\<lparr>MiningPool := NewMiningPool m\<rparr>) sy, [], []))"
| "exec_stmt H (MakeCoinbase c) sy =
     Some (go_bind (GenCBTx (sy_mnr sy) (map Some (MiningPool (sy_mnr sy)))) (\<lambda>cb. Inr (sy, [AppendPool c cb], [])))"
| "exec_stmt H (AppendPool c cb) sy = Some (Inr (sy, [MakeBlock c (cb # map Some (MiningPool (sy_mnr sy)))], []))"
| "exec_stmt H (MakeBlock c txs) sy =
     map_option (\<lambda>r. go_bind r (\<lambda>b. Inr (sy, [TryNonce c 0 b], [])))
       (Block_New H (PrvHsh (sy_mnr sy)) txs (DifTrg (sy_mnr sy)))"
| "exec_stmt H (TryNonce c i b) sy =
     Some (Inr (sy,
       (if i < NncLim (mnr_Conf (sy_mnr sy))
        then if c \<in> set (sy_cancelled sy) then [EndMining False b]
             else let b = b\<lparr>Hdr := (Hdr b)\<lparr>Nonce := i\<rparr>\<rparr>
                  in if SatisfiesPOW H b (DifTrg (sy_mnr sy)) then [EndMining True b] else [TryNonce c (i + 1) b]
        else [EndMining False b]), []))"
| "exec_stmt H (EndMining result b) sy =
     Some (Inr (upd_mnr (\<lambda>m. m\<lparr>Mining := False\<rparr>) sy,
       if result then [LogMined b, SendMined b] @ HndlBlk_code H (Some b) else [], []))"
| "exec_stmt H (LogMined b) sy =
     Some (go_bind (FmtAddr (mnr_Addr (sy_mnr sy))) (\<lambda>_. go_bind (Block_NameTag H b) (\<lambda>_. go_bind (Block_Summarize H b) (\<lambda>_.
       Inr (sy, [], [])))))"
| "exec_stmt H (SendMined b) sy =
     Some (if sy_blk_closed sy then Inl ChanClosed else Inr (sy\<lparr>sy_out := sy_out sy @ [b]\<rparr>, [], []))"

section \<open>Interleaving\<close>

definition set_proc :: "nat \<Rightarrow> stmt list \<Rightarrow> ('pk, 'sk) sys \<Rightarrow> ('pk, 'sk) sys" where
  "set_proc i k sy = sy\<lparr>sy_procs := (sy_procs sy)[i := k]\<rparr>"

definition spawn :: "stmt list list \<Rightarrow> ('pk, 'sk) sys \<Rightarrow> ('pk, 'sk) sys" where
  "spawn ps sy = sy\<lparr>sy_procs := sy_procs sy @ ps\<rparr>"

inductive sys_step :: "(byte list \<Rightarrow> byte list) \<Rightarrow> ('pk, 'sk) sys \<Rightarrow> ('pk, 'sk) sys go \<Rightarrow> bool" for H where
  run: "i < length (sy_procs sy) \<Longrightarrow> sy_procs sy ! i = s # k \<Longrightarrow> exec_stmt H s sy = Some (Inr (sy', k', new))
    \<Longrightarrow> sys_step H sy (Inr (spawn new (set_proc i (k' @ k) sy')))"
| panic: "i < length (sy_procs sy) \<Longrightarrow> sy_procs sy ! i = s # k \<Longrightarrow> exec_stmt H s sy = Some (Inl e) \<Longrightarrow> sys_step H sy (Inl e)"
| meet: "i < length (sy_procs sy) \<Longrightarrow> j < length (sy_procs sy) \<Longrightarrow> sy_procs sy ! i = SendUpdate # k \<Longrightarrow> sy_procs sy ! j = RecvUpdate c # k'
    \<Longrightarrow> \<not> mnr_closed (sy_mnr sy) \<Longrightarrow> sys_step H sy (Inr (set_proc j (CancelCtx c # k') (set_proc i k sy)))"
| call: "sys_step H sy (Inr (spawn [call_code H cl] sy))"

abbreviation sys_steps :: "(byte list \<Rightarrow> byte list) \<Rightarrow> ('pk, 'sk) sys \<Rightarrow> ('pk, 'sk) sys \<Rightarrow> bool" where
  "sys_steps H \<equiv> (\<lambda>sy sy'. sys_step H sy (Inr sy'))\<^sup>*\<^sup>*"

definition sys_init :: "('pk, 'sk) Miner \<Rightarrow> ('pk, 'sk) sys" where
  "sys_init m = \<lparr>sy_mnr = m, sy_procs = [], sy_cancelled = [], sy_next = 0, sy_blk_closed = False, sy_out = []\<rparr>"

text \<open>The states of a miner \<open>m\<close> whose goroutines start from none.\<close>

definition sys_reach :: "(byte list \<Rightarrow> byte list) \<Rightarrow> ('pk, 'sk) Miner \<Rightarrow> ('pk, 'sk) sys \<Rightarrow> bool" where
  "sys_reach H m sy \<longleftrightarrow> sys_steps H (sys_init m) sy"

text \<open>
  A schedule as data, so that runs can be computed: \<open>Run i\<close> lets goroutine \<open>i\<close> run one statement, \<open>Meet i j\<close> lets \<open>i\<close> send to \<open>j\<close>, \<open>Call cl\<close>
  calls a method.
\<close>

datatype choice = Run nat | Meet nat nat | Call call

fun sched_step :: "(byte list \<Rightarrow> byte list) \<Rightarrow> choice \<Rightarrow> ('pk, 'sk) sys \<Rightarrow> ('pk, 'sk) sys option" where
  "sched_step H (Run i) sy =
     (if i < length (sy_procs sy)
      then case sy_procs sy ! i of
          [] \<Rightarrow> None
        | s # k \<Rightarrow> (case exec_stmt H s sy of Some (Inr (sy', k', new)) \<Rightarrow> Some (spawn new (set_proc i (k' @ k) sy')) | _ \<Rightarrow> None)
      else None)"
| "sched_step H (Meet i j) sy =
     (if i < length (sy_procs sy) \<and> j < length (sy_procs sy) \<and> \<not> mnr_closed (sy_mnr sy)
      then case (sy_procs sy ! i, sy_procs sy ! j) of
          (SendUpdate # k, RecvUpdate c # k') \<Rightarrow> Some (set_proc j (CancelCtx c # k') (set_proc i k sy))
        | _ \<Rightarrow> None
      else None)"
| "sched_step H (Call cl) sy = Some (spawn [call_code H cl] sy)"

fun sched_run :: "(byte list \<Rightarrow> byte list) \<Rightarrow> choice list \<Rightarrow> ('pk, 'sk) sys \<Rightarrow> ('pk, 'sk) sys option" where
  "sched_run H [] sy = Some sy"
| "sched_run H (ch # chs) sy = Option.bind (sched_step H ch sy) (sched_run H chs)"

lemma sched_step_sound: "sched_step H ch sy = Some sy' \<Longrightarrow> sys_step H sy (Inr sy')"
  by (cases ch) (auto intro: sys_step.intros split: if_splits list.splits option.splits sum.splits stmt.splits)

lemma sched_run_sound: "sched_run H chs sy = Some sy' \<Longrightarrow> sys_steps H sy sy'"
proof (induction chs arbitrary: sy)
  case (Cons ch chs)
  then obtain sy1 where "sched_step H ch sy = Some sy1" "sched_run H chs sy1 = Some sy'" by (auto simp: bind_eq_Some_conv)
  with Cons.IH show ?case by (meson converse_rtranclp_into_rtranclp sched_step_sound)
qed simp


lemma exec_procs: "exec_stmt H s sy = Some (Inr (sy', k', new)) \<Longrightarrow> sy_procs sy' = sy_procs sy"
  by (cases s) (auto simp: upd_mnr_def go_simps split: if_splits)

lemma sys_steps_inv:
  assumes "\<And>sy sy'. P sy \<Longrightarrow> sys_step H sy (Inr sy') \<Longrightarrow> P sy'" "sys_steps H sy sy'" "P sy"
  shows "P sy'"
  using assms(2,3) by (induction rule: rtranclp_induct) (auto intro: assms(1))

text \<open>A miner that has been started and has taken up its first search, for witnesses.\<close>

definition demo_sys :: "(byte, byte) sys" where
  "demo_sys = \<lparr>sy_mnr = demo_mnr, sy_procs = [[], [RecvUpdate 1], [TestPriMet 1]], sy_cancelled = [0], sy_next = 2,
     sy_blk_closed = False, sy_out = []\<rparr>"

definition demo_empty_block :: Block where
  "demo_empty_block = \<lparr>Hdr = \<lparr>Ver = 0, PrvBlkHsh = num_hash 75, MrklRt = [], Timestamp = 0, DiffTarg = easy_target, Nonce = 0\<rparr>, Transactions = []\<rparr>"

lemma demo_sys_fields [simp]:
  "sy_mnr demo_sys = demo_mnr" "sy_procs demo_sys = [[], [RecvUpdate 1], [TestPriMet 1]]" "sy_cancelled demo_sys = [0]" "sy_next demo_sys = 2"
  "sy_blk_closed demo_sys = False" "sy_out demo_sys = []"
  by (simp_all add: demo_sys_def)

lemma demo_mnr_open [simp]: "\<not> mnr_closed demo_mnr" "Active demo_mnr" "mnr_Addr demo_mnr = []"
  by (simp_all add: demo_mnr_def)

lemma demo_sys_run: "sched_run H [Call CallStartMiner, Run 0, Run 0, Meet 0 1, Run 1, Run 1] (sys_init demo_mnr) = Some demo_sys"
proof -
  have "demo_mnr\<lparr>Active := True\<rparr> = demo_mnr" by (simp add: demo_mnr_def)
  then show ?thesis by (simp add: sys_init_def spawn_def set_proc_def upd_mnr_def demo_sys_def)
qed

lemma demo_sys_reach: "sys_reach H demo_mnr demo_sys"
  unfolding sys_reach_def by (rule sched_run_sound [OF demo_sys_run])

section \<open>Statements that keep a property\<close>

text \<open>
  A property of the goroutines one at a time: \<open>ok\<close> holds of every statement that is left to run, \<open>glob\<close> of what the goroutines share. When every
  statement keeps it, every interleaving does.
\<close>

definition all_ok :: "(('pk, 'sk) sys \<Rightarrow> bool) \<Rightarrow> (stmt \<Rightarrow> bool) \<Rightarrow> ('pk, 'sk) sys \<Rightarrow> bool" where
  "all_ok glob ok sy \<longleftrightarrow> glob sy \<and> (\<forall>p \<in> set (sy_procs sy). list_all ok p)"

lemma all_ok_nth: "all_ok glob ok sy \<Longrightarrow> i < length (sy_procs sy) \<Longrightarrow> sy_procs sy ! i = p \<Longrightarrow> list_all ok p"
  by (auto simp: all_ok_def)

locale stmt_safety =
  fixes H :: "byte list \<Rightarrow> byte list" and glob :: "('pk, 'sk) sys \<Rightarrow> bool" and ok :: "stmt \<Rightarrow> bool"
  assumes exec_glob: "glob sy \<Longrightarrow> ok s \<Longrightarrow> exec_stmt H s sy = Some (Inr (sy', k', new)) \<Longrightarrow> glob sy'"
    and exec_ok: "glob sy \<Longrightarrow> ok s \<Longrightarrow> exec_stmt H s sy = Some (Inr (sy', k', new)) \<Longrightarrow> list_all ok (k' @ concat new)"
    and recv_ok: "ok (RecvUpdate c) \<Longrightarrow> ok (CancelCtx c)"
    and call_ok: "list_all ok (call_code H cl)"
    and glob_procs: "glob (sy\<lparr>sy_procs := ps\<rparr>) = glob sy"
begin

lemma all_ok_set_proc: "all_ok glob ok sy \<Longrightarrow> list_all ok k \<Longrightarrow> all_ok glob ok (set_proc i k sy)"
  by (auto simp: all_ok_def set_proc_def glob_procs dest!: set_update_subset_insert [THEN subsetD])

lemma all_ok_spawn: "all_ok glob ok sy \<Longrightarrow> list_all ok (concat ps) \<Longrightarrow> all_ok glob ok (spawn ps sy)"
  by (auto simp: all_ok_def spawn_def glob_procs list_all_iff)

lemma all_ok_step: "sys_step H sy (Inr sy') \<Longrightarrow> all_ok glob ok sy \<Longrightarrow> all_ok glob ok sy'"
proof (induction sy "Inr sy' :: ('pk, 'sk) sys go" rule: sys_step.induct)
  case (run i sy s k sy1 k' new)
  then have "list_all ok (s # k)" "glob sy" using all_ok_nth [OF run(5,1,2)] by (simp_all add: all_ok_def)
  with run exec_glob [of sy s] exec_ok [of sy s] have "all_ok glob ok sy1" "list_all ok (k' @ k)" "list_all ok (concat new)"
    by (auto simp: all_ok_def exec_procs)
  then have "all_ok glob ok (spawn new (set_proc i (k' @ k) sy1))" by (intro all_ok_spawn all_ok_set_proc)
  then show ?case using run by simp
next
  case (meet i sy j k c k')
  then have "list_all ok (SendUpdate # k)" "list_all ok (RecvUpdate c # k')"
    using all_ok_nth [OF meet(7,1,3)] all_ok_nth [OF meet(7,2,4)] by simp_all
  with meet show ?case by (auto intro!: all_ok_set_proc recv_ok)
next
  case (call sy cl)
  then show ?case by (auto intro: all_ok_spawn simp: call_ok)
qed

lemma all_ok_steps: "sys_steps H sy sy' \<Longrightarrow> all_ok glob ok sy \<Longrightarrow> all_ok glob ok sy'"
  by (rule sys_steps_inv [of "all_ok glob ok", OF all_ok_step])

end

section \<open>Blocks of the searches\<close>

definition built :: "(byte list \<Rightarrow> byte list) \<Rightarrow> string \<Rightarrow> Block \<Rightarrow> bool" where
  "built H trg b \<longleftrightarrow> DiffTarg (Hdr b) = trg \<and> CalcMrklRt H (Transactions b) = Some (MrklRt (Hdr b))
     \<and> (case Transactions b of [] \<Rightarrow> False | cb # ts \<Rightarrow> IsCoinbase cb)"

definition solved :: "(byte list \<Rightarrow> byte list) \<Rightarrow> string \<Rightarrow> Block \<Rightarrow> bool" where
  "solved H trg b \<longleftrightarrow> built H trg b \<and> SatisfiesPOW H b trg"

fun search_ok :: "(byte list \<Rightarrow> byte list) \<Rightarrow> string \<Rightarrow> stmt \<Rightarrow> bool" where
  "search_ok H trg (AppendPool c cb) = (case cb of None \<Rightarrow> True | Some t \<Rightarrow> IsCoinbase t)"
| "search_ok H trg (MakeBlock c txs) = (\<exists>cb ts. txs = cb # map Some ts \<and> (case cb of None \<Rightarrow> True | Some t \<Rightarrow> IsCoinbase t))"
| "search_ok H trg (TryNonce c i b) = built H trg b"
| "search_ok H trg (EndMining r b) = (r \<longrightarrow> solved H trg b)"
| "search_ok H trg (LogMined b) = solved H trg b"
| "search_ok H trg (SendMined b) = solved H trg b"
| "search_ok H trg s = True"

definition out_ok :: "(byte list \<Rightarrow> byte list) \<Rightarrow> string \<Rightarrow> ('pk, 'sk) sys \<Rightarrow> bool" where
  "out_ok H trg sy \<longleftrightarrow> DifTrg (sy_mnr sy) = trg \<and> (\<forall>b \<in> set (sy_out sy). solved H trg b)"

lemma GenCBTx_coinbase: "GenCBTx m (map Some ts) = Inr cb \<Longrightarrow> (case cb of None \<Rightarrow> True | Some t \<Rightarrow> IsCoinbase t)"
  using GenCBTx_eq [of ts m] by (cases "ts = [] \<or> SubsdyHlvRt (mnr_Conf m) = 0") (auto simp: GenCBTx_def Let_def cb_tx_fields split: if_splits)

lemma built_nonce [simp]: "built H trg (b\<lparr>Hdr := (Hdr b)\<lparr>Nonce := i\<rparr>\<rparr>) = built H trg b"
  by (simp add: built_def)

lemma Block_New_built:
  assumes "Block_New H p (cb # map Some ts) trg = Some (Inr b)" "case cb of None \<Rightarrow> True | Some t \<Rightarrow> IsCoinbase t"
  shows "built H trg b"
proof (cases cb)
  case (Some t)
  obtain root where r: "CalcMrklRt H (t # ts) = Some root"
    and n: "Block_New H p (map Some (t # ts)) trg = Some (Inr \<lparr>Hdr = \<lparr>Ver = 0, PrvBlkHsh = p, MrklRt = root, Timestamp = 0,
        DiffTarg = trg, Nonce = 0\<rparr>, Transactions = map clear_liminal (t # ts)\<rparr>)"
    by (rule Block_New_Some [of "t # ts"]) simp
  have "IsCoinbase (clear_liminal t)" using assms(2) Some by (simp add: IsCoinbase_def clear_liminal_def)
  with n r assms(1) Some show ?thesis using CalcMrklRt_clear [of H "t # ts"] by (auto simp: built_def)
qed (use assms(1) in \<open>simp add: Block_New_nil\<close>)

lemma search_ok_chk: "list_all (search_ok H trg) (HndlChkBlk_code b)"
  by (simp add: HndlChkBlk_code_def)

lemma search_ok_call: "list_all (search_ok H trg) (call_code H' cl)"
  by (cases "(H', cl)" rule: call_code.cases) (simp_all add: search_ok_chk)

interpretation blk: stmt_safety H "out_ok H trg" "search_ok H trg" for H trg
proof
  fix sy sy' :: "('pk, 'sk) sys" and s k' new
  assume a: "out_ok H trg sy" "search_ok H trg s" "exec_stmt H s sy = Some (Inr (sy', k', new))"
  show "out_ok H trg sy'" using a
    by (cases s) (auto simp: out_ok_def upd_mnr_def DifTrg_def SetHash_def IncChnLen_def go_simps split: if_splits)
  show "list_all (search_ok H trg) (k' @ concat new)" using a
    by (cases s) (auto simp: out_ok_def solved_def go_simps Let_def search_ok_chk dest: Block_New_built GenCBTx_coinbase split: if_splits)
qed (auto simp: search_ok_call out_ok_def)

section \<open>Loops and searches\<close>

fun loop_ctx :: "stmt \<Rightarrow> nat option" where
  "loop_ctx (RecvUpdate c) = Some c"
| "loop_ctx (CancelCtx c) = Some c"
| "loop_ctx (TestActive c) = Some c"
| "loop_ctx s = None"

fun search_ctx :: "stmt \<Rightarrow> nat option" where
  "search_ctx (TestPriMet c) = Some c"
| "search_ctx (MakeCoinbase c) = Some c"
| "search_ctx (AppendPool c cb) = Some c"
| "search_ctx (MakeBlock c txs) = Some c"
| "search_ctx (TryNonce c i b) = Some c"
| "search_ctx s = None"

text \<open>The contexts of the loops that run and of the searches under way.\<close>

definition loops :: "('pk, 'sk) sys \<Rightarrow> nat list" where
  "loops sy = List.map_filter loop_ctx (concat (sy_procs sy))"

definition searches :: "('pk, 'sk) sys \<Rightarrow> nat list" where
  "searches sy = List.map_filter search_ctx (concat (sy_procs sy))"

definition live_searches :: "('pk, 'sk) sys \<Rightarrow> nat list" where
  "live_searches sy = filter (\<lambda>c. c \<notin> set (sy_cancelled sy)) (searches sy)"

definition ctxs :: "(stmt \<Rightarrow> nat option) \<Rightarrow> stmt list list \<Rightarrow> nat multiset" where
  "ctxs f ps = mset (List.map_filter f (concat ps))"

lemma ctxs_simps [simp]:
  "ctxs f [] = {#}"
  "ctxs f ([] # ps) = ctxs f ps"
  "ctxs f ((s # k) # ps) = (case f s of None \<Rightarrow> {#} | Some c \<Rightarrow> {#c#}) + ctxs f (k # ps)"
  "ctxs f (ps @ qs) = ctxs f ps + ctxs f qs"
  by (auto simp: ctxs_def List.map_filter_simps List.map_filter_def split: option.splits)

lemma ctxs_code: "ctxs f [k' @ k] = ctxs f [k'] + ctxs f [k]"
  by (auto simp: ctxs_def List.map_filter_def)

lemma ctxs_Cons: "ctxs f (p # ps) = ctxs f [p] + ctxs f ps"
  using ctxs_simps(4) [of f "[p]" ps] by simp

lemma ctxs_update: "i < length ps \<Longrightarrow> ctxs f (ps[i := k]) + ctxs f [ps ! i] = ctxs f ps + ctxs f [k]"
proof (induction ps arbitrary: i)
  case (Cons p ps)
  show ?case
  proof (cases i)
    case 0
    then show ?thesis using ctxs_Cons [of f k ps] ctxs_Cons [of f p ps] by (simp add: ac_simps)
  next
    case (Suc j)
    then have "ctxs f (ps[j := k]) + ctxs f [ps ! j] = ctxs f ps + ctxs f [k]" using Cons by simp
    then show ?thesis using Suc ctxs_Cons [of f p "ps[j := k]"] ctxs_Cons [of f p ps] by (simp add: add.assoc)
  qed
qed simp

lemma ctxs_run:
  assumes "i < length (sy_procs sy)" "sy_procs sy ! i = s # k" "sy_procs sy1 = sy_procs sy"
  shows "ctxs f (sy_procs (spawn new (set_proc i (k' @ k) sy1))) + ctxs f [[s]] = ctxs f (sy_procs sy) + ctxs f [k'] + ctxs f new"
  using ctxs_update [OF assms(1), of f "k' @ k"] assms(2,3) ctxs_code [of f "[s]" k]
  by (simp add: spawn_def set_proc_def ctxs_code ac_simps) 

lemma ctxs_call: "ctxs loop_ctx [call_code H cl] = {#}" "ctxs search_ctx [call_code H cl] = {#}" "TestActive c \<notin> set (call_code H cl)"
  by (cases "(H, cl)" rule: call_code.cases; simp add: HndlChkBlk_code_def)+

text \<open>
  What a statement does to the contexts: most keep the loops and give up searches at most; the others cancel a context, start a loop, or
  move a loop to a fresh context for which they start a search.
\<close>

lemma exec_ctxs:
  assumes "exec_stmt H s sy = Some (Inr (sy', k', new))"
  obtains (keep) "ctxs loop_ctx [k'] + ctxs loop_ctx new = ctxs loop_ctx [[s]]" "ctxs search_ctx [k'] + ctxs search_ctx new \<subseteq># ctxs search_ctx [[s]]"
      "sy_next sy' = sy_next sy" "sy_cancelled sy' = sy_cancelled sy" "\<And>c. TestActive c \<notin> set (k' @ concat new)"
    | (cancel) c where "s = CancelCtx c" "k' = [TestActive c]" "new = []" "sy_next sy' = sy_next sy" "sy_cancelled sy' = c # sy_cancelled sy"
    | (start) "s = GoMine" "k' = []" "new = [[RecvUpdate (sy_next sy)]]" "sy_next sy' = Suc (sy_next sy)" "sy_cancelled sy' = sy_cancelled sy"
    | (fresh) c where "s = TestActive c" "k' = [RecvUpdate (sy_next sy)]" "new = [[TestPriMet (sy_next sy)]]" "sy_next sy' = Suc (sy_next sy)"
        "sy_cancelled sy' = sy_cancelled sy"
proof (cases "(\<exists>c. s = CancelCtx c) \<or> s = GoMine \<or> (\<exists>c. s = TestActive c \<and> Active (sy_mnr sy))")
  case True
  then show thesis using assms that by auto
next
  case False
  have "TestActive c \<notin> set (HndlChkBlk_code b)" "ctxs loop_ctx [HndlChkBlk_code b @ [SetHashTo h, IncLen]] = {#}"
      "ctxs search_ctx [HndlChkBlk_code b @ [SetHashTo h, IncLen]] = {#}" for c b h
    by (simp_all add: HndlChkBlk_code_def)
  with False assms show thesis
    by (intro keep; cases s) (auto simp: upd_mnr_def go_simps Let_def split: if_splits)
qed

text \<open>
  The invariant on the contexts of the loops \<open>L\<close>, of the searches \<open>S\<close>, the cancelled ones \<open>cs\<close>, the next fresh one \<open>n\<close> and those of loops about to read
  \<^verbatim>\<open>Active\<close>, \<open>T\<close>: no context is used twice, and a search that is not cancelled belongs to a loop.
\<close>

definition ctx_ok :: "nat multiset \<Rightarrow> nat multiset \<Rightarrow> nat set \<Rightarrow> nat \<Rightarrow> nat set \<Rightarrow> bool" where
  "ctx_ok L S cs n T \<longleftrightarrow> (\<forall>c. count L c \<le> 1) \<and> (\<forall>c. count S c \<le> 1) \<and> (\<forall>c. c \<in># L \<or> c \<in># S \<longrightarrow> c < n)
     \<and> (\<forall>c. c \<in># S \<longrightarrow> c \<in> cs \<or> c \<in># L) \<and> T \<subseteq> cs \<and> (\<forall>c \<in> cs. c < n)"

lemma ctx_ok_mono:
  assumes "ctx_ok L S cs n T" "S' \<subseteq># S" "T' \<subseteq> T"
  shows "ctx_ok L S' cs n T'"
proof -
  have "count S' c \<le> 1" for c using mset_subset_eq_count [OF assms(2), of c] assms(1) le_trans unfolding ctx_ok_def by blast
  moreover have "c \<in># S" if "c \<in># S'" for c using mset_subset_eqD [OF assms(2) that] .
  ultimately show ?thesis using assms(1,3) unfolding ctx_ok_def by blast
qed

lemma ctx_ok_cancel: "ctx_ok L S cs n T \<Longrightarrow> c \<in># L \<Longrightarrow> ctx_ok L S (insert c cs) n (insert c T)"
  by (auto simp: ctx_ok_def)

lemma ctx_ok_start: "ctx_ok L S cs n T \<Longrightarrow> ctx_ok (add_mset n L) S cs (Suc n) T"
  by (auto simp: ctx_ok_def count_eq_zero_iff less_Suc_eq)

lemma ctx_ok_fresh:
  assumes ok: "ctx_ok L S cs n T" and L: "add_mset c L' = add_mset n L" and c: "c \<in> cs"
  shows "ctx_ok L' (add_mset n S) cs (Suc n) T"
proof -
  have n: "count L n = 0" "count S n = 0" using ok by (auto simp: ctx_ok_def count_eq_zero_iff)
  have cnt: "count L' d + (if d = c then 1 else 0) = count L d + (if d = n then 1 else 0)" for d
    using arg_cong [OF L, of "\<lambda>M. count M d"] by (simp split: if_splits)
  have "count L d \<le> 1" for d using ok by (simp add: ctx_ok_def)
  then have "count L' d \<le> 1" for d using cnt [of d] n by (cases "d = n"; cases "d = c") (auto intro: le_trans [of _ "count L d"])
  moreover have "count (add_mset n S) d \<le> 1" for d using ok n by (cases "d = n") (auto simp: ctx_ok_def)
  moreover have "d < Suc n" if "d \<in># L' \<or> d \<in># add_mset n S" for d
    using that cnt [of d] ok by (cases "d = n") (auto simp: ctx_ok_def less_Suc_eq simp flip: count_greater_zero_iff split: if_splits)
  moreover have "d \<in> cs \<or> d \<in># L'" if "d \<in># add_mset n S" for d
    using that cnt [of d] ok c by (cases "d = c") (auto simp: ctx_ok_def simp flip: count_greater_zero_iff split: if_splits)
  ultimately show ?thesis using ok by (auto simp: ctx_ok_def less_Suc_eq)
qed

definition testing :: "('pk, 'sk) sys \<Rightarrow> nat set" where
  "testing sy = {c. TestActive c \<in> set (concat (sy_procs sy))}"

definition ctx_inv :: "('pk, 'sk) sys \<Rightarrow> bool" where
  "ctx_inv sy \<longleftrightarrow> ctx_ok (ctxs loop_ctx (sy_procs sy)) (ctxs search_ctx (sy_procs sy)) (set (sy_cancelled sy)) (sy_next sy) (testing sy)"

lemma set_proc_stmts: "set (concat (sy_procs (set_proc i k sy))) \<subseteq> set (concat (sy_procs sy)) \<union> set k"
  by (auto simp: set_proc_def dest!: set_update_subset_insert [THEN subsetD])

lemma run_stmts:
  assumes "i < length (sy_procs sy)" "sy_procs sy ! i = s # k" "sy_procs sy1 = sy_procs sy"
  shows "set (concat (sy_procs (spawn new (set_proc i (k' @ k) sy1)))) \<subseteq> set (concat (sy_procs sy)) \<union> set (k' @ concat new)"
    and "s \<in> set (concat (sy_procs sy))"
proof -
  have "set k \<subseteq> set (concat (sy_procs sy))" and s: "s \<in> set (concat (sy_procs sy))"
    using nth_mem [OF assms(1)] assms(2) by (auto intro!: bexI [of _ "s # k"])
  then show "set (concat (sy_procs (spawn new (set_proc i (k' @ k) sy1)))) \<subseteq> set (concat (sy_procs sy)) \<union> set (k' @ concat new)"
    using set_proc_stmts [of i "k' @ k" sy1] assms(3) by (auto simp: spawn_def)
  show "s \<in> set (concat (sy_procs sy))" by (rule s)
qed

lemma ctx_inv_run:
  assumes r: "i < length (sy_procs sy)" "sy_procs sy ! i = s # k" and e: "exec_stmt H s sy = Some (Inr (sy1, k', new))" and inv: "ctx_inv sy"
  shows "ctx_inv (spawn new (set_proc i (k' @ k) sy1))"
proof -
  define sy' where "sy' = spawn new (set_proc i (k' @ k) sy1)"
  note eq = ctxs_run [OF r exec_procs [OF e], of _ new k', folded sy'_def]
  define L L' S S' where "L = ctxs loop_ctx (sy_procs sy)" "L' = ctxs loop_ctx (sy_procs sy')"
    "S = ctxs search_ctx (sy_procs sy)" "S' = ctxs search_ctx (sy_procs sy')"
  have L: "L' + ctxs loop_ctx [[s]] = L + (ctxs loop_ctx [k'] + ctxs loop_ctx new)"
    and S: "S' + ctxs search_ctx [[s]] = S + (ctxs search_ctx [k'] + ctxs search_ctx new)"
    using eq [of loop_ctx] eq [of search_ctx] by (simp_all only: L_L'_S_S'_def add.assoc)
  have T: "testing sy' \<subseteq> testing sy \<union> {c. TestActive c \<in> set (k' @ concat new)}"
    using run_stmts(1) [OF r exec_procs [OF e], of new k', folded sy'_def] by (auto simp: testing_def)
  have s: "s \<in> set (concat (sy_procs sy))" by (rule run_stmts(2) [OF r refl])
  have ok: "ctx_ok L S (set (sy_cancelled sy)) (sy_next sy) (testing sy)" using inv by (simp add: ctx_inv_def L_L'_S_S'_def)
  have "ctx_ok L' S' (set (sy_cancelled sy1)) (sy_next sy1) (testing sy')" using e
  proof (cases rule: exec_ctxs)
    case keep
    have "L' = L" using L keep(1) by simp
    moreover have "S' + ctxs search_ctx [[s]] \<subseteq># S + ctxs search_ctx [[s]]"
      unfolding S by (rule subset_mset.add_left_mono [OF keep(2)])
    then have "S' \<subseteq># S" by simp
    ultimately show ?thesis using ctx_ok_mono [OF ok] T keep(3-5) by simp
  next
    case (cancel c)
    then have "L' = L" "S' = S" using L S by simp_all
    moreover have "c \<in># L" using s cancel(1) by (force simp: L_L'_S_S'_def ctxs_def List.map_filter_def)
    ultimately show ?thesis using ctx_ok_mono [OF ctx_ok_cancel [OF ok, of c], of S "testing sy'"] T cancel by auto
  next
    case start
    then have "L' = add_mset (sy_next sy) L" "S' = S" using L S by simp_all
    then show ?thesis using ctx_ok_mono [OF ctx_ok_start [OF ok], of S "testing sy'"] T start by auto
  next
    case (fresh c)
    then have "add_mset c L' = add_mset (sy_next sy) L" "S' = add_mset (sy_next sy) S" "c \<in> set (sy_cancelled sy)"
      using L S s ok by (auto simp: ctx_ok_def testing_def)
    then show ?thesis using ctx_ok_mono [OF ctx_ok_fresh [OF ok], of c L' S' "testing sy'"] T fresh by auto
  qed
  then show ?thesis by (simp add: ctx_inv_def L_L'_S_S'_def sy'_def spawn_def set_proc_def)
qed

lemma ctx_inv_set_proc:
  assumes "ctx_inv sy" "i < length (sy_procs sy)" "\<And>f. f \<in> {loop_ctx, search_ctx} \<Longrightarrow> ctxs f [sy_procs sy ! i] = ctxs f [k]"
    and "\<And>c. TestActive c \<in> set k \<Longrightarrow> TestActive c \<in> set (sy_procs sy ! i)"
  shows "ctx_inv (set_proc i k sy)"
proof -
  have "ctxs f (sy_procs (set_proc i k sy)) = ctxs f (sy_procs sy)" if "f \<in> {loop_ctx, search_ctx}" for f
    using ctxs_update [OF assms(2), of f k] assms(3) [OF that] by (simp add: set_proc_def)
  moreover have "testing (set_proc i k sy) \<subseteq> testing sy"
    using set_proc_stmts [of i k sy] assms(4) nth_mem [OF assms(2)] by (auto simp: testing_def)
  ultimately show ?thesis using assms(1) ctx_ok_mono by (simp add: ctx_inv_def set_proc_def)
qed

lemma ctx_inv_step: "ctx_inv sy \<Longrightarrow> sys_step H sy (Inr sy') \<Longrightarrow> ctx_inv sy'"
proof (erule sys_step.cases, goal_cases)
  case (1 i sy0 s k sy1 k' new)
  then show ?case using ctx_inv_run [of i sy s k H sy1 k' new] by simp
next
  case (3 i sy0 j k c k')
  have a: "ctx_inv (set_proc i k sy)" by (rule ctx_inv_set_proc) (use 3 in auto)
  have j: "sy_procs (set_proc i k sy) ! j = RecvUpdate c # k'" "j < length (sy_procs (set_proc i k sy))"
    using 3 by (cases "i = j"; simp add: set_proc_def)+
  have "ctx_inv (set_proc j (CancelCtx c # k') (set_proc i k sy))"
    by (rule ctx_inv_set_proc [OF a j(2)]) (auto simp: j(1))
  then show ?case using 3 by simp
next
  case (4 sy0 cl)
  then show ?case using ctxs_call(1,2) [of H cl] ctxs_call(3) [of _ H cl] by (auto simp: ctx_inv_def spawn_def testing_def simp del: ctxs_simps(3))
qed simp

lemma ctx_inv_reach: "sys_reach H m sy \<Longrightarrow> ctx_inv sy"
  using sys_steps_inv [of ctx_inv H "sys_init m" sy, OF ctx_inv_step]
  by (simp add: sys_reach_def) (simp add: ctx_inv_def ctx_ok_def sys_init_def testing_def)

lemma distinct_mset_count: "(\<forall>c. count M c \<le> 1) \<Longrightarrow> (\<forall>c. c \<in># M \<longrightarrow> c \<in># N) \<Longrightarrow> M \<subseteq># N"
  by (rule mset_subset_eqI) (metis count_greater_zero_iff le_trans le_zero_eq not_gr_zero One_nat_def Suc_leI nat_le_linear)

text \<open>Loops come from calls of \<^verbatim>\<open>StartMiner\<close>: every such call starts one loop, at its second statement.\<close>

fun start_ctx :: "stmt \<Rightarrow> nat option" where
  "start_ctx GoMine = Some 0"
| "start_ctx s = loop_ctx s"

lemma start_ctx_loop: "loop_ctx s = Some c \<Longrightarrow> start_ctx s = Some c"
  by (cases s) simp_all

lemma starts_loops: "length (List.map_filter loop_ctx ss) \<le> length (List.map_filter start_ctx ss)"
  by (induction ss) (auto simp: List.map_filter_simps start_ctx_loop split: option.splits)

lemma starts_exec:
  assumes "exec_stmt H s sy = Some (Inr (sy', k', new))"
  shows "ctxs start_ctx [k'] + ctxs start_ctx new = ctxs start_ctx [[s]] \<or> s = GoMine \<or> (\<exists>c. s = TestActive c)"
    and "size (ctxs start_ctx [k']) + size (ctxs start_ctx new) = size (ctxs start_ctx [[s]])"
proof -
  have blk: "ctxs start_ctx [HndlChkBlk_code b @ [SetHashTo h, IncLen]] = {#}" for b h by (simp add: HndlChkBlk_code_def)
  show "ctxs start_ctx [k'] + ctxs start_ctx new = ctxs start_ctx [[s]] \<or> s = GoMine \<or> (\<exists>c. s = TestActive c)"
    using assms by (cases s) (auto simp: upd_mnr_def go_simps Let_def blk split: if_splits)
  then show "size (ctxs start_ctx [k']) + size (ctxs start_ctx new) = size (ctxs start_ctx [[s]])"
    using assms by (auto simp: size_union [symmetric] simp del: size_union split: if_splits)
qed

lemma starts_call: "size (ctxs start_ctx [call_code H cl]) = (if cl = CallStartMiner then 1 else 0)"
  by (cases "(H, cl)" rule: call_code.cases) (simp_all add: HndlChkBlk_code_def)

lemma starts_set_proc:
  assumes "i < length (sy_procs sy)" "ctxs start_ctx [sy_procs sy ! i] = ctxs start_ctx [k]"
  shows "ctxs start_ctx (sy_procs (set_proc i k sy)) = ctxs start_ctx (sy_procs sy)"
  using ctxs_update [OF assms(1), of start_ctx k] assms(2) by (simp add: set_proc_def)

lemma starts_sched:
  assumes "sched_step H ch sy = Some sy'"
  shows "size (ctxs start_ctx (sy_procs sy')) = size (ctxs start_ctx (sy_procs sy)) + (if ch = Call CallStartMiner then 1 else 0)"
proof (cases ch)
  case (Run i)
  then obtain s k sy1 k' new where r: "i < length (sy_procs sy)" "sy_procs sy ! i = s # k" and e: "exec_stmt H s sy = Some (Inr (sy1, k', new))"
      and sy': "sy' = spawn new (set_proc i (k' @ k) sy1)"
    using assms by (auto split: if_splits list.splits option.splits sum.splits)
  show ?thesis
    using arg_cong [OF ctxs_run [OF r exec_procs [OF e], of start_ctx new k'], of size] starts_exec(2) [OF e] Run by (simp add: sy')
next
  case (Meet i j)
  then obtain k c k' where m: "i < length (sy_procs sy)" "j < length (sy_procs sy)" "sy_procs sy ! i = SendUpdate # k" "sy_procs sy ! j = RecvUpdate c # k'"
      and sy': "sy' = set_proc j (CancelCtx c # k') (set_proc i k sy)"
    using assms by (auto split: if_splits list.splits stmt.splits)
  have j: "sy_procs (set_proc i k sy) ! j = RecvUpdate c # k'" "j < length (sy_procs (set_proc i k sy))"
    using m by (cases "i = j"; simp add: set_proc_def)+
  have "ctxs start_ctx (sy_procs sy') = ctxs start_ctx (sy_procs (set_proc i k sy))"
    unfolding sy' by (rule starts_set_proc [OF j(2)]) (simp add: j(1))
  also have "\<dots> = ctxs start_ctx (sy_procs sy)" by (rule starts_set_proc [OF m(1)]) (simp add: m(3))
  finally show ?thesis using Meet by simp
next
  case (Call cl)
  then show ?thesis using assms starts_call [of H cl] by (auto simp: spawn_def simp del: ctxs_simps(3))
qed

lemma starts_run:
  "sched_run H chs sy = Some sy' \<Longrightarrow> size (ctxs start_ctx (sy_procs sy')) = size (ctxs start_ctx (sy_procs sy)) + count_list chs (Call CallStartMiner)"
proof (induction chs arbitrary: sy)
  case (Cons ch chs)
  then obtain sy1 where "sched_step H ch sy = Some sy1" "sched_run H chs sy1 = Some sy'" by (auto simp: bind_eq_Some_conv)
  with Cons.IH [OF this(2)] starts_sched [OF this(1)] show ?case by simp
qed simp

text \<open>Every reachable state is the end of a schedule.\<close>

lemma sched_step_complete: "sys_step H sy (Inr sy') \<Longrightarrow> \<exists>ch. sched_step H ch sy = Some sy'"
proof (erule sys_step.cases, goal_cases)
  case (1 i sy0 s k sy1 k' new)
  then show ?case by (intro exI [of _ "Run i"]) simp
next
  case (3 i sy0 j k c k')
  then show ?case by (intro exI [of _ "Meet i j"]) simp
next
  case (4 sy0 cl)
  then show ?case by (intro exI [of _ "Call cl"]) simp
qed simp

lemma sched_run_append: "sched_run H (chs @ [ch]) sy = Option.bind (sched_run H chs sy) (sched_step H ch)"
  by (induction chs arbitrary: sy) (auto split: bind_splits)

lemma reach_sched: "sys_reach H m sy \<longleftrightarrow> (\<exists>chs. sched_run H chs (sys_init m) = Some sy)"
proof
  assume "sys_reach H m sy"
  then have "sys_steps H (sys_init m) sy" by (simp add: sys_reach_def)
  then show "\<exists>chs. sched_run H chs (sys_init m) = Some sy"
  proof (induction rule: rtranclp_induct)
    case base
    show ?case by (rule exI [of _ "[]"]) simp
  next
    case (step y z)
    then obtain chs ch where "sched_run H chs (sys_init m) = Some y" "sched_step H ch y = Some z" using sched_step_complete by blast
    then show ?case by (intro exI [of _ "chs @ [ch]"]) (simp add: sched_run_append)
  qed
qed (auto simp: sys_reach_def dest: sched_run_sound)

text \<open>
  C17: A loop has one search at a time. Take any schedule of a miner's goroutines and of calls of its methods, from no goroutines on; every reachable state is the end
  of one (\<open>reach_sched\<close>). In the state it ends in, there are at most as many searches that are not cancelled as loops of
  \<^verbatim>\<open>Mine\<close> that run, and at most as many loops as \<^verbatim>\<open>StartMiner\<close> was called. So a miner that was started once never has two such searches.
\<close>

theorem live_searches_bounded:
  assumes "sched_run H chs (sys_init m) = Some sy"
  shows "length (live_searches sy) \<le> length (loops sy) \<and> length (loops sy) \<le> count_list chs (Call CallStartMiner)
    \<and> (count_list chs (Call CallStartMiner) = 1 \<longrightarrow> length (live_searches sy) \<le> 1)"
proof -
  have "sys_reach H m sy" using assms reach_sched by blast
  then have inv: "ctx_ok (mset (loops sy)) (mset (searches sy)) (set (sy_cancelled sy)) (sy_next sy) (testing sy)"
    using ctx_inv_reach by (fastforce simp: ctx_inv_def ctxs_def loops_def searches_def)
  have "mset (live_searches sy) \<subseteq># mset (loops sy)"
  proof (rule distinct_mset_count)
    show "\<forall>c. count (mset (live_searches sy)) c \<le> 1" using inv by (auto simp: live_searches_def mset_filter count_filter_mset ctx_ok_def)
    show "\<forall>c. c \<in># mset (live_searches sy) \<longrightarrow> c \<in># mset (loops sy)" using inv by (auto simp: live_searches_def ctx_ok_def)
  qed
  then have "length (live_searches sy) \<le> length (loops sy)" using size_mset_mono by fastforce
  moreover have "length (loops sy) \<le> length (List.map_filter start_ctx (concat (sy_procs sy)))"
    unfolding loops_def by (rule starts_loops)
  moreover have "length (List.map_filter start_ctx (concat (sy_procs sy))) = count_list chs (Call CallStartMiner)"
    using starts_run [OF assms] by (simp add: ctxs_def sys_init_def List.map_filter_simps)
  ultimately show ?thesis by simp
qed

theorem live_searches_bounded_witness:
  "live_searches demo_sys = [1] \<and> length (live_searches demo_sys) \<le> 1"
  using live_searches_bounded [OF demo_sys_run] by (simp add: live_searches_def searches_def List.map_filter_simps)

end
