(* ===== verification/Mine_Runs.thy ===== *)
theory Mine_Runs
  imports Mine_Loop
begin

text \<open>
  Runs of the miner's goroutines: who waits for whom on \<^verbatim>\<open>PoolUpdated\<close>, what a loop does after \<^verbatim>\<open>Kill\<close>, a search that goes on with the hash of the block before the
  last, and that the atomic model of \<open>Miner\<close> is the run in which a goroutine is not interrupted.
\<close>

section \<open>Waiting on the channel\<close>

lemma sys_sel [simp]:
  "sy_mnr (set_proc i k sy) = sy_mnr sy" "sy_mnr (spawn ps sy) = sy_mnr sy" "sy_mnr (upd_mnr f sy) = f (sy_mnr sy)"
  "sy_procs (set_proc i k sy) = (sy_procs sy)[i := k]" "sy_procs (spawn ps sy) = sy_procs sy @ ps" "sy_procs (upd_mnr f sy) = sy_procs sy"
  "sy_cancelled (set_proc i k sy) = sy_cancelled sy" "sy_cancelled (spawn ps sy) = sy_cancelled sy" "sy_cancelled (upd_mnr f sy) = sy_cancelled sy"
  "sy_next (set_proc i k sy) = sy_next sy" "sy_next (spawn ps sy) = sy_next sy" "sy_next (upd_mnr f sy) = sy_next sy"
  "sy_blk_closed (set_proc i k sy) = sy_blk_closed sy" "sy_blk_closed (spawn ps sy) = sy_blk_closed sy" "sy_blk_closed (upd_mnr f sy) = sy_blk_closed sy"
  "sy_out (set_proc i k sy) = sy_out sy" "sy_out (spawn ps sy) = sy_out sy" "sy_out (upd_mnr f sy) = sy_out sy"
  by (simp_all add: set_proc_def spawn_def upd_mnr_def)

text \<open>A goroutine that runs the loop of \<^verbatim>\<open>Mine\<close>, wherever it stands.\<close>

definition is_loop :: "stmt list \<Rightarrow> bool" where
  "is_loop p \<longleftrightarrow> (\<exists>c. p = [RecvUpdate c] \<or> p = [CancelCtx c] \<or> p = [TestActive c])"

lemma is_loop_exec: "is_loop (s # k) \<Longrightarrow> exec_stmt H s sy = Some (Inr (sy', k', new)) \<Longrightarrow> is_loop (k' @ k)"
  by (auto simp: is_loop_def split: if_splits)

lemma is_loop_step:
  assumes "sys_step H sy (Inr sy')" "j < length (sy_procs sy)" "is_loop (sy_procs sy ! j)"
  shows "j < length (sy_procs sy') \<and> is_loop (sy_procs sy' ! j)"
  using assms
proof cases
  case (run i s k sy1 k' new)
  then show ?thesis using assms(2,3) is_loop_exec [of s k H sy sy1 k' new] exec_procs [OF run(4)]
    by (cases "i = j") (auto simp: nth_append)
next
  case (meet i i' k c k')
  then show ?thesis using assms(2,3) by (cases "i' = j"; cases "i = j") (auto simp: is_loop_def)
qed (use assms(2,3) in \<open>auto simp: nth_append\<close>)

lemma is_loop_steps:
  assumes "sys_steps H sy sy'" "j < length (sy_procs sy)" "is_loop (sy_procs sy ! j)"
  shows "j < length (sy_procs sy') \<and> is_loop (sy_procs sy' ! j)"
  using assms(1) assms(2,3) sys_steps_inv [of "\<lambda>sy. j < length (sy_procs sy) \<and> is_loop (sy_procs sy ! j)"] is_loop_step by blast

text \<open>
  The loop of \<^verbatim>\<open>Mine\<close> never ends. A goroutine that runs the loop runs it in every later state; once \<^verbatim>\<open>Kill\<close> has closed the channel it does not even
  wait: the loop can always run another statement, so it spins.
\<close>

theorem Mine_never_ends:
  assumes "sys_steps H sy sy'" "j < length (sy_procs sy)" "is_loop (sy_procs sy ! j)"
  shows "is_loop (sy_procs sy' ! j) \<and> (mnr_closed (sy_mnr sy') \<longrightarrow> (\<exists>sy''. sched_step H (Run j) sy' = Some sy'' \<and> is_loop (sy_procs sy'' ! j)))"
proof -
  have l: "j < length (sy_procs sy')" "is_loop (sy_procs sy' ! j)" using is_loop_steps [OF assms] by simp_all
  have "\<exists>sy''. sched_step H (Run j) sy' = Some sy''" if "mnr_closed (sy_mnr sy')" using l that by (auto simp: is_loop_def)
  then show ?thesis using l is_loop_step [OF sched_step_sound] by blast
qed

theorem Mine_never_ends_witness:
  "\<exists>sy' sy''. sched_run length_digest [Call CallKill, Run 3, Run 3] demo_sys = Some sy' \<and> mnr_closed (sy_mnr sy')
     \<and> sched_step length_digest (Run 1) sy' = Some sy'' \<and> is_loop (sy_procs sy'' ! 1)"
proof -
  obtain sy' where r: "sched_run length_digest [Call CallKill, Run 3, Run 3] demo_sys = Some sy'" "mnr_closed (sy_mnr sy')" by simp
  then show ?thesis using Mine_never_ends [OF sched_run_sound [OF r(1)], of 1] by (auto simp: is_loop_def)
qed

text \<open>
  A goroutine that sends on \<^verbatim>\<open>PoolUpdated\<close> is not stuck while a loop runs. When the channel is open and a goroutine runs the loop of \<^verbatim>\<open>Mine\<close>,
  wherever the loop stands, a run exists in which the loop receives the update and the sender goes on; the run changes nothing else of the miner.
\<close>

theorem update_delivered:
  assumes "i < length (sy_procs sy)" "sy_procs sy ! i = SendUpdate # k" "j < length (sy_procs sy)" "is_loop (sy_procs sy ! j)"
    and "\<not> mnr_closed (sy_mnr sy)"
  shows "\<exists>sy'. sys_steps H sy sy' \<and> sy_procs sy' ! i = k \<and> sy_mnr sy' = sy_mnr sy"
proof -
  have ij: "i \<noteq> j" using assms(2,4) by (auto simp: is_loop_def)
  obtain c where "sy_procs sy ! j = [RecvUpdate c] \<or> sy_procs sy ! j = [CancelCtx c] \<or> sy_procs sy ! j = [TestActive c]"
    using assms(4) by (auto simp: is_loop_def)
  then have "\<exists>chs sy'. sched_run H chs sy = Some sy' \<and> sy_procs sy' ! i = k \<and> sy_mnr sy' = sy_mnr sy"
  proof (elim disjE)
    assume "sy_procs sy ! j = [RecvUpdate c]"
    then show ?thesis using assms ij by (intro exI [of _ "[Meet i j]"]) simp
  next
    assume "sy_procs sy ! j = [CancelCtx c]"
    then show ?thesis using assms ij
      by (intro exI [of _ "[Run j, Run j, Meet i j]"]) (cases "Active (sy_mnr sy)"; simp add: nth_append)
  next
    assume "sy_procs sy ! j = [TestActive c]"
    then show ?thesis using assms ij by (intro exI [of _ "[Run j, Meet i j]"]) (cases "Active (sy_mnr sy)"; simp add: nth_append)
  qed
  then show ?thesis using sched_run_sound by blast
qed

theorem update_delivered_witness:
  "\<exists>sy sy'. sched_run length_digest [Call CallPause, Run 3] demo_sys = Some sy \<and> sy_procs sy ! 3 = [SendUpdate, LogAddr]
     \<and> sys_steps length_digest sy sy' \<and> sy_procs sy' ! 3 = [LogAddr] \<and> sy_mnr sy' = sy_mnr sy"
proof -
  obtain sy where r: "sched_run length_digest [Call CallPause, Run 3] demo_sys = Some sy" and p: "3 < length (sy_procs sy)"
      "sy_procs sy ! 3 = [SendUpdate, LogAddr]" "1 < length (sy_procs sy)" "is_loop (sy_procs sy ! 1)" "\<not> mnr_closed (sy_mnr sy)"
    by (simp add: is_loop_def)
  show ?thesis using r p(2) update_delivered [OF p, of length_digest] by blast
qed

lemma loops_nonempty: "RecvUpdate c \<in> set (concat (sy_procs sy)) \<Longrightarrow> loops sy \<noteq> []"
  by (force simp: loops_def List.map_filter_def filter_empty_conv)

lemma size_loops: "size (ctxs loop_ctx (sy_procs sy)) = length (loops sy)"
  by (simp add: ctxs_def loops_def)

lemma loops_run:
  assumes "i < length (sy_procs sy)" "sy_procs sy ! i = s # k" "exec_stmt H s sy = Some (Inr (sy1, k', new))"
  shows "length (loops sy) \<le> length (loops (spawn new (set_proc i (k' @ k) sy1)))"
proof -
  have "size (ctxs loop_ctx [[s]]) \<le> size (ctxs loop_ctx [k'] + ctxs loop_ctx new)"
    using assms(3) by (cases rule: exec_ctxs) auto
  then show ?thesis
    using arg_cong [OF ctxs_run [OF assms(1,2) exec_procs [OF assms(3)], of loop_ctx new k'], of size] by (simp only: size_union size_loops)
qed

lemma loops_step: "sys_step H sy (Inr sy') \<Longrightarrow> length (loops sy) \<le> length (loops sy')"
proof (erule sys_step.cases, goal_cases)
  case (1 i sy0 s k sy1 k' new)
  then show ?case using loops_run by simp
next
  case (3 i sy0 j k c k')
  have j: "sy_procs (set_proc i k sy) ! j = RecvUpdate c # k'" using 3 by (cases "i = j") simp_all
  show ?case
    using ctxs_update [of i "sy_procs sy" loop_ctx k] ctxs_update [of j "sy_procs (set_proc i k sy)" loop_ctx "CancelCtx c # k'"] 3 j
    by (simp flip: size_loops)
next
  case (4 sy0 cl)
  then show ?case by (simp add: loops_def List.map_filter_def)
qed simp

lemma closed_step: "sys_step H sy (Inr sy') \<Longrightarrow> mnr_closed (sy_mnr sy) \<Longrightarrow> mnr_closed (sy_mnr sy')"
proof (erule sys_step.cases, goal_cases)
  case (1 i sy0 s k sy1 k' new)
  then show ?case by (cases s) (auto simp: SetHash_def IncChnLen_def go_simps split: if_splits)
qed simp_all

lemma sender_stays:
  assumes "sys_step H sy (Inr sy')" "i < length (sy_procs sy)" "sy_procs sy ! i = SendUpdate # k" "loops sy' = []" "\<not> mnr_closed (sy_mnr sy')"
  shows "sy_procs sy' ! i = SendUpdate # k"
  using assms(1)
proof cases
  case (run i' s k1 sy1 k' new)
  have "\<not> mnr_closed (sy_mnr sy)" using closed_step [OF assms(1)] assms(5) by blast
  then have "i \<noteq> i'" using run assms(3) by auto
  then show ?thesis using run assms(2,3) exec_procs [OF run(4)] by (simp add: nth_append)
next
  case (meet i' j k1 c k')
  then have "RecvUpdate c \<in> set (concat (sy_procs sy))" using nth_mem [of j "sy_procs sy"] by (auto intro!: bexI [of _ "RecvUpdate c # k'"])
  then show ?thesis using loops_nonempty loops_step [OF assms(1)] assms(4) by fastforce
qed (use assms(2,3) in \<open>auto simp: nth_append\<close>)

text \<open>
  A goroutine that sends on \<^verbatim>\<open>PoolUpdated\<close> waits until the miner is started or killed. In every later state without a loop and with the channel open
  the goroutine still stands at its send: \<^verbatim>\<open>Pause\<close> or \<^verbatim>\<open>Resume\<close> of a miner that is never started does not return.
\<close>

theorem update_waits_for_start:
  assumes "sys_steps H sy sy'" "i < length (sy_procs sy)" "sy_procs sy ! i = SendUpdate # k" "loops sy' = []" "\<not> mnr_closed (sy_mnr sy')"
  shows "sy_procs sy' ! i = SendUpdate # k"
proof -
  have "i < length (sy_procs sy') \<and> (loops sy' = [] \<and> \<not> mnr_closed (sy_mnr sy') \<longrightarrow> sy_procs sy' ! i = SendUpdate # k)"
    using assms(1)
  proof (induction rule: rtranclp_induct)
    case (step sy1 sy2)
    have "length (sy_procs sy1) \<le> length (sy_procs sy2)" using step.hyps(2) by (cases rule: sys_step.cases) (auto simp: exec_procs)
    then show ?case using step.IH sender_stays [OF step.hyps(2), of i k] loops_step [OF step.hyps(2)] closed_step [OF step.hyps(2)] by fastforce
  qed (use assms(2,3) in simp)
  then show ?thesis using assms(4,5) by simp
qed

theorem update_waits_for_start_witness:
  "\<exists>sy sy'. sched_run length_digest [Call CallPause, Run 0] (sys_init demo_mnr) = Some sy \<and> sched_run length_digest [Call CallResume, Run 1] sy = Some sy'
     \<and> sy_procs sy' ! 0 = [SendUpdate, LogAddr]"
proof -
  obtain sy where s: "sched_run length_digest [Call CallPause, Run 0] (sys_init demo_mnr) = Some sy" "sy_procs sy = [[SendUpdate, LogAddr]]"
      "\<not> mnr_closed (sy_mnr sy)" by (simp add: sys_init_def)
  obtain sy' where s': "sched_run length_digest [Call CallResume, Run 1] sy = Some sy'" "loops sy' = []" "\<not> mnr_closed (sy_mnr sy')"
    using s(2,3) by (simp add: loops_def List.map_filter_simps)
  show ?thesis using s s' update_waits_for_start [OF sched_run_sound [OF s'(1)] _ _ s'(2,3), of 0 "[LogAddr]"] by auto
qed

section \<open>A search on the old block\<close>

definition chosen :: "('pk, 'sk) Miner \<Rightarrow> ('pk, 'sk) Miner" where
  "chosen m = m\<lparr>Mining := True, MiningPool := NewMiningPool m\<rparr>"

lemma search_builds:
  assumes "i < length (sy_procs sy)" "sy_procs sy ! i = [TestPriMet c]" "PriMet (TxP (sy_mnr sy))"
    and "GenCBTx (chosen (sy_mnr sy)) (map Some (NewMiningPool (sy_mnr sy))) = Inr cb"
    and "Block_New H (PrvHsh (sy_mnr sy)) (cb # map Some (NewMiningPool (sy_mnr sy))) (DifTrg (sy_mnr sy)) = Some (Inr b)"
  shows "sched_run H (replicate 6 (Run i)) sy = Some (set_proc i [TryNonce c 0 b] (upd_mnr chosen sy))"
proof -
  have "NewMiningPool (sy_mnr sy\<lparr>Mining := True\<rparr>) = NewMiningPool (sy_mnr sy)" "DifTrg (m\<lparr>Mining := True, MiningPool := p\<rparr>) = DifTrg m"
    for m :: "('a, 'b) Miner" and p by (simp_all add: NewMiningPool_def DifTrg_def)
  then show ?thesis using assms by (simp add: numeral_eq_Suc set_proc_def upd_mnr_def spawn_def chosen_def)
qed

lemma loop_ctx_less:
  assumes "ctx_inv sy" "j < length (sy_procs sy)" "sy_procs sy ! j = [RecvUpdate c]"
  shows "c < sy_next sy" and "sy_next sy \<notin> set (sy_cancelled sy)"
proof -
  have "[RecvUpdate c] \<in> set (sy_procs sy)" using nth_mem [OF assms(2)] assms(3) by simp
  then have "c \<in># ctxs loop_ctx (sy_procs sy)" by (force simp: ctxs_def List.map_filter_def)
  then show "c < sy_next sy" "sy_next sy \<notin> set (sy_cancelled sy)" using assms(1) by (auto simp: ctx_inv_def ctx_ok_def)
qed

text \<open>
  C19: The miner may go on mining on the block before the last. \<^verbatim>\<open>HndlBlk\<close> wakes the loop before it sets the hash of the new block. Let a loop of
  an active, reachable miner wait, and let the miner still be ready to mine without the transactions of a block \<open>b\<close>. Then a run of \<^verbatim>\<open>HndlBlk\<close> of \<open>b\<close> exists
  that ends with the handler finished, the hash and the chain length of the miner moved to \<open>b\<close>, the loop waiting again, and a search that is not cancelled
  under way for a block on the old hash.
\<close>

theorem HndlBlk_stale_search:
  assumes "sys_reach H m0 sy" "j < length (sy_procs sy)" "sy_procs sy ! j = [RecvUpdate c]" "Active (sy_mnr sy)"
    and ready: "ready ((sy_mnr sy)\<lparr>TxP := TxPool_ChkTxs H (map Some (Transactions b)) (TxP (sy_mnr sy))\<rparr>)"
  shows "\<exists>sy' b'. sys_steps H sy sy'
    \<and> sy_procs sy' = (sy_procs sy)[j := [RecvUpdate (sy_next sy)]] @ [[], [TryNonce (sy_next sy) 0 b']] \<and> sy_next sy \<notin> set (sy_cancelled sy')
    \<and> PrvHsh (sy_mnr sy') = Block_Hash H b \<and> ChnLen (sy_mnr sy') = ChnLen (sy_mnr sy) + 1 \<and> PrvBlkHsh (Hdr b') = PrvHsh (sy_mnr sy)"
proof -
  let ?n = "length (sy_procs sy)" and ?m1 = "(sy_mnr sy)\<lparr>TxP := TxPool_ChkTxs H (map Some (Transactions b)) (TxP (sy_mnr sy))\<rparr>"
  define ps where "ps = (sy_procs sy)[j := [RecvUpdate (sy_next sy)]]"
  define sy1 where "sy1 = sy\<lparr>sy_mnr := ?m1, sy_procs := ps @ [[SetHashTo (Block_Hash H b), IncLen], [TestPriMet (sy_next sy)]],
    sy_cancelled := c # sy_cancelled sy, sy_next := Suc (sy_next sy)\<rparr>"
  have "\<not> mnr_closed (sy_mnr sy)" using ready by (simp add: ready_def)
  then have 1: "sched_run H [Call (CallHndlBlk (Some b)), Run ?n, Run ?n, Meet ?n j, Run j, Run j] sy = Some sy1"
    using assms(2-4) by (simp add: HndlChkBlk_code_def nth_append list_update_append sy1_def ps_def set_proc_def spawn_def upd_mnr_def)
  have len: "length ps = ?n" by (simp add: ps_def)
  define sy2 where "sy2 = set_proc (Suc ?n) [TryNonce (sy_next sy) 0 (candidate H ?m1)] (upd_mnr chosen sy1)"
  have 2: "sched_run H (replicate 6 (Run (Suc ?n))) sy1 = Some sy2"
    using search_builds [of "Suc ?n" sy1 "sy_next sy" "Some (cb_tx ?m1 (NewMiningPool ?m1))" H] ready_candidate [OF ready] ready len
    by (simp add: sy1_def sy2_def nth_append chosen_def ready_def)
  define sy3 where "sy3 = set_proc ?n [] (upd_mnr (\<lambda>m. IncChnLen (SetHash (Block_Hash H b) m)) sy2)"
  have 3: "sched_run H [Run ?n, Run ?n] sy2 = Some sy3"
    using len by (simp add: sy3_def sy2_def sy1_def nth_append list_update_append set_proc_def spawn_def upd_mnr_def)
  have "sys_steps H sy sy3" using sched_run_sound [OF 1] sched_run_sound [OF 2] sched_run_sound [OF 3] by simp
  moreover have "sy_procs sy3 = ps @ [[], [TryNonce (sy_next sy) 0 (candidate H ?m1)]]"
    using len by (simp add: sy3_def sy2_def sy1_def list_update_append)
  moreover have "sy_next sy \<notin> set (sy_cancelled sy3)"
    using loop_ctx_less [OF ctx_inv_reach [OF assms(1)] assms(2,3)] by (simp add: sy3_def sy2_def sy1_def)
  ultimately show ?thesis
    by (intro exI [of _ sy3] exI [of _ "candidate H ?m1"])
       (simp add: ps_def [symmetric], simp add: sy3_def sy2_def sy1_def chosen_def candidate_def IncChnLen_def SetHash_def)
qed

theorem HndlBlk_stale_search_witness:
  "\<exists>sy' b'. sys_steps length_digest demo_sys sy' \<and> sy_procs sy' ! 4 = [TryNonce 2 0 b'] \<and> 2 \<notin> set (sy_cancelled sy')
     \<and> PrvHsh (sy_mnr sy') = Block_Hash length_digest (demo_empty_block) \<and> PrvBlkHsh (Hdr b') = num_hash 75"
proof -
  have "(demo_mnr\<lparr>TxP := TxPool_ChkTxs length_digest (map Some (Transactions demo_empty_block)) (TxP demo_mnr)\<rparr>) = demo_mnr"
    by (simp add: demo_empty_block_def TxPool_ChkTxs_def Rmv_def demo_mnr_def heap_Init_def)
  then show ?thesis
    using HndlBlk_stale_search [OF demo_sys_reach, of 1 1 length_digest demo_empty_block] demo_ready by (auto simp: nth_append demo_mnr_def)
qed

section \<open>The atomic model is a run\<close>

text \<open>The methods as \<open>Miner\<close> models them, each in one step.\<close>

fun call_result :: "(byte list \<Rightarrow> byte list) \<Rightarrow> call \<Rightarrow> ('pk, 'sk) Miner \<Rightarrow> ('pk, 'sk) mnr_result" where
  "call_result H CallStartMiner m = StartMiner m"
| "call_result H (CallHndlChkBlk b) m = HndlChkBlk H b m"
| "call_result H (CallHndlBlk b) m = Miner_HndlBlk H b m"
| "call_result H (CallHndlTx t) m = Miner_HndlTx t m"
| "call_result H CallPause m = Miner_Pause m"
| "call_result H CallResume m = Miner_Resume m"
| "call_result H CallKill m = Miner_Kill m"

text \<open>The schedule that runs goroutine \<open>p\<close> to its end while the loop \<open>j\<close> waits.\<close>

fun call_sched :: "nat \<Rightarrow> nat \<Rightarrow> bool \<Rightarrow> call \<Rightarrow> choice list" where
  "call_sched p j act CallStartMiner = [Run p, Run p, Meet p j]"
| "call_sched p j act (CallHndlChkBlk b) = [Run p, Run p] @ (if act then [Meet p j] else [])"
| "call_sched p j act (CallHndlBlk None) = []"
| "call_sched p j act (CallHndlBlk (Some b)) = [Run p, Run p] @ (if act then [Meet p j] else []) @ [Run p, Run p]"
| "call_sched p j act (CallHndlTx None) = []"
| "call_sched p j act (CallHndlTx (Some t)) = [Run p, Run p] @ (if act then [Meet p j] else [])"
| "call_sched p j act CallPause = [Run p, Meet p j, Run p]"
| "call_sched p j act CallResume = [Run p, Meet p j, Run p]"
| "call_sched p j act CallKill = [Run p, Run p, Run p]"

lemmas call_defs = StartMiner_def HndlChkBlk_def Miner_HndlBlk_def Miner_HndlTx_def Miner_Pause_def Miner_Resume_def Miner_Kill_def send_update_def

lemma call_sched_run:
  assumes "p < length (sy_procs sy)" "j < length (sy_procs sy)" "sy_procs sy ! p = call_code H cl" "sy_procs sy ! j = [RecvUpdate d]" "p \<noteq> j"
    and "sy_blk_closed sy = mnr_closed (sy_mnr sy)" "call_result H cl (sy_mnr sy) = Inr (m', ev)"
  shows "\<exists>sy'. sched_run H (call_sched p j (Active (sy_mnr sy)) cl) sy = Some sy' \<and> sy_mnr sy' = m' \<and> sy_procs sy' ! p = []
    \<and> (PoolUpdatedEv \<in> set ev \<longrightarrow> sy_procs sy' ! j = [CancelCtx d]) \<and> sy_out sy' = sy_out sy"
  using assms
  by (cases "(H, cl)" rule: call_code.cases; cases "Active (sy_mnr sy)")
     (auto simp: call_defs HndlChkBlk_code_def nth_append go_simps Let_def upd_mnr_def split: if_splits)

text \<open>The loop of \<^verbatim>\<open>CalcNonce\<close>, an iteration a step.\<close>

lemma set_proc_set_proc [simp]: "set_proc i k (set_proc i k' sy) = set_proc i k sy"
  by (simp add: set_proc_def)

lemma set_proc_same: "sy_procs sy ! i = k \<Longrightarrow> set_proc i k sy = sy"
  by (auto simp: set_proc_def)

lemma spawn_Nil [simp]: "spawn [] sy = sy"
  by (simp add: spawn_def)

lemma sys_steps_run:
  "i < length (sy_procs sy) \<Longrightarrow> sy_procs sy ! i = s # k \<Longrightarrow> exec_stmt H s sy = Some (Inr (sy', k', [])) \<Longrightarrow> sys_steps H sy (set_proc i (k' @ k) sy')"
  by (rule r_into_rtranclp) (use sys_step.run [of i sy s k H sy' k' "[]"] in simp)

lemma nonce_steps:
  assumes "CalcNonce_loop H stop lim trg i b = (r, b')" "stop = (\<lambda>_. c \<in> set (sy_cancelled sy))" "lim = NncLim (mnr_Conf (sy_mnr sy))"
    "trg = DifTrg (sy_mnr sy)" "p < length (sy_procs sy)"
  shows "sys_steps H (set_proc p (TryNonce c i b # k) sy) (set_proc p (EndMining r b' # k) sy)"
  using assms
proof (induction H stop lim trg i b rule: CalcNonce_loop.induct)
  case (1 H stop lim trg i b)
  let ?b = "b\<lparr>Hdr := (Hdr b)\<lparr>Nonce := i\<rparr>\<rparr>" and ?s = "set_proc p (TryNonce c i b # k) sy"
  note def = CalcNonce_loop.simps [of H stop lim trg i b]
  have run: "sys_steps H ?s (set_proc p (k' @ k) sy)" if "exec_stmt H (TryNonce c i b) ?s = Some (Inr (?s, k', []))" for k'
    using sys_steps_run [OF _ _ that, of p k] "1.prems"(5) by simp
  show ?case
  proof (cases "i < lim \<and> \<not> stop i \<and> \<not> SatisfiesPOW H ?b trg")
    case True
    then have "sys_steps H (set_proc p (TryNonce c (i + 1) ?b # k) sy) (set_proc p (EndMining r b' # k) sy)"
      using 1 def by simp
    moreover have "sys_steps H ?s (set_proc p ([TryNonce c (i + 1) ?b] @ k) sy)" using True "1.prems" by (intro run) simp
    ultimately show ?thesis by simp
  next
    case False
    then have "sys_steps H ?s (set_proc p ([EndMining r b'] @ k) sy)" using "1.prems" def by (intro run) (auto split: if_splits)
    then show ?thesis by simp
  qed
qed

lemma call_steps:
  assumes "p < length (sy_procs sy)" "j < length (sy_procs sy)" "sy_procs sy ! p = call_code H cl" "sy_procs sy ! j = [RecvUpdate d]" "p \<noteq> j"
    and "sy_blk_closed sy = mnr_closed (sy_mnr sy)" "call_result H cl (sy_mnr sy) = Inr (m', ev)"
  shows "\<exists>sy'. sys_steps H sy sy' \<and> sy_mnr sy' = m' \<and> sy_procs sy' ! p = [] \<and> sy_out sy' = sy_out sy
    \<and> (PoolUpdatedEv \<in> set ev \<longrightarrow> sy_procs sy' ! j = [CancelCtx d])"
  using call_sched_run [OF assms] sched_run_sound by blast

text \<open>
  A method of the miner that is not interrupted does what \<open>Miner\<close> says it does in one step. When a loop waits and a goroutine is about to run a method,
  a run exists in which the goroutine ends, the miner is the one of the atomic model, the node has received nothing, and the loop has been woken if the
  atomic model sends an update.
\<close>

theorem method_is_run:
  assumes "p < length (sy_procs sy)" "j < length (sy_procs sy)" "sy_procs sy ! p = call_code H cl" "sy_procs sy ! j = [RecvUpdate d]" "p \<noteq> j"
    and "sy_blk_closed sy = mnr_closed (sy_mnr sy)" "call_result H cl (sy_mnr sy) = Inr (m', ev)"
  shows "\<exists>sy'. sys_steps H sy sy' \<and> sy_mnr sy' = m' \<and> sy_procs sy' ! p = [] \<and> sy_out sy' = sy_out sy
    \<and> (PoolUpdatedEv \<in> set ev \<longrightarrow> sy_procs sy' ! j = [CancelCtx d])"
  by (rule call_steps [OF assms])

theorem method_is_run_witness:
  "\<exists>sy sy'. sched_run length_digest [Call CallPause] demo_sys = Some sy \<and> sys_steps length_digest sy sy' \<and> sy_mnr sy' = demo_mnr\<lparr>Active := False\<rparr>
     \<and> sy_procs sy' ! 3 = [] \<and> sy_procs sy' ! 1 = [CancelCtx 1]"
proof -
  obtain sy where s: "sched_run length_digest [Call CallPause] demo_sys = Some sy" "sy_procs sy = [[], [RecvUpdate 1], [TestPriMet 1], call_code length_digest CallPause]"
      "sy_mnr sy = demo_mnr" "sy_blk_closed sy = False" by simp
  have "call_result length_digest CallPause demo_mnr = Inr (demo_mnr\<lparr>Active := False\<rparr>, [PoolUpdatedEv])"
    by (simp add: Miner_Pause_def send_update_def FmtAddr_def)
  then show ?thesis using s method_is_run [of 3 sy 1 length_digest CallPause 1 "demo_mnr\<lparr>Active := False\<rparr>" "[PoolUpdatedEv]"] by auto
qed

text \<open>The blocks among events.\<close>

fun ev_block :: "mnr_event \<Rightarrow> Block option" where
  "ev_block (SendBlkEv b) = Some b"
| "ev_block ev = None"

lemma HndlBlk_no_block: "Miner_HndlBlk H (Some b) m = Inr (m', ev) \<Longrightarrow> List.map_filter ev_block ev = []"
  by (auto simp: call_defs go_simps Let_def List.map_filter_simps split: if_splits)

lemma found_steps:
  assumes p: "p < length (sy_procs sy)" "j < length (sy_procs sy)" "sy_procs sy ! p = [LogMined b, SendMined b] @ call_code H (CallHndlBlk (Some b))"
      "sy_procs sy ! j = [RecvUpdate d]" "sy_blk_closed sy = mnr_closed (sy_mnr sy)"
    and found: "Mine_found H b (sy_mnr sy) = Inr (m', ev)"
  shows "\<exists>sy'. sys_steps H sy sy' \<and> sy_mnr sy' = m' \<and> sy_procs sy' ! p = [] \<and> sy_out sy' = sy_out sy @ List.map_filter ev_block ev
    \<and> (PoolUpdatedEv \<in> set ev \<longrightarrow> sy_procs sy' ! j = [CancelCtx d])"
proof -
  obtain a t u ev' where f: "FmtAddr (mnr_Addr (sy_mnr sy)) = Inr a" "Block_NameTag H b = Inr t" "Block_Summarize H b = Inr u"
      "\<not> mnr_closed (sy_mnr sy)" "Miner_HndlBlk H (Some b) (sy_mnr sy) = Inr (m', ev')" "ev = SendBlkEv b # ev'"
    using found by (auto simp: Mine_found_def go_simps split: if_splits)
  have pj: "p \<noteq> j" using p(3,4) by auto
  let ?s = "set_proc p (call_code H (CallHndlBlk (Some b))) (sy\<lparr>sy_out := sy_out sy @ [b]\<rparr>)"
  have "sched_run H [Run p, Run p] sy = Some ?s" using p f(1-4) by (simp add: set_proc_def)
  note steps = sched_run_sound [OF this]
  obtain sy' where c: "sys_steps H ?s sy'" "sy_mnr sy' = m'" "sy_procs sy' ! p = []" "sy_out sy' = sy_out ?s"
      "PoolUpdatedEv \<in> set ev' \<longrightarrow> sy_procs sy' ! j = [CancelCtx d]"
    using call_steps [of p ?s j H "CallHndlBlk (Some b)" d m' ev'] p f(5) pj by auto
  show ?thesis using rtranclp_trans [OF steps c(1)] c(2-5) f(6) HndlBlk_no_block [OF f(5)]
    by (intro exI [of _ sy']) (simp add: List.map_filter_simps)
qed

lemma search_steps:
  assumes p: "p < length (sy_procs sy)" "j < length (sy_procs sy)" "sy_procs sy ! p = [TestPriMet c]" "sy_procs sy ! j = [RecvUpdate d]"
      "sy_blk_closed sy = mnr_closed (sy_mnr sy)"
    and r: "Mine_attempt H (\<lambda>_. c \<in> set (sy_cancelled sy)) (sy_mnr sy) = Some (Inr (m', ev))"
  shows "\<exists>sy'. sys_steps H sy sy' \<and> sy_mnr sy' = m' \<and> sy_procs sy' ! p = [] \<and> sy_out sy' = sy_out sy @ List.map_filter ev_block ev
    \<and> (PoolUpdatedEv \<in> set ev \<longrightarrow> sy_procs sy' ! j = [CancelCtx d])"
proof (cases "PriMet (TxP (sy_mnr sy))")
  case False
  then have "sched_run H [Run p] sy = Some (set_proc p [] sy)" "m' = sy_mnr sy" "ev = []" using p r by (simp_all add: Mine_attempt_def)
  then show ?thesis using p(1) sched_run_sound [of H "[Run p]" sy] by (intro exI [of _ "set_proc p [] sy"]) (simp add: List.map_filter_simps)
next
  case True
  let ?m = "chosen (sy_mnr sy)" and ?stop = "\<lambda>_. c \<in> set (sy_cancelled sy)"
  have np: "NewMiningPool (sy_mnr sy\<lparr>Mining := True\<rparr>) = NewMiningPool (sy_mnr sy)" "DifTrg ?m = DifTrg (sy_mnr sy)" "PrvHsh ?m = PrvHsh (sy_mnr sy)"
    by (simp_all add: NewMiningPool_def DifTrg_def chosen_def)
  obtain cb b0 where cb: "GenCBTx ?m (map Some (NewMiningPool (sy_mnr sy))) = Inr cb"
    and b0: "Block_New H (PrvHsh (sy_mnr sy)) (cb # map Some (NewMiningPool (sy_mnr sy))) (DifTrg (sy_mnr sy)) = Some (Inr b0)"
    and s: "Mine_search H ?stop b0 ?m = Inr (m', ev)"
    using r True np by (auto simp: Mine_attempt_def Let_def go_simps chosen_def split: sum.splits)
  obtain found b where cn: "CalcNonce H ?stop ?m b0 = (found, b)" by fastforce
  define sy1 where "sy1 = upd_mnr chosen sy"
  have 1: "sys_steps H sy (set_proc p [TryNonce c 0 b0] sy1)"
    unfolding sy1_def by (rule sched_run_sound [OF search_builds [OF p(1,3) True cb b0]])
  have 2: "sys_steps H (set_proc p [TryNonce c 0 b0] sy1) (set_proc p [EndMining found b] sy1)"
    using cn p(1) by (intro nonce_steps [where k = "[]"]) (simp_all add: CalcNonce_def sy1_def)
  define sy2 where "sy2 = set_proc p (if found then [LogMined b, SendMined b] @ call_code H (CallHndlBlk (Some b)) else [])
    (upd_mnr (\<lambda>m. m\<lparr>Mining := False\<rparr>) sy1)"
  have "sched_run H [Run p] (set_proc p [EndMining found b] sy1) = Some sy2"
    using p(1) by (simp add: sy2_def sy1_def set_proc_def upd_mnr_def)
  note steps = rtranclp_trans [OF rtranclp_trans [OF 1 2] sched_run_sound [OF this]]
  have pj: "p \<noteq> j" using p(3,4) by auto
  show ?thesis
  proof (cases found)
    case True
    have "Mine_found H b (sy_mnr sy2) = Inr (m', ev)" using s cn True by (simp add: Mine_search_def sy2_def sy1_def)
    moreover have "mnr_closed (chosen (sy_mnr sy)) = mnr_closed (sy_mnr sy)" by (simp add: chosen_def)
    ultimately show ?thesis using found_steps [of p sy2 j b H d m' ev] p pj True steps
      by (auto simp: sy2_def sy1_def intro: rtranclp_trans)
  next
    case False
    then have "m' = sy_mnr sy2" "ev = []" using s cn by (simp_all add: Mine_search_def sy2_def sy1_def)
    then show ?thesis using steps False p(1) by (intro exI [of _ sy2]) (simp add: sy2_def sy1_def List.map_filter_simps)
  qed
qed

text \<open>
  C18: A search that is not interrupted does what \<open>Miner\<close> says it does in one step. When a loop waits and a search is about to start, a run exists
  in which the search ends, the miner is the one of the atomic model, the node has received the block of the atomic model, if any, and the loop has been
  woken if the atomic model sends an update.
\<close>

theorem search_is_run:
  assumes p: "p < length (sy_procs sy)" "j < length (sy_procs sy)" "sy_procs sy ! p = [TestPriMet c]" "sy_procs sy ! j = [RecvUpdate d]"
      "sy_blk_closed sy = mnr_closed (sy_mnr sy)"
    and r: "Mine_attempt H (\<lambda>_. c \<in> set (sy_cancelled sy)) (sy_mnr sy) = Some (Inr (m', ev))"
  shows "\<exists>sy'. sys_steps H sy sy' \<and> sy_mnr sy' = m' \<and> sy_procs sy' ! p = [] \<and> sy_out sy' = sy_out sy @ List.map_filter ev_block ev
    \<and> (PoolUpdatedEv \<in> set ev \<longrightarrow> sy_procs sy' ! j = [CancelCtx d])"
  by (rule search_steps [OF assms])

theorem search_is_run_witness:
  "\<exists>sy' b. sys_steps length_digest demo_sys sy' \<and> sy_procs sy' ! 2 = [] \<and> b \<in> set (sy_out sy')"
proof -
  obtain m' ev b where at: "Mine_attempt length_digest (\<lambda>_. False) demo_mnr = Some (Inr (m', ev))" "SendBlkEv b \<in> set ev" by (rule demo_attempt)
  obtain sy' where "sys_steps length_digest demo_sys sy'" "sy_procs sy' ! 2 = []" "sy_out sy' = List.map_filter ev_block ev"
    using search_is_run [of 2 demo_sys 1 1 1 length_digest m' ev] at(1) by auto
  moreover have "b \<in> set (List.map_filter ev_block ev)" using at(2) by (force simp: List.map_filter_def)
  ultimately show ?thesis by (intro exI [of _ sy'] exI [of _ b]) simp
qed

text \<open>
  C16: Whatever the interleaving, the node only gets solved blocks from its miner. Every block the node has received from a miner that started without
  goroutines has the miner's target in its header and meets it, its Merkle root is the root of its transactions, and its first transaction is a
  coinbase; however many handlers, loops and searches ran at the same time and in whatever order.
\<close>

theorem delivered_blocks_solved:
  assumes "sys_reach H m sy" "b \<in> set (sy_out sy)"
  shows "DiffTarg (Hdr b) = DifTrg m \<and> SatisfiesPOW H b (DifTrg m) \<and> CalcMrklRt H (Transactions b) = Some (MrklRt (Hdr b))
    \<and> (\<exists>cb ts. Transactions b = cb # ts \<and> IsCoinbase cb)"
proof -
  have "all_ok (out_ok H (DifTrg m)) (search_ok H (DifTrg m)) (sys_init m)" by (simp add: all_ok_def sys_init_def out_ok_def)
  then have "out_ok H (DifTrg m) sy" using blk.all_ok_steps assms(1) by (auto simp: sys_reach_def all_ok_def)
  then have "solved H (DifTrg m) b" using assms(2) by (simp add: out_ok_def)
  then show ?thesis by (cases "Transactions b") (simp_all add: solved_def built_def)
qed

theorem delivered_blocks_solved_witness:
  "\<exists>sy b. sys_reach length_digest demo_mnr sy \<and> b \<in> set (sy_out sy) \<and> SatisfiesPOW length_digest b (DifTrg demo_mnr)"
proof -
  obtain m' ev b where at: "Mine_attempt length_digest (\<lambda>_. False) demo_mnr = Some (Inr (m', ev))" "SendBlkEv b \<in> set ev" by (rule demo_attempt)
  obtain sy where sy: "sys_steps length_digest demo_sys sy" "sy_out sy = List.map_filter ev_block ev"
    using search_steps [of 2 demo_sys 1 1 1 length_digest m' ev] at(1) by auto
  have "sys_reach length_digest demo_mnr sy" using rtranclp_trans [OF demo_sys_reach [unfolded sys_reach_def] sy(1)] by (simp add: sys_reach_def)
  moreover have "b \<in> set (sy_out sy)" using at(2) sy(2) by (force simp: List.map_filter_def)
  ultimately show ?thesis using delivered_blocks_solved by blast
qed

end
