(* ===== verification/Spec2Isabelle.thy ===== *)
theory Spec2Isabelle
  imports Addr_Gossip Identifiers Rpc Settlement Mine_Runs
begin

text \<open>
  A verification library for BrunoCoin, the cryptocurrency of \<^verbatim>\<open>src/BrunoCoin\<close>, written in Go: nodes that keep a
  chain of blocks with proof of work, make and check payments over unspent transaction outputs, mine, and
  exchange blocks, transactions and addresses with their peers.

  \<^bold>\<open>The program.\<close> A node (\<^verbatim>\<open>pkg/node.go\<close>, \<^verbatim>\<open>pkg/server.go\<close>) owns a chain (\<^verbatim>\<open>pkg/blockchain\<close>), a wallet
  (\<^verbatim>\<open>pkg/wallet\<close>), a miner (\<^verbatim>\<open>pkg/miner\<close>), an address database and a peer database (\<^verbatim>\<open>pkg/address\<close>,
  \<^verbatim>\<open>pkg/peer\<close>). The wallet asks the chain for unspent outputs and sends a transaction to the node; the node sends it to the miner
  and to its peers; the miner queues it by priority, builds a block and searches a nonce; the node adds the
  block to the chain and sends it on. What arrives from peers is checked by \<^verbatim>\<open>ChkTx\<close> and \<^verbatim>\<open>ChkBlk\<close>
  (\<^verbatim>\<open>pkg/validation.go\<close>) first.

  \<^bold>\<open>The theories\<close>, in the order they build on each other:

  \<^item> \<open>Prelude\<close>: panics and results (\<open>go_panic\<close>, \<open>go\<close>, \<open>go_bind\<close>, \<open>go_map\<close>, \<open>go_fold\<close>), Go maps as association lists
    (\<open>gget\<close>, \<open>gset\<close>, \<open>range_order\<close>), words. \<open>Go_Strings\<close>, \<open>Go_Heap\<close> and \<open>Sha256\<close> hold what the program uses of the
    standard library: printing, parsing and hex, \<^verbatim>\<open>container/heap\<close> with its heap invariant as the locale
    \<open>heap_order\<close>, and SHA-256.
  \<^item> \<open>Utils\<close>, \<open>Proto\<close>, \<open>Id\<close>: \<^verbatim>\<open>pkg/utils\<close>, the messages and constructors of \<^verbatim>\<open>pkg/proto\<close>, \<^verbatim>\<open>pkg/id\<close>.
  \<^item> \<open>Tx\<close>, \<open>Tx_Heap\<close>: \<^verbatim>\<open>pkg/block/tx\<close>: transactions, their hashes, wire forms, locators and unlocking scripts; the queue of
    transactions, with the locales \<open>tx_queue\<close> and \<open>aging_queue\<close> as its interface to the pool and the wallet.
  \<^item> \<open>Block\<close>: \<^verbatim>\<open>pkg/block\<close>: header hash, proof of work, Merkle root.
  \<^item> \<open>Blockchain\<close>: \<^verbatim>\<open>pkg/blockchain\<close>: the tree of blocks and the shared map of unspent outputs, which lives in an explicit
    store \<open>utxo_mem\<close>; the abstract ledger \<open>ledger_of\<close> that the map refines; the locales \<open>utxo_store\<close> and
    \<open>append_chain\<close>; the reachable chains \<open>chain_run\<close>.
  \<^item> \<open>Validation\<close>: \<open>ChkTx\<close> and \<open>ChkBlk\<close>. \<open>Tx_Pool\<close>, \<open>Miner\<close>: \<^verbatim>\<open>pkg/miner\<close>, each handler and each search in one step;
    \<open>Mine_Loop\<close>, \<open>Mine_Runs\<close>: the same methods, the loop of \<^verbatim>\<open>Mine\<close> and its searches statement by statement, interleaved and meeting on the unbuffered
    channel \<^verbatim>\<open>PoolUpdated\<close> (\<open>stmt\<close>, \<open>exec_stmt\<close>, \<open>sys_step\<close>), with the locale \<open>stmt_safety\<close> for properties that every statement keeps. \<open>Wallet\<close>: \<^verbatim>\<open>pkg/wallet\<close>. \<open>Peer_Db\<close>:
    \<^verbatim>\<open>pkg/address\<close> and \<^verbatim>\<open>pkg/peer\<close>, with address objects in the store \<open>addr_mem\<close>; the locale
    \<open>addr_db\<close> is what both databases promise; the remote calls of the client for every outcome. \<open>Grpc\<close>: the generated bindings of
    \<^verbatim>\<open>pkg/proto/advancedcoin_grpc.pb.go\<close> and the connections of \<^verbatim>\<open>pkg/address/client.go\<close>.
  \<^item> \<open>Node\<close>: the configuration, the node's methods and the request handlers. \<open>Node_Run\<close>: the node as a state machine
    (\<open>node_step\<close>, \<open>node_reach\<close>) and its invariant. \<open>Relay\<close>, \<open>Handshake\<close>, \<open>Sync\<close>: what a node does with blocks and
    transactions, how nodes become peers, how a node catches up. \<open>Rpc\<close>: the node as the server behind the bindings.
  \<^item> \<open>Gossip\<close>, \<open>Network\<close>: many nodes and the calls under way between them (\<open>net_step\<close>). \<open>Gossip\<close> knows no nodes: the locales \<open>flooding\<close> and
    \<open>flood_topic\<close> say what a handler that passes messages on promises and what follows for the network; \<open>Network\<close> interprets them on
    \<open>ForwardTransaction\<close> and \<open>ForwardBlock\<close>, \<open>Addr_Gossip\<close> on \<open>SendAddresses\<close>. \<open>Identifiers\<close>: the strings under which a node files blocks,
    transactions and outputs.
  \<^item> \<open>Settlement\<close>: what payments and blocks do to the money: the weight of a map of unspent outputs, from the wallet's transaction through the mined block to
    balances and supply; the chains all of whose blocks were mined (\<open>mined_chain\<close>).
  \<^item> This theory: properties that span components.

  \<^bold>\<open>How the code is modelled.\<close> Structs are records, pointers that may be nil are options, and objects that the
  code shares and changes in place (the map of unspent outputs, addresses) live in explicit stores. Every nil dereference,
  index out of range, failed type assertion, division by zero, send on a closed channel and explicit panic is a
  value of \<open>go_panic\<close>. 32-bit integers are words and wrap around. Log lines are modelled where computing their arguments can
  panic. The order of a range over a map, random permutations and draws, clock readings, cancellation and the answers of remote
  nodes are arguments, and the properties hold for all of them. Goroutines, channel sends and remote calls are events in the results of
  the handlers. The hash function is an argument \<open>H\<close>, instantiated by SHA-256 in \<open>Utils\<close>; ECDSA and the key
  encodings of \<^verbatim>\<open>crypto/x509\<close> are an argument, with what the program relies on as the hypotheses \<open>key_codec\<close>, \<open>signs_verify\<close>
  and \<open>signs_always\<close>. The run-time of gRPC is an argument of \<open>Grpc\<close>, with what is documented of it as the hypotheses
  \<open>codec_ok\<close>, \<open>connects\<close> and \<open>serves\<close>: messages whose strings are not UTF-8 are refused, and a call whose reply is not there before its deadline fails. No property assumes that a hash function is injective: binding properties assume that there is no collision on the
  inputs at hand.

  \<^bold>\<open>What is shown.\<close> Invariants: the main chain of every reachable chain, the queue is a heap, the pool keeps its counters, and the
  invariant of a node under every interleaving of its handlers; the main chain of a node never gets shorter. Refinement: without forks the map of unspent outputs is the ledger of the
  main chain, balances are sums over the ledger. Concurrency: under every interleaving of a miner's goroutines the node gets solved
  blocks only, and there are no more searches at a time than \<^verbatim>\<open>StartMiner\<close> was called; a sender waits for a loop only; the atomic model is a run. Functional behaviour: payments, selection of outputs, mining, coinbase, resending,
  registration, relaying, answering and catching up; a remote call runs the handler of its name and returns its reply
  unless two seconds have passed; a peer is answered once, whatever happens later; end to end, a payment made by one node is accepted by another, and a mined block
  extends the chain of a peer. Money: a payment that is mined moves its amount and fee and nothing else, and the supply of a mined chain follows the schedule of the subsidy
  and stays below a limit, as long as its blocks are honest (\<open>honest_block\<close>: true claims, no input spent twice, no output locator used again, all of which the code
  does not check, and which payments of the wallet keep while amounts fit in 32 bits and locators are new). Networks: forwarding ends after a bounded number of deliveries, a payment reaches every node that is connected to its sender
  over peers, and all nodes connected to a miner agree on the block it mined; exchanging addresses ends. Types: every key of a node's maps is a hash or a
  locator. Equivalence: the Merkle loop computes the root of a perfect tree. Termination:
  the Merkle loop ends exactly for non-empty lists, the search for a nonce and the handshake end. Round trips: locators, transactions and
  blocks. Errors: which inputs make the program panic. The properties also record where the code does less than its comments say: forks
  share one map, refused payments keep their outputs reserved, claimed amounts and repeated inputs are not
  checked, a block brings its own target, of two equal coinbases one is lost, the pool's cumulative priority drifts
  when transactions of equal hash differ in priority, a nil entry in a list to remove breaks the queue, a node without a wallet does not survive its start, single messages from a peer stop a node, and a new block wakes the miner
  before it knows the block's hash.

  \<^bold>\<open>Bounds and fuel.\<close> All definitions are total. The Merkle loop, which may run forever, is a partial function whose value \<open>None\<close> is
  not returning. Loops over a counter have termination proofs. There is no fuel.

  \<^bold>\<open>Not modelled.\<close> The reflection code and the accessors of the generated protobuf messages, which the program does not call, the writing of log lines, and locks. Between
  nodes, handlers are atomic steps, a goroutine's later effects are separate steps of \<open>node_step\<close>, and channel operations do not block; inside the
  miner they do (\<open>Mine_Loop\<close>), where the node is taken to receive a mined block at some time. In \<open>Network\<close> nodes do nothing but
  handle forwarded transactions and blocks, in \<open>Addr_Gossip\<close> nothing but lists of addresses: no peers are added and nothing else is mined or paid until the calls have been delivered. The data
  races of the source on \<^verbatim>\<open>TxMap\<close> and on the longest answer in \<^verbatim>\<open>Bootstrap\<close> are not modelled. When the wallet sends a
  transaction again it raises the lock time of the object that the miner's queue may share; the queue holds a copy here. A node whose
  key could not be generated has a nil identity in the source and is not modelled further. \<^verbatim>\<open>src/RathDB\<close> is a separate C++ program.
\<close>

section \<open>Payments travel\<close>

lemma input_ok_abs:
  assumes "utxo_abs (last_utxo bc) = utxo_abs (last_utxo bc')" "input_ok ec H bc i"
  shows "input_ok ec H bc' i"
proof -
  let ?k = "MkTXOLoc (txi_TransactionHash i) (txi_OutputIndex i)"
  obtain u where u: "gget (last_utxo bc) ?k = Some u" "IsUnlckd ec H u (txi_UnlockingScript i) = Inr True"
    using assms(2) by (auto simp: input_ok_def GetUTXO_def)
  have "map_option unmark (gget (last_utxo bc) ?k) = map_option unmark (gget (last_utxo bc') ?k)"
    using fun_cong [OF assms(1), of ?k] by (simp add: utxo_abs_def)
  then obtain u' where u': "gget (last_utxo bc') ?k = Some u'" "unmark u' = unmark u" using u(1) by (cases "gget (last_utxo bc') ?k") auto
  have "IsUnlckd ec H u' s = IsUnlckd ec H (unmark u') s" "IsUnlckd ec H u s = IsUnlckd ec H (unmark u) s" for s by (simp_all add: unmark_def)
  with u u' show ?thesis by (auto simp: input_ok_def GetUTXO_def)
qed

text \<open>What \<open>ChkTx\<close> accepts depends on the ledger only, not on what a node has reserved for itself.\<close>

lemma ChkTx_abs:
  assumes "utxo_abs (last_utxo bc) = utxo_abs (last_utxo bc')" "ChkTx ec H mx bc (Some t) = Inr True"
  shows "ChkTx ec H mx bc' (Some t) = Inr True"
  using assms(2) input_ok_abs [OF assms(1)] by (auto simp: ChkTx_iff)

text \<open>
  C5: A payment made at one node is accepted at another. Let a wallet with a generated identity and a working signer make a payment it
  can afford on a reachable chain, without exceeding 32 bits, and let another reachable node have taken the same blocks in the same order. For a
  digest of 32 bytes, when that node has not seen the transaction, its address can be printed and the transaction is not larger than a block may be,
  it accepts the transaction as it comes off the wire, hands it to its miner, if it has one, and sends it on to every peer of its own.
\<close>

theorem payment_accepted_by_peer:
  assumes "key_codec ec" "signs_verify ec" "signs_always ec" "CreateSimpleID ec r0 = Some (wt_Id w)"
    and run: "chain_run H cc bs bc" and ord: "range_order (last_utxo bc) ks"
    and lim: "avail_value (last_utxo bc) (hex_EncodeToString (GetPublicKeyBytes (wt_Id w))) < 2 ^ 32"
    and enough: "unat (req_Amt txR) + unat (Fee txR) \<le> avail_value (last_utxo bc) (hex_EncodeToString (GetPublicKeyBytes (wt_Id w)))"
    and pos: "req_Amt txR \<noteq> 0"
    and peer: "node_reach ec H conf n" "chain_run H cc bs (Chain n)" "\<And>v. length (H v) = 32" "FmtAddr (n_Addr n) = Inr a"
  shows "\<exists>w' bc' t. HndlTxReq ec H ks draw txR w bc = Inr (w', bc', [t])
    \<and> (\<not> seen (TxMap n) (Transaction_Hash H t) \<and> Transaction_Sz t \<le> MxBlkSz conf \<longrightarrow>
        (\<exists>n'. ForwardTransaction ec H ks' (Transaction_Serialize t) n
           = Inr (n', (if HasMnr (MnrConf conf) then [GoMnrHndlTx (clear_liminal t)] else [])
                @ map (\<lambda>p. RpcForwardTransaction (peer_addr n p) (Transaction_Serialize t)) (PeerDb_List ks' (PeerDb n)), False)))"
proof -
  obtain w' bc' t where t: "HndlTxReq ec H ks draw txR w bc = Inr (w', bc', [t])"
    and chk: "Transaction_Sz t \<le> MxBlkSz conf \<longrightarrow> ChkTx ec H (MxBlkSz conf) bc' (Some t) = Inr True"
    using HndlTxReq_spec [OF assms(1-4) run ord lim enough pos, where draw = draw and mx = "MxBlkSz conf"] by blast
  have "utxo_abs (last_utxo bc') = utxo_abs (last_utxo (Chain n))"
    using run_utxo(1) [OF HndlTxReq_run [OF run ord t]] run_utxo(1) [OF peer(2)] by simp
  then have chk: "Transaction_Sz t \<le> MxBlkSz conf \<Longrightarrow> ChkTx ec H (MxBlkSz conf) (Chain n) (Some (clear_liminal t)) = Inr True"
    using chk ChkTx_abs by simp
  have conf: "n_Conf n = conf" using node_reach_inv [OF peer(1)] by (simp add: nodeinv_def)
  obtain s where "Transaction_NameTag H (clear_liminal t) = Inr s" using NameTag_ok [of H "clear_liminal t", OF peer(3)] by blast
  moreover have "Transaction_Serialize (clear_liminal t) = Transaction_Serialize t"
    using Transaction_Serialize_Deserialize [of "Transaction_Serialize t"] by (simp add: Transaction_Deserialize_Serialize)
  ultimately show ?thesis using t chk peer(4)
    by (intro exI [of _ w'] exI [of _ bc'] exI [of _ t]) (simp add: ForwardTransaction_def Transaction_Deserialize_Serialize conf Let_def)
qed

theorem payment_accepted_by_peer_witness:
  "\<exists>w' bc' t. HndlTxReq echo_ecdsa length_digest (gkeys (last_utxo demo_chain)) (\<lambda>j. j) \<lparr>PubK = [1], req_Amt = 6, Fee = 2\<rparr> (demo_wallet 0) demo_chain
      = Inr (w', bc', [t])
    \<and> (Transaction_Sz t \<le> 1000 \<longrightarrow> (\<exists>n'. ForwardTransaction echo_ecdsa length_digest [] (Transaction_Serialize t) demo_node = Inr (n', [], False)))"
proof -
  have v: "avail_value (last_utxo demo_chain) ''aa'' = 9"
    by (simp add: avail_value_def demo_chain_eq demo_nodes gkeys_def avail_def worth_def)
  show ?thesis
    using payment_accepted_by_peer [OF echo_ecdsa_ok echo_signs_always demo_wallet_key(2) [of 0] demo_chain_run range_order_refl _ _ _ demo_node_reach
        _ length_length_digest, where txR = "\<lparr>PubK = [1], req_Amt = 6, Fee = 2\<rparr>" and draw = "\<lambda>j. j" and ks' = "[]"] demo_chain_run
    by (simp add: demo_wallet_key v demo_node_fields FmtAddr_def mnr_NilConfig_def PeerDb_List_def List.map_filter_def)
qed

section \<open>Blocks travel\<close>

text \<open>
  C6: A mined block extends the chain of a peer. Suppose a miner is ready, the transactions it chooses are accepted on the chain of a reachable
  node whose last block is the one the miner works on and is filed under its hash, sizes do not wrap around, the limits fit, and the reward does not
  wrap to zero. For a digest of 32 bytes and a safe depth that is not zero, when the node has not seen the block, forwarding it to the node
  extends the node's main chain by exactly that block, and sends it on to every peer.
\<close>

theorem mined_block_extends_peer:
  assumes H: "\<And>v. length (H v) = 32" and m: "ready m" "Mine_attempt H stop m = Some (Inr (m', mev))" "SendBlkEv b \<in> set mev"
    and n: "node_reach ec H conf n" "Blockchain_List (Chain n) = Inr chain" "last_filed H (Chain n)" "PrvHsh m = Block_Hash H (GetLastBlock (Chain n))"
      "SafeBlkAmt (WtConf conf) \<noteq> 0" "\<not> seen (BlockMap n) (Block_Hash H b)"
    and txs: "\<forall>t \<in> set (NewMiningPool m). ChkTx ec H (MxBlkSz conf) (Chain n) (Some t) = Inr True"
      "\<forall>q \<in> set (TxQ (TxP m)). unat (Transaction_Sz (hn_T q)) + unat (BlkSz (mnr_Conf m)) < 2 ^ 32"
      "100 < BlkSz (mnr_Conf m)" "BlkSz (mnr_Conf m) \<le> MxBlkSz conf"
      "sum_list (map (\<lambda>t. SumInputs t - SumOutputs t) (NewMiningPool m)) + subsidy (mnr_Conf m) (ChnLen m) \<noteq> 0"
  shows "\<exists>n' ev. ForwardBlock ec H ks (Block_Serialize b) n = Inr (n', ev, False) \<and> Blockchain_List (Chain n') = Inr (chain @ [b])
    \<and> (\<forall>p \<in> set (PeerDb_List ks (PeerDb n)). RpcForwardBlock (peer_addr n p) (Block_Serialize b) \<in> set ev)"
proof -
  obtain bs where run: "chain_run H (ChainConf conf) bs (Chain n)" and conf: "n_Conf n = conf" by (rule reach_run [OF n(1)])
  have b: "ChkBlk ec H (MxBlkSz conf) (Chain n) (Some b) = Inr True" "PrvBlkHsh (Hdr b) = PrvHsh m"
      "Transactions b = cb_tx m (NewMiningPool m) # map clear_liminal (NewMiningPool m)"
    using Mine_attempt_valid [OF H m run txs] by simp_all
  have "clear_liminal (clear_liminal t) = clear_liminal t" for t by (simp add: clear_liminal_def comp_def)
  then have "wire_block b = b" by (simp add: wire_block_def b(3) cb_tx_fields comp_def)
  then have wire: "Block_Deserialize (Block_Serialize b) = Inr b" by (simp add: Deserialize_wire)
  obtain bc where bc: "Blockchain_Add H (Some b) (Chain n) = Inr bc" "chain_of (LastBlock bc) = chain_of (LastBlock (Chain n)) @ [b]"
    using Add_on_top [OF n(3), of b] b(2) n(4) by auto
  have "Blockchain_List bc = Inr (chain @ [b])" using run_list [OF run_add [OF run bc(1)]] run_list [OF run] bc(2) n(2) by simp
  with ForwardBlock_accept [OF wire n(6) _ bc(1), of ec ks] b(1) conf n(5) show ?thesis by fastforce
qed

text \<open>The example miner on top of the genesis block, for witnesses.\<close>

definition demo_mnr0 :: "(byte, byte) Miner" where
  "demo_mnr0 = demo_mnr\<lparr>PrvHsh := num_hash 10\<rparr>"

lemma demo_mnr0_fields:
  "ready demo_mnr0" "NewMiningPool demo_mnr0 = [demo_pay 9 8]" "TxQ (TxP demo_mnr0) = TxQ (TxP demo_mnr)" "mnr_Conf demo_mnr0 = mnr_Conf demo_mnr"
  "DifTrg demo_mnr0 = easy_target" "PrvHsh demo_mnr0 = num_hash 10" "ChnLen demo_mnr0 = ChnLen demo_mnr"
proof -
  show p: "NewMiningPool demo_mnr0 = [demo_pay 9 8]" using demo_pool by (simp add: demo_mnr0_def NewMiningPool_def)
  show "ready demo_mnr0" using demo_ready p demo_pool by (simp add: ready_def) (simp add: demo_mnr0_def num_hash_def)
qed (use demo_target in \<open>simp_all add: demo_mnr0_def DifTrg_def\<close>)

lemma demo_mnr0_mines:
  "\<exists>m' mev b. Mine_attempt length_digest (\<lambda>_. False) demo_mnr0 = Some (Inr (m', mev)) \<and> SendBlkEv b \<in> set mev"
proof -
  let ?c = "candidate length_digest demo_mnr0"
  have "SatisfiesPOW length_digest (?c\<lparr>Hdr := (Hdr ?c)\<lparr>Nonce := 0\<rparr>\<rparr>) easy_target" by (simp add: easy_target_POW)
  then have "fst (CalcNonce length_digest (\<lambda>_. False) demo_mnr0 ?c)"
    unfolding CalcNonce_def using CalcNonce_loop_finds [of 0 0] demo_target(2) by (simp add: demo_mnr0_fields)
  then obtain b where "CalcNonce length_digest (\<lambda>_. False) demo_mnr0 ?c = (True, b)" by (metis (full_types) prod.collapse)
  then show ?thesis using Mine_attempt_ready [OF length_length_digest demo_mnr0_fields(1), where stop = "\<lambda>_. False"] by simp
qed

theorem mined_block_extends_peer_witness:
  "\<exists>m' mev b n' ev. Mine_attempt length_digest (\<lambda>_. False) demo_mnr0 = Some (Inr (m', mev)) \<and> SendBlkEv b \<in> set mev
     \<and> ForwardBlock echo_ecdsa length_digest [] (Block_Serialize b) demo_node0 = Inr (n', ev, False)
     \<and> Blockchain_List (Chain n') = Inr [gen_block demo_conf, b]"
proof -
  obtain m' mev b where at: "Mine_attempt length_digest (\<lambda>_. False) demo_mnr0 = Some (Inr (m', mev))" "SendBlkEv b \<in> set mev"
    using demo_mnr0_mines by blast
  have ch: "Chain demo_node0 = demo_start" "BlockMap demo_node0 = []" by (simp_all add: demo_node0_def)
  have li: "Blockchain_List (Chain demo_node0) = Inr [gen_block demo_conf]" by (simp add: ch run_list [OF demo_start_run]) (simp add: demo_start_eq demo_nodes)
  have last: "GetLastBlock demo_start = gen_block demo_conf" by (simp add: GetLastBlock_def demo_start_eq demo_nodes)
  have filed: "last_filed length_digest (Chain demo_node0)" by (simp add: last_filed_def ch last demo_hash) (simp add: demo_start_eq)
  have "GetUTXO demo_start i = GetUTXO demo_chain i" if "i \<in> set (tx_Inputs (demo_pay 9 8))" for i
    using that by (simp add: demo_pay_def GetUTXO_def demo_start_eq demo_chain_eq demo_nodes)
  then have "ChkTx echo_ecdsa length_digest 1000 demo_start (Some (demo_pay 9 8)) = Inr True"
    using demo_pay_ok [of 8 9] by (simp add: ChkTx_iff input_ok_def)
  moreover have "subsidy (mnr_Conf demo_mnr) (ChnLen demo_mnr) = 2"
    by (simp add: word_unat_eq_iff unat_subsidy) (simp add: demo_mnr_def mnr_DefaultConfig_def)
  ultimately obtain n' ev where "ForwardBlock echo_ecdsa length_digest [] (Block_Serialize b) demo_node0 = Inr (n', ev, False)"
      "Blockchain_List (Chain n') = Inr ([gen_block demo_conf] @ [b])"
    using mined_block_extends_peer [OF length_length_digest demo_mnr0_fields(1) at demo_node0_reach li filed, of "[]"]
    by (auto simp: demo_mnr0_fields demo_node_fields ch last demo_hash demo_queue demo_pay_fields)
  with at show ?thesis by auto
qed

section \<open>A killed miner\<close>

text \<open>
  Killing the miner stops the node. After \<^verbatim>\<open>Kill\<close> the channels are closed: starting, pausing, resuming or killing the miner again panics on the closed
  channel, and so do its handlers as long as it is active; the node's receive loop can take a nil block from the channel, and handling it
  dereferences nil.
\<close>

theorem killed_miner_panics:
  assumes "Mnr n = Some m" "Miner_Kill m = Inr (m', ev)" "HasMnr (MnrConf (n_Conf n))"
  shows "(\<forall>op \<in> {StartMiner, Miner_Pause, Miner_Resume, Miner_Kill}. op m' = Inl ChanClosed)
    \<and> Miner_HndlTx (Some t) (m'\<lparr>Active := True\<rparr>) = Inl ChanClosed
    \<and> recv_ready (n\<lparr>Mnr := Some m'\<rparr>) (RecvBlk None) \<and> Start_recv H ks (RecvBlk None) (n\<lparr>Mnr := Some m'\<rparr>) = Inl NilDeref"
  using assms
  by (auto simp: Miner_Kill_def StartMiner_def Miner_Pause_def Miner_Resume_def Miner_HndlTx_def send_update_def recv_ready_def Start_recv_def
      select_panics_def HndlMnrBlk_def Let_def split: if_splits)

theorem killed_miner_panics_witness:
  "Start_recv length_digest [] (RecvBlk None) (demo_boot\<lparr>Mnr := Some (demo_mnr\<lparr>Active := False, mnr_closed := True\<rparr>)\<rparr>) = Inl NilDeref"
  using killed_miner_panics [of "demo_boot\<lparr>Mnr := Some demo_mnr\<rparr>" demo_mnr "demo_mnr\<lparr>Active := False, mnr_closed := True\<rparr>" "[]" "demo_tx 1" length_digest "[]"]
  by (simp add: Miner_Kill_def demo_mnr_def demo_boot_def registered_def demo_boot0_def demo_boot_conf_def mnr_DefaultConfig_def)

end
